(* ===== verification/TG_Prelude.thy ===== *)
theory TG_Prelude
  imports Main "HOL-Library.Word"
begin

unbundle bit_operations_syntax

section \<open>Shared types, the fault monad and the word lemmas\<close>

text \<open>
  What every component of the traffic generator shares: the ways a C++ operation can fail to
  return (\<open>fault\<close>), the result type of fallible operations, the loop combinator over it, the
  names of the machine integer types, and the lemmas on machine words the ring buffer, the
  cycle counters and the packet headers use.
\<close>

subsection \<open>Collections of facts\<close>

named_theorems res_simps \<open>equations of the fault monad\<close>
named_theorems ring_simps \<open>unfoldings of the ring buffer's accessors\<close>
named_theorems inv_intros \<open>preservation lemmas of the components' invariants\<close>

subsection \<open>Machine integers\<close>

type_synonym u8 = "8 word"
type_synonym u16 = "16 word"
type_synonym u32 = "32 word"
type_synonym u64 = "64 word"

subsection \<open>Faults and results\<close>

text \<open>
  An exception carries the format string and the rendered arguments of the throwing call: the
  formatting itself is the fmt library's. \<open>Aborted\<close> is a call of \<open>abort\<close> or \<open>std::terminate\<close>,
  \<open>Undefined\<close> marks an operation the C++ standard gives no meaning (reading a dead object, an
  index out of range, calling an empty callback), and \<open>Diverged\<close> a call that never returns.
\<close>

datatype exn =
    Runtime_error string "string list"
  | System_error int string "string list"
  | Dpdk_error int string "string list"
  | Std_exception string

datatype fault = Thrown exn | Aborted | Undefined | Diverged

type_synonym 'a res = "fault + 'a"

fun bind_res :: "'a res \<Rightarrow> ('a \<Rightarrow> 'b res) \<Rightarrow> 'b res" where
  "bind_res (Inl e) f = Inl e"
| "bind_res (Inr x) f = f x"

lemma bind_res_Inr_iff [res_simps]:
  "bind_res m f = Inr y \<longleftrightarrow> (\<exists>x. m = Inr x \<and> f x = Inr y)"
  by (cases m) auto

lemma bind_res_Inl_iff [res_simps]:
  "bind_res m f = Inl e \<longleftrightarrow> m = Inl e \<or> (\<exists>x. m = Inr x \<and> f x = Inl e)"
  by (cases m) auto

lemma bind_res_cong [fundef_cong]:
  "m = m' \<Longrightarrow> (\<And>x. m' = Inr x \<Longrightarrow> f x = g x) \<Longrightarrow> bind_res m f = bind_res m' g"
  by (cases m') auto

lemma bind_res_assoc: "bind_res (bind_res m f) g = bind_res m (\<lambda>x. bind_res (f x) g)"
  by (cases m) auto

text \<open>
  The throwing helpers of put/throw.h; the error of DPDK is appended to the text as its
  description. The error code of \<open>put::system_error_code\<close> is the number itself.
\<close>

definition throw_runtime_error :: "string \<Rightarrow> string list \<Rightarrow> 'a res" where
  "throw_runtime_error text args = Inl (Thrown (Runtime_error text args))"

definition throw_system_error :: "int \<Rightarrow> string \<Rightarrow> string list \<Rightarrow> 'a res" where
  "throw_system_error err text args = Inl (Thrown (System_error err text args))"

definition throw_dpdk_error :: "int \<Rightarrow> string \<Rightarrow> string list \<Rightarrow> 'a res" where
  "throw_dpdk_error err text args = Inl (Thrown (Dpdk_error err text args))"

definition system_error_code :: "int \<Rightarrow> int" where
  "system_error_code ec = ec"

declare throw_runtime_error_def [res_simps] throw_system_error_def [res_simps]
  throw_dpdk_error_def [res_simps] system_error_code_def [res_simps]

text \<open>A \<open>for\<close> loop over a sequence whose body may fail; it stops at the first fault.\<close>

fun fold_res :: "('x \<Rightarrow> 's \<Rightarrow> 's res) \<Rightarrow> 'x list \<Rightarrow> 's \<Rightarrow> 's res" where
  "fold_res f [] s = Inr s"
| "fold_res f (x # xs) s = bind_res (f x s) (fold_res f xs)"

lemma fold_res_append:
  "fold_res f (xs @ ys) s = bind_res (fold_res f xs s) (fold_res f ys)"
proof (induction xs arbitrary: s)
  case Nil
  then show ?case by simp
next
  case (Cons x xs)
  then show ?case by (cases "f x s") simp_all
qed

lemma fold_res_invariant:
  assumes "fold_res f xs s = Inr s'" and "P s"
    and "\<And>x s s'. x \<in> set xs \<Longrightarrow> P s \<Longrightarrow> f x s = Inr s' \<Longrightarrow> P s'"
  shows "P s'"
  using assms
proof (induction xs arbitrary: s)
  case Nil
  then show ?case by simp
next
  case (Cons x xs)
  from Cons.prems(1) obtain t where t: "f x s = Inr t" "fold_res f xs t = Inr s'"
    by (auto simp: res_simps)
  have "P t" using Cons.prems t(1) by (meson list.set_intros(1))
  with t(2) Cons.prems(3) show ?case
    by (intro Cons.IH [of t]) auto
qed

lemma fold_res_total:
  assumes "P s" and "\<And>x s. x \<in> set xs \<Longrightarrow> P s \<Longrightarrow> \<exists>s'. f x s = Inr s' \<and> P s'"
  shows "\<exists>s'. fold_res f xs s = Inr s' \<and> P s'"
  using assms
proof (induction xs arbitrary: s)
  case Nil
  then show ?case by simp
next
  case (Cons x xs)
  then obtain t where t: "f x s = Inr t" "P t" by (meson list.set_intros(1))
  have "\<exists>s'. fold_res f xs t = Inr s' \<and> P s'"
    by (rule Cons.IH [OF t(2)]) (auto intro: Cons.prems(2))
  with t(1) show ?case by auto
qed

text \<open>An uncaught exception leaving a \<open>noexcept\<close> function calls \<open>std::terminate\<close>.\<close>

fun noexcept :: "'a res \<Rightarrow> 'a res" where
  "noexcept (Inl (Thrown e)) = Inl Aborted"
| "noexcept r = r"

lemma noexcept_Inr [simp]: "noexcept r = Inr x \<longleftrightarrow> r = Inr x"
  by (cases r rule: noexcept.cases) auto

lemma noexcept_not_thrown [simp]: "noexcept r \<noteq> Inl (Thrown e)"
  by (cases r rule: noexcept.cases) auto

subsection \<open>Words as distances and as positions in a power of two\<close>

lemma unat_add_no_wrap:
  fixes x :: "'a::len word"
  assumes "unat x + n < 2 ^ LENGTH('a)"
  shows "unat (x + of_nat n) = unat x + n"
  using assms by (simp add: unat_word_ariths unat_of_nat)

lemma unat_u64_less: "unat (w :: u64) < 18446744073709551616"
proof -
  have "unat w < 2 ^ LENGTH(64)" by (rule unsigned_less)
  then show ?thesis by simp
qed

lemma unat_of_nat_less: "n < 2 ^ LENGTH('a) \<Longrightarrow> unat (of_nat n :: 'a::len word) = n"
  by (simp add: unat_of_nat)

lemma unat_sub_le: "(y :: 'a::len word) \<le> x \<Longrightarrow> unat (x - y) = unat x - unat y"
  by (rule unat_sub)

lemma mod_mod_pow2: "k \<le> m \<Longrightarrow> (x :: nat) mod 2 ^ m mod 2 ^ k = x mod 2 ^ k"
  by (simp add: le_imp_power_dvd mod_mod_cancel)

text \<open>Masking with \<open>2 ^ k - 1\<close> is reduction modulo the ring's size.\<close>

lemma unat_and_pow2_minus_1:
  fixes x :: "'a::len word"
  shows "unat (x AND (2 ^ k - 1)) = unat x mod 2 ^ k"
proof -
  have masked: "x AND (2 ^ k - 1) = take_bit k x"
    by (simp only: take_bit_eq_mask mask_eq_exp_minus_1)
  have "unat (take_bit k x) = unat x mod 2 ^ k"
    by (simp only: unsigned_take_bit_eq flip: take_bit_eq_mod)
  with masked show ?thesis by (simp only:)
qed

lemma add_mod_inj:
  fixes t i j n :: nat
  assumes "i < n" "j < n" "(t + i) mod n = (t + j) mod n"
  shows "i = j"
proof -
  have "i mod n = j mod n"
    using assms(3) by (simp add: nat_mod_eq_iff)
  then show ?thesis using assms(1,2) by simp
qed

subsection \<open>Progress under fairness\<close>

text \<open>
  The rule for something that comes about eventually: while it has not, every step keeps \<open>P\<close> and
  does not raise the measure, and the step of the thread that is scheduled again and again lowers it.
\<close>

lemma fair_progress:
  fixes meas :: "nat \<Rightarrow> nat"
  assumes "P n"
    and keep: "\<And>m. n \<le> m \<Longrightarrow> P m \<Longrightarrow> Q (Suc m) \<or> (P (Suc m) \<and> meas (Suc m) \<le> meas m)"
    and lower: "\<And>m. n \<le> m \<Longrightarrow> P m \<Longrightarrow> moves m \<Longrightarrow> Q (Suc m) \<or> (P (Suc m) \<and> meas (Suc m) < meas m)"
    and fair: "\<And>m. \<exists>k\<ge>m. moves k"
  shows "\<exists>m>n. Q m"
proof -
  have "\<exists>m>k. Q m" if "n \<le> k" "P k" "meas k = d" for k d
    using that
  proof (induction d arbitrary: k rule: less_induct)
    case (less d)
    obtain l where l: "k \<le> l" "moves l" using fair by blast
    have "(\<exists>m>k. Q m) \<or> (P j \<and> meas j \<le> meas k)" if "k \<le> j" for j
      using that
    proof (induction j rule: dec_induct)
      case base
      then show ?case using less.prems by simp
    next
      case (step j)
      then show ?case using keep [of j] less.prems(1) by (meson le_trans less_Suc_eq_le)
    qed
    then consider "\<exists>m>k. Q m" | "P l" "meas l \<le> meas k" using l(1) by blast
    then show ?case
    proof cases
      case 2
      then consider "Q (Suc l)" | "P (Suc l)" "meas (Suc l) < d"
        using lower [of l] l less.prems by fastforce
      then show ?thesis
      proof cases
        case 1
        then show ?thesis using l(1) by (intro exI [of _ "Suc l"]) simp
      next
        case 2
        then have "\<exists>m>Suc l. Q m" using less.IH [of "meas (Suc l)" "Suc l"] less.prems(1) l(1) by simp
        then show ?thesis using l(1) by (meson Suc_lessD le_less_trans)
      qed
    qed
  qed
  then show ?thesis using assms(1) by blast
qed

end
