(* ===== verification/Fifo_Spec.thy ===== *)
theory Fifo_Spec
  imports TG_Prelude
begin

section \<open>The contract of a bounded queue\<close>

text \<open>
  What the message queues rely on: a queue with an abstract list of elements, a push that appends
  exactly when there is room and reports whether it did, and a bulk pop that takes a non-empty
  prefix whenever there is something to take and room to put it. The ring of put/spsc_ring.h
  provides it (theory \<open>Spsc_Ring\<close>), the message queues of mgmt/messages.h use it.
\<close>

datatype 'a fifo_op = Push 'a | Pop u64

text \<open>
  A sequence of calls; the result holds the values whose push succeeded and the values the pops
  delivered, each in order.
\<close>

fun fifo_run ::
  "('a \<Rightarrow> 'q \<Rightarrow> bool \<times> 'q) \<Rightarrow> (u64 \<Rightarrow> 'q \<Rightarrow> (u64 \<times> 'a list \<times> 'q) res) \<Rightarrow>
   'a fifo_op list \<Rightarrow> 'q \<Rightarrow> ('a list \<times> 'a list \<times> 'q) res" where
  "fifo_run push pop [] q = Inr ([], [], q)"
| "fifo_run push pop (Push v # ops) q =
     (case push v q of (ok, q1) \<Rightarrow>
        bind_res (fifo_run push pop ops q1) (\<lambda>(acc, del, q2).
          Inr ((if ok then v # acc else acc), del, q2)))"
| "fifo_run push pop (Pop sz # ops) q =
     bind_res (pop sz q) (\<lambda>(n, out, q1).
       bind_res (fifo_run push pop ops q1) (\<lambda>(acc, del, q2). Inr (acc, out @ del, q2)))"

text \<open>
  The abstract queue of a capacity: a list. A push is accepted exactly when there is room, and
  then appends; a pop delivers a prefix, of at most the length asked for, and never nothing when
  it was asked for something and the queue is not empty. How long a prefix is left open.
\<close>

inductive fifo_trace :: "nat \<Rightarrow> 'a list \<Rightarrow> 'a fifo_op list \<Rightarrow> 'a list \<Rightarrow> 'a list \<Rightarrow> 'a list \<Rightarrow> bool"
  for cap where
  no_call: "fifo_trace cap q [] [] [] q"
| accepted: "length q < cap \<Longrightarrow> fifo_trace cap (q @ [v]) ops acc del q' \<Longrightarrow>
    fifo_trace cap q (Push v # ops) (v # acc) del q'"
| refused: "cap \<le> length q \<Longrightarrow> fifo_trace cap q ops acc del q' \<Longrightarrow>
    fifo_trace cap q (Push v # ops) acc del q'"
| delivered: "length out \<le> unat sz \<Longrightarrow> (sz \<noteq> 0 \<and> out @ q \<noteq> [] \<longrightarrow> out \<noteq> []) \<Longrightarrow>
    fifo_trace cap q ops acc del q' \<Longrightarrow> fifo_trace cap (out @ q) (Pop sz # ops) acc (out @ del) q'"

inductive_cases fifo_trace_PushE: "fifo_trace cap q (Push v # ops) acc del q'"
inductive_cases fifo_trace_PopE: "fifo_trace cap q (Pop sz # ops) acc del q'"

lemma fifo_trace_order: "fifo_trace cap q ops acc del q' \<Longrightarrow> q @ acc = del @ q'"
  by (induction rule: fifo_trace.induct) auto

lemma fifo_trace_bound: "fifo_trace cap q ops acc del q' \<Longrightarrow> length q \<le> cap \<Longrightarrow> length q' \<le> cap"
  by (induction rule: fifo_trace.induct) auto

text \<open>
  The same queue shared by two threads: one appends a batch that fits, the other takes the oldest
  element, and steps of either thread that do neither are silent.
\<close>

datatype 'a queue_event = Append "'a list" | Take 'a | Silent

fun ev_appended :: "'a queue_event \<Rightarrow> 'a list" where
  "ev_appended (Append vs) = vs"
| "ev_appended _ = []"

fun ev_taken :: "'a queue_event \<Rightarrow> 'a list" where
  "ev_taken (Take v) = [v]"
| "ev_taken _ = []"

fun queue_step :: "nat \<Rightarrow> 'a queue_event \<Rightarrow> 'a list \<Rightarrow> 'a list \<Rightarrow> bool" where
  "queue_step cap (Append vs) q q' = (length q + length vs \<le> cap \<and> q' = q @ vs)"
| "queue_step cap (Take v) q q' = (q = v # q')"
| "queue_step cap Silent q q' = (q' = q)"

lemma queue_step_bound: "queue_step cap ev q q' \<Longrightarrow> length q \<le> cap \<Longrightarrow> length q' \<le> cap"
  by (cases ev) auto

locale bounded_fifo =
  fixes push :: "'a \<Rightarrow> 'q \<Rightarrow> bool \<times> 'q"
    and pop :: "u64 \<Rightarrow> 'q \<Rightarrow> (u64 \<times> 'a list \<times> 'q) res"
    and elems :: "'q \<Rightarrow> 'a list"
    and inv :: "'q \<Rightarrow> bool"
    and capacity :: "'q \<Rightarrow> nat"
  assumes push_law: "inv q \<Longrightarrow> \<exists>q'. push v q = (length (elems q) < capacity q, q') \<and> inv q' \<and>
      capacity q' = capacity q \<and>
      elems q' = (if length (elems q) < capacity q then elems q @ [v] else elems q)"
    and pop_law: "inv q \<Longrightarrow> \<exists>n out q'. pop sz q = Inr (n, out, q') \<and> inv q' \<and>
      capacity q' = capacity q \<and> elems q = out @ elems q' \<and> unat n = length out \<and>
      length out \<le> unat sz \<and> (sz \<noteq> 0 \<and> elems q \<noteq> [] \<longrightarrow> out \<noteq> [])"
    and bound_law: "inv q \<Longrightarrow> length (elems q) \<le> capacity q"
begin

lemma push_room:
  assumes "inv q" "length (elems q) < capacity q"
  obtains q' where "push v q = (True, q')" "inv q'" "capacity q' = capacity q"
    "elems q' = elems q @ [v]"
  using push_law [OF assms(1), of v] assms(2) by auto

lemma push_full:
  assumes "inv q" "\<not> length (elems q) < capacity q"
  obtains q' where "push v q = (False, q')" "inv q'" "capacity q' = capacity q" "elems q' = elems q"
  using push_law [OF assms(1), of v] assms(2) by auto

lemma push_elems_mono: "inv q \<Longrightarrow> push v q = (ok, q') \<Longrightarrow> elems q' = (if ok then elems q @ [v] else elems q)"
  using push_law [of q v] by (auto split: if_splits)

text \<open>Every sequence of calls is a run of the abstract queue, with the same results.\<close>

lemma fifo_refines:
  "inv q \<Longrightarrow> \<exists>acc del q'. fifo_run push pop ops q = Inr (acc, del, q') \<and> inv q' \<and>
     capacity q' = capacity q \<and> fifo_trace (capacity q) (elems q) ops acc del (elems q')"
proof (induction ops arbitrary: q)
  case Nil
  then show ?case by (simp add: fifo_trace.no_call)
next
  case (Cons op ops)
  show ?case
  proof (cases op)
    case (Push v)
    obtain ok q1 where q1: "push v q = (ok, q1)" "inv q1" "capacity q1 = capacity q"
      "ok = (length (elems q) < capacity q)" "elems q1 = (if ok then elems q @ [v] else elems q)"
      using push_law [OF Cons.prems, of v] by auto
    from Cons.IH [OF q1(2)] obtain acc del q2 where
      "fifo_run push pop ops q1 = Inr (acc, del, q2)" "inv q2" "capacity q2 = capacity q1"
      "fifo_trace (capacity q1) (elems q1) ops acc del (elems q2)" by blast
    then show ?thesis using Push q1 by (auto intro: fifo_trace.accepted fifo_trace.refused)
  next
    case (Pop sz)
    obtain n out q1 where q1: "pop sz q = Inr (n, out, q1)" "inv q1" "capacity q1 = capacity q"
      "elems q = out @ elems q1" "length out \<le> unat sz" "sz \<noteq> 0 \<and> elems q \<noteq> [] \<longrightarrow> out \<noteq> []"
      using pop_law [OF Cons.prems, of sz] by blast
    from Cons.IH [OF q1(2)] obtain acc del q2 where
      "fifo_run push pop ops q1 = Inr (acc, del, q2)" "inv q2" "capacity q2 = capacity q1"
      "fifo_trace (capacity q1) (elems q1) ops acc del (elems q2)" by blast
    then show ?thesis using Pop q1 by (auto intro!: fifo_trace.delivered)
  qed
qed

text \<open>Elements come out in the order they went in; none is lost, duplicated or invented.\<close>

lemma fifo_order:
  assumes "inv q"
  shows "\<exists>acc del q'. fifo_run push pop ops q = Inr (acc, del, q') \<and> inv q' \<and>
     capacity q' = capacity q \<and> elems q @ acc = del @ elems q'"
  using fifo_refines [OF assms] fifo_trace_order by metis

end

end
