(* ===== verification/Put_Num.thy ===== *)
theory Put_Num
  imports TG_Prelude
begin

section \<open>Number utilities (put/num_utils.h)\<close>

text \<open>
  The range tests and the power-of-two test, on 64 bit unsigned arguments, which is what the
  program instantiates the templates with.
\<close>

unbundle bit_operations_syntax

definition in_range :: "u64 \<Rightarrow> u64 \<Rightarrow> u64 \<Rightarrow> bool" where
  "in_range x x1 x2 \<longleftrightarrow> x1 \<le> x \<and> x < x2"

definition in_range_inclusive :: "u64 \<Rightarrow> u64 \<Rightarrow> u64 \<Rightarrow> bool" where
  "in_range_inclusive x x1 x2 \<longleftrightarrow> x1 \<le> x \<and> x \<le> x2"

definition is_pow2 :: "u64 \<Rightarrow> bool" where
  "is_pow2 n \<longleftrightarrow> n AND (n - 1) = 0"

lemma in_range_inclusive_unat:
  "in_range_inclusive x x1 x2 \<longleftrightarrow> unat x1 \<le> unat x \<and> unat x \<le> unat x2"
  by (simp add: in_range_inclusive_def word_le_nat_alt)

lemma bit_top:
  fixes x :: u64
  assumes "2 ^ k \<le> unat x" "unat x < 2 ^ Suc k" "k < 64"
  shows "bit x k"
proof -
  have "unat x div 2 ^ k = 1"
    using assms(1,2) by (intro div_nat_eqI) (auto simp: mult.commute)
  then have "bit (unat x) k" by (simp add: bit_iff_odd)
  then show ?thesis by (simp add: bit_unsigned_iff)
qed

lemma unat_pow2_u64:
  assumes "k < 64"
  shows "unat (2 ^ k :: u64) = 2 ^ k"
proof -
  have "(2 :: nat) ^ k < 2 ^ LENGTH(64)"
    using power_strict_increasing [of k 64 "2 :: nat"] assms by simp
  then have "unat (of_nat (2 ^ k) :: u64) = 2 ^ k" by (rule unat_of_nat_less)
  then show ?thesis by simp
qed

text \<open>A word whose top set bit is \<open>k\<close> shares it with its predecessor, unless it is \<open>2 ^ k\<close>.\<close>

lemma is_pow2_iff: "is_pow2 n \<longleftrightarrow> n = 0 \<or> (\<exists>k<64. unat n = 2 ^ k)"
proof
  assume "is_pow2 n"
  then have z: "n AND (n - 1) = 0" by (simp add: is_pow2_def)
  show "n = 0 \<or> (\<exists>k<64. unat n = 2 ^ k)"
  proof (cases "n = 0")
    case False
    then have pos: "1 \<le> unat n" by (simp add: Suc_le_eq unat_gt_0)
    obtain k where k: "2 ^ k \<le> unat n" "unat n < 2 ^ (k + 1)"
      using ex_power_ivl1 [of 2 "unat n"] pos by auto
    have "(2 :: nat) ^ k < 2 ^ 64" using k(1) unat_u64_less [of n] by simp
    then have k64: "k < 64" by (rule power_less_imp_less_exp [rotated]) simp
    have pred: "unat (n - 1) = unat n - 1"
      using unat_sub_le [of 1 n] pos by (simp add: word_le_nat_alt)
    have "unat n = 2 ^ k"
    proof (rule ccontr)
      assume "unat n \<noteq> 2 ^ k"
      then have "2 ^ k \<le> unat (n - 1)" "unat (n - 1) < 2 ^ Suc k" using k pred by auto
      then have "bit (n - 1) k" using bit_top k64 by blast
      moreover have "bit n k" using bit_top [of k n] k k64 by simp
      ultimately have "bit (n AND (n - 1)) k" by (simp add: bit_and_iff)
      then show False using z by simp
    qed
    with k64 show ?thesis by blast
  qed simp
next
  assume "n = 0 \<or> (\<exists>k<64. unat n = 2 ^ k)"
  then show "is_pow2 n"
  proof
    assume "\<exists>k<64. unat n = 2 ^ k"
    then obtain k where k: "k < 64" "unat n = 2 ^ k" by blast
    then have "unat n = unat (2 ^ k :: u64)" by (simp only: unat_pow2_u64)
    then have n: "n = 2 ^ k" by (rule unsigned_word_eqI)
    have "unat (n AND (n - 1)) = 2 ^ k mod 2 ^ k"
      unfolding n by (simp only: unat_and_pow2_minus_1 unat_pow2_u64 [OF k(1)])
    then show ?thesis by (simp add: is_pow2_def unat_eq_0)
  qed (simp add: is_pow2_def)
qed

end
