(* ===== verification/Spsc_Ring.thy ===== *)
theory Spsc_Ring
  imports Fifo_Spec Put_Num
begin

section \<open>The single producer, single consumer ring (put/spsc_ring.h)\<close>

text \<open>
  The ring keeps two free running 64 bit counters, the published head and tail, and one cached
  copy of each: the producer caches the tail, the consumer caches the head. A slot of the byte
  buffer is \<open>None\<close> when no object lives in it, so that constructing, moving out and destroying
  elements is visible in the model: using a dead slot is \<open>Undefined\<close>. The functions here are the
  class's member functions run one after the other; their interleavings are in the theory
  \<open>Spsc_Concurrent\<close>.
\<close>

unbundle bit_operations_syntax

subsection \<open>State and operations\<close>

record 'a ring =
  atomic_head :: u64
  prod_tail :: u64
  atomic_tail :: u64
  cons_head :: u64
  buff :: "'a option list"

text \<open>The \<open>static_assert\<close> on the template argument \<open>Size\<close>.\<close>

definition valid_size :: "u64 \<Rightarrow> bool" where
  "valid_size sz \<longleftrightarrow> 0 < sz \<and> sz AND (sz - 1) = 0"

definition ring_new :: "u64 \<Rightarrow> 'a ring" where
  "ring_new sz =
     \<lparr>atomic_head = 0, prod_tail = 0, atomic_tail = 0, cons_head = 0,
      buff = replicate (unat sz) None\<rparr>"

definition ring_size :: "'a ring \<Rightarrow> u64" where
  "ring_size r = of_nat (length (buff r))"

definition size_mask :: "'a ring \<Rightarrow> u64" where
  "size_mask r = ring_size r - 1"

definition slot :: "'a ring \<Rightarrow> u64 \<Rightarrow> nat" where
  "slot r p = unat (p AND size_mask r)"

definition try_push :: "'a \<Rightarrow> 'a ring \<Rightarrow> bool \<times> 'a ring" where
  "try_push v r =
     (let prod_head = atomic_head r;
          full = (prod_head - prod_tail r = ring_size r);
          r1 = (if full then r\<lparr>prod_tail := atomic_tail r\<rparr> else r)
      in if full \<and> prod_head - prod_tail r1 = ring_size r then (False, r1)
         else (True, r1\<lparr>buff := (buff r1)[slot r1 prod_head := Some v],
                        atomic_head := prod_head + 1\<rparr>))"

text \<open>
  The bulk push. Copying and moving the elements build the same objects in the slots, so one
  definition serves both tags. \<open>from\<close> holds the \<open>sz\<close> elements the caller passes.
\<close>

fun push_loop :: "'a list \<Rightarrow> u64 \<Rightarrow> 'a ring \<Rightarrow> u64 \<times> 'a ring" where
  "push_loop [] prod_head r = (prod_head, r)"
| "push_loop (v # vs) prod_head r =
     push_loop vs (prod_head + 1) (r\<lparr>buff := (buff r)[slot r prod_head := Some v]\<rparr>)"

definition try_push_n :: "'a list \<Rightarrow> 'a ring \<Rightarrow> u64 \<times> 'a ring" where
  "try_push_n from r =
     (let prod_head = atomic_head r;
          sz = of_nat (length from);
          reload = (ring_size r - (prod_head - prod_tail r) < sz);
          r1 = (if reload then r\<lparr>prod_tail := atomic_tail r\<rparr> else r);
          cnt_avail = ring_size r - (prod_head - prod_tail r1)
      in if reload \<and> cnt_avail = 0 then (0, r1)
         else
           let sz' = min sz cnt_avail;
               (prod_head', r2) = push_loop (take (unat sz') from) prod_head r1
           in (sz', r2\<lparr>atomic_head := prod_head'\<rparr>))"

text \<open>
  \<open>try_consume\<close> with a callback on one element. The callback gets the element as an rvalue and
  says whether it took it; it also leaves behind some object, which stays in the slot when the
  callback refuses.
\<close>

definition try_consume ::
  "('a \<Rightarrow> 's \<Rightarrow> bool \<times> 'a \<times> 's) \<Rightarrow> 's \<Rightarrow> 'a ring \<Rightarrow> (bool \<times> 's \<times> 'a ring) res" where
  "try_consume fn s r =
     (let cons_tail = atomic_tail r;
          r1 = (if cons_head r - cons_tail = 0 then r\<lparr>cons_head := atomic_head r\<rparr> else r)
      in if cons_head r1 - cons_tail = 0 then Inr (False, s, r1)
         else case buff r1 ! slot r1 cons_tail of
           None \<Rightarrow> Inl Undefined
         | Some val \<Rightarrow>
             (case fn val s of
               (False, val', s') \<Rightarrow>
                 Inr (False, s', r1\<lparr>buff := (buff r1)[slot r1 cons_tail := Some val']\<rparr>)
             | (True, val', s') \<Rightarrow>
                 Inr (True, s', r1\<lparr>buff := (buff r1)[slot r1 cons_tail := None],
                                   atomic_tail := cons_tail + 1\<rparr>)))"

text \<open>The objects of a range of slots: all of them must be alive.\<close>

fun objects :: "'a option list \<Rightarrow> 'a list res" where
  "objects [] = Inr []"
| "objects (None # os) = Inl Undefined"
| "objects (Some x # os) = bind_res (objects os) (\<lambda>xs. Inr (x # xs))"

fun destroy_consumed :: "nat \<Rightarrow> nat \<Rightarrow> 'a option list \<Rightarrow> 'a option list res" where
  "destroy_consumed p 0 b = Inr b"
| "destroy_consumed p (Suc n) b =
     (if p < length b \<and> b ! p \<noteq> None then destroy_consumed (Suc p) n (b[p := None])
      else Inl Undefined)"

text \<open>One call of the bulk callback on the \<open>n\<close> elements that start at slot \<open>p\<close>.\<close>

definition consume_range ::
  "('a list \<Rightarrow> 's \<Rightarrow> u64 \<times> 's) \<Rightarrow> nat \<Rightarrow> nat \<Rightarrow> 's \<Rightarrow> 'a option list
    \<Rightarrow> (u64 \<times> 's \<times> 'a option list) res" where
  "consume_range fn p n s b =
     bind_res (objects (take n (drop p b))) (\<lambda>vs.
       let (c, s') = fn vs s
       in bind_res (destroy_consumed p (unat c) b) (\<lambda>b'. Inr (c, s', b')))"

definition try_consume_n ::
  "('a list \<Rightarrow> 's \<Rightarrow> u64 \<times> 's) \<Rightarrow> 's \<Rightarrow> 'a ring \<Rightarrow> (u64 \<times> 's \<times> 'a ring) res" where
  "try_consume_n fn s r =
     (let cons_tail = atomic_tail r;
          r1 = (if cons_head r - cons_tail = 0 then r\<lparr>cons_head := atomic_head r\<rparr> else r);
          cnt_avail = cons_head r1 - cons_tail
      in if cnt_avail = 0 then Inr (0, s, r1)
         else
           let beg = cons_tail AND size_mask r1;
               end' = (cons_tail + cnt_avail) AND size_mask r1
           in if beg < end' then
                bind_res (consume_range fn (unat beg) (unat cnt_avail) s (buff r1))
                  (\<lambda>(consumed, s1, b1).
                    Inr (consumed, s1, r1\<lparr>buff := b1, atomic_tail := cons_tail + consumed\<rparr>))
              else
                let cnt = ring_size r1 - beg
                in bind_res (consume_range fn (unat beg) (unat cnt) s (buff r1))
                     (\<lambda>(consumed, s1, b1).
                       if cnt = consumed then
                         bind_res (consume_range fn 0 (unat end') s1 b1)
                           (\<lambda>(cnt', s2, b2).
                             Inr (consumed + cnt', s2,
                               r1\<lparr>buff := b2, atomic_tail := cons_tail + (consumed + cnt')\<rparr>))
                       else
                         Inr (consumed, s1,
                           r1\<lparr>buff := b1, atomic_tail := cons_tail + consumed\<rparr>)))"

definition try_pop :: "'a ring \<Rightarrow> ('a option \<times> 'a ring) res" where
  "try_pop r =
     bind_res (try_consume (\<lambda>v _. (True, v, Some v)) None r) (\<lambda>(_, to, r'). Inr (to, r'))"

text \<open>The callback of the bulk pop: its state is the room left and the elements moved out.\<close>

definition pop_callback :: "'a list \<Rightarrow> u64 \<times> 'a list \<Rightarrow> u64 \<times> u64 \<times> 'a list" where
  "pop_callback vs st =
     (let (sz, to) = st; cnt = min sz (of_nat (length vs))
      in (cnt, sz - cnt, to @ take (unat cnt) vs))"

definition try_pop_n :: "u64 \<Rightarrow> 'a ring \<Rightarrow> (u64 \<times> 'a list \<times> 'a ring) res" where
  "try_pop_n sz r =
     bind_res (try_consume_n pop_callback (sz, []) r)
       (\<lambda>(consumed, st, r'). Inr (consumed, snd st, r'))"

definition count_pop_slots :: "'a ring \<Rightarrow> u64" where
  "count_pop_slots r = atomic_head r - atomic_tail r"

definition count_push_slots :: "'a ring \<Rightarrow> u64" where
  "count_push_slots r = ring_size r - count_pop_slots r"

definition ring_capacity :: "'a ring \<Rightarrow> u64" where
  "ring_capacity r = ring_size r"

text \<open>The destructor pops and drops batches of at most 16 until a batch is empty.\<close>

partial_function (option) ring_destroy :: "'a ring \<Rightarrow> 'a ring res option" where
  "ring_destroy r =
     (case try_pop_n (min 16 (ring_size r)) r of
       Inl e \<Rightarrow> Some (Inl e)
     | Inr (cnt, xs, r') \<Rightarrow> if 0 < cnt then ring_destroy r' else Some (Inr r'))"

subsection \<open>What a buffer holds\<close>

text \<open>
  \<open>holds b t xs\<close>: reading the slots in ring order from position \<open>t\<close> gives the live elements
  \<open>xs\<close> and then dead slots only. Everything the operations do to the buffer is stated with it.
\<close>

definition holds :: "'a option list \<Rightarrow> u64 \<Rightarrow> 'a list \<Rightarrow> bool" where
  "holds b t xs \<longleftrightarrow>
     (\<exists>k<64. length b = 2 ^ k) \<and> length xs \<le> length b \<and>
     (\<forall>j<length b. b ! ((unat t + j) mod length b) =
        (if j < length xs then Some (xs ! j) else None))"

lemma pow2_length_facts:
  assumes "\<exists>k<64. length b = 2 ^ k"
  shows "0 < length b" and "length b < 2 ^ 64" and "length b dvd 2 ^ 64"
proof -
  obtain k where k: "k < 64" "length b = 2 ^ k" using assms by blast
  show "0 < length b" using k by simp
  show "length b < 2 ^ 64" unfolding k(2) by (rule power_strict_increasing [OF k(1)]) simp
  show "length b dvd 2 ^ 64" unfolding k(2) by (rule le_imp_power_dvd) (use k(1) in simp)
qed

lemma unat_add_mod_pow2:
  assumes "\<exists>k<64. N = (2::nat) ^ k"
  shows "unat (t + of_nat j :: u64) mod N = (unat t + j) mod N"
proof -
  obtain k where k: "k < 64" "N = 2 ^ k" using assms by blast
  have dvd: "N dvd 2 ^ 64" unfolding k(2) by (rule le_imp_power_dvd) (use k(1) in simp)
  have "unat (t + of_nat j :: u64) = (unat t + j mod 2 ^ 64) mod 2 ^ 64"
    by (simp add: unat_word_ariths unat_of_nat)
  also have "\<dots> mod N = (unat t + j) mod N"
    by (metis dvd mod_add_right_eq mod_mod_cancel)
  finally show ?thesis .
qed

lemma holds_pow2: "holds b t xs \<Longrightarrow> \<exists>k<64. length b = 2 ^ k"
  by (simp add: holds_def)

lemma holds_length: "holds b t xs \<Longrightarrow> length xs \<le> length b"
  by (simp add: holds_def)

lemma holds_nth:
  "holds b t xs \<Longrightarrow> j < length b \<Longrightarrow>
     b ! ((unat t + j) mod length b) = (if j < length xs then Some (xs ! j) else None)"
  by (simp add: holds_def)

text \<open>The slot that a position of a power-of-two ring names.\<close>

lemma slot_eq:
  assumes "\<exists>k<64. length (buff r) = 2 ^ k"
  shows "slot r p = unat p mod length (buff r)"
proof -
  obtain k where "length (buff r) = 2 ^ k" using assms by blast
  then show ?thesis
    by (simp add: slot_def size_mask_def ring_size_def unat_and_pow2_minus_1)
qed

lemma unat_ring_size:
  assumes "\<exists>k<64. length (buff r) = 2 ^ k"
  shows "unat (ring_size r) = length (buff r)"
  using pow2_length_facts(2) [OF assms] by (simp add: ring_size_def unat_of_nat)

text \<open>The ring slot positions of distinct offsets differ.\<close>

lemma holds_other_slot:
  assumes "i < length b" "j < length b" "i \<noteq> j"
  shows "(t + i) mod length b \<noteq> (t + j) mod length b"
  using assms add_mod_inj by blast

lemma holds_push:
  assumes h: "holds b t xs" and room: "length xs < length b"
  shows "holds (b[(unat t + length xs) mod length b := Some v]) t (xs @ [v])"
  unfolding holds_def
proof (intro conjI allI impI)
  let ?b = "b[(unat t + length xs) mod length b := Some v]"
  show "\<exists>k<64. length ?b = 2 ^ k" using holds_pow2 [OF h] by simp
  show "length (xs @ [v]) \<le> length ?b" using room by simp
  fix j assume "j < length ?b"
  then have j: "j < length b" by simp
  show "?b ! ((unat t + j) mod length ?b) =
          (if j < length (xs @ [v]) then Some ((xs @ [v]) ! j) else None)"
  proof (cases "j = length xs")
    case True
    moreover have "(unat t + length xs) mod length b < length b"
      using room by (intro mod_less_divisor) linarith
    ultimately show ?thesis by simp
  next
    case False
    then have "(unat t + length xs) mod length b \<noteq> (unat t + j) mod length b"
      using holds_other_slot [OF room j] by blast
    then have "?b ! ((unat t + j) mod length ?b) = b ! ((unat t + j) mod length b)"
      by simp
    also have "\<dots> = (if j < length xs then Some (xs ! j) else None)"
      by (rule holds_nth [OF h j])
    finally show ?thesis using False by (auto simp: nth_append)
  qed
qed

lemma holds_pop:
  assumes h: "holds b t (x # xs)"
  shows "b ! (unat t mod length b) = Some x"
    and "holds (b[unat t mod length b := None]) (t + 1) xs"
proof -
  have len: "Suc (length xs) \<le> length b" using holds_length [OF h] by simp
  show first: "b ! (unat t mod length b) = Some x"
    using holds_nth [OF h, of 0] len by (cases "b = []") simp_all
  let ?b = "b[unat t mod length b := None]"
  show "holds ?b (t + 1) xs"
    unfolding holds_def
  proof (intro conjI allI impI)
    show "\<exists>k<64. length ?b = 2 ^ k" using holds_pow2 [OF h] by simp
    show "length xs \<le> length ?b" using len by simp
    fix j assume "j < length ?b"
    then have j: "j < length b" by simp
    have next_pos: "(unat (t + 1) + j) mod length b = (unat t + Suc j) mod length b"
    proof -
      have "(unat (t + 1) + j) mod length b = (unat (t + of_nat 1) mod length b + j) mod length b"
        by (simp add: mod_add_left_eq)
      also have "\<dots> = (unat t + Suc j) mod length b"
        by (simp only: unat_add_mod_pow2 [OF holds_pow2 [OF h]] mod_add_left_eq) simp
      finally show ?thesis .
    qed
    show "?b ! ((unat (t + 1) + j) mod length ?b) = (if j < length xs then Some (xs ! j) else None)"
    proof (cases "Suc j < length b")
      case True
      have "(unat t + 0) mod length b \<noteq> (unat t + Suc j) mod length b"
        by (rule holds_other_slot) (use True in auto)
      then have "?b ! ((unat (t + 1) + j) mod length ?b) = b ! ((unat t + Suc j) mod length b)"
        using next_pos by simp
      also have "\<dots> = (if Suc j < length (x # xs) then Some ((x # xs) ! Suc j) else None)"
        by (rule holds_nth [OF h True])
      finally show ?thesis by simp
    next
      case False
      then have "Suc j = length b" using j by simp
      then have "(unat (t + 1) + j) mod length b = unat t mod length b"
        using next_pos by simp
      moreover have "unat t mod length b < length b" by (rule mod_less_divisor) (use j in linarith)
      moreover have "\<not> j < length xs" using len \<open>Suc j = length b\<close> by simp
      ultimately show ?thesis by simp
    qed
  qed
qed

subsection \<open>The ring's invariant\<close>

text \<open>
  Between the published tail and the published head the slots are alive and hold the queue's
  contents; the cached tail of the producer lags behind the tail, the cached head of the
  consumer behind the head.
\<close>

definition ring_holds :: "'a ring \<Rightarrow> 'a list \<Rightarrow> bool" where
  "ring_holds r xs \<longleftrightarrow>
     holds (buff r) (atomic_tail r) xs \<and>
     unat (atomic_head r - atomic_tail r) = length xs \<and>
     length xs \<le> unat (atomic_head r - prod_tail r) \<and>
     unat (atomic_head r - prod_tail r) \<le> length (buff r) \<and>
     unat (cons_head r - atomic_tail r) \<le> length xs"

definition contents :: "'a ring \<Rightarrow> 'a list" where
  "contents r =
     map (\<lambda>j. the (buff r ! slot r (atomic_tail r + of_nat j)))
       [0..<unat (atomic_head r - atomic_tail r)]"

definition ring_inv :: "'a ring \<Rightarrow> bool" where
  "ring_inv r \<longleftrightarrow> ring_holds r (contents r)"

lemma diff_eq_add:
  fixes h t :: "'a::len word"
  assumes "unat (h - t) = n"
  shows "h = t + of_nat n"
proof -
  have "of_nat n = h - t" unfolding assms [symmetric] by simp
  then show ?thesis by simp
qed

lemma unat_diff_succ:
  fixes h t :: u64
  assumes "unat (h - t) < n" "n < 2 ^ 64"
  shows "unat (h + 1 - t) = Suc (unat (h - t))"
proof -
  have "h + 1 - t = (h - t) + of_nat 1" by simp
  then have "unat (h + 1 - t) = unat ((h - t) + of_nat 1)" by (simp only:)
  moreover have "unat ((h - t) + of_nat 1 :: u64) = unat (h - t) + 1"
    by (rule unat_add_no_wrap) (use assms in simp)
  ultimately show ?thesis by (simp only:)
qed

lemma ring_holds_pow2: "ring_holds r xs \<Longrightarrow> \<exists>k<64. length (buff r) = 2 ^ k"
  unfolding ring_holds_def using holds_pow2 by blast

lemma ring_holds_head_slot:
  assumes "ring_holds r xs"
  shows "slot r (atomic_head r) = (unat (atomic_tail r) + length xs) mod length (buff r)"
proof -
  note p2 = ring_holds_pow2 [OF assms]
  have "atomic_head r = atomic_tail r + of_nat (length xs)"
    using assms diff_eq_add unfolding ring_holds_def by blast
  then show ?thesis using slot_eq [OF p2] unat_add_mod_pow2 [OF p2] by simp
qed

lemma ring_holds_contents:
  assumes h: "ring_holds r xs"
  shows "contents r = xs"
proof (rule nth_equalityI)
  note p2 = ring_holds_pow2 [OF h]
  show len: "length (contents r) = length xs"
    using h by (simp add: contents_def ring_holds_def)
  fix j assume "j < length (contents r)"
  then have j: "j < length xs" using len by simp
  have hb: "holds (buff r) (atomic_tail r) xs" using h by (simp add: ring_holds_def)
  have "slot r (atomic_tail r + of_nat j) = (unat (atomic_tail r) + j) mod length (buff r)"
    using slot_eq [OF p2] unat_add_mod_pow2 [OF p2] by simp
  moreover have "j < length (buff r)" using j holds_length [OF hb] by linarith
  ultimately have "buff r ! slot r (atomic_tail r + of_nat j) = Some (xs ! j)"
    using holds_nth [OF hb] j by simp
  then show "contents r ! j = xs ! j"
    using j len by (simp add: contents_def)
qed

lemma ring_holds_inv: "ring_holds r xs \<Longrightarrow> ring_inv r"
  by (simp add: ring_inv_def ring_holds_contents)

lemma ring_holds_length: "ring_holds r xs \<Longrightarrow> length xs \<le> length (buff r)"
  by (auto simp: ring_holds_def holds_length)

text \<open>Reloading a cached counter keeps the invariant.\<close>

lemma ring_holds_reload_tail:
  "ring_holds r xs \<Longrightarrow> ring_holds (r\<lparr>prod_tail := atomic_tail r\<rparr>) xs"
  by (auto simp: ring_holds_def dest: holds_length)

lemma ring_holds_reload_head:
  "ring_holds r xs \<Longrightarrow> ring_holds (r\<lparr>cons_head := atomic_head r\<rparr>) xs"
  by (auto simp: ring_holds_def)

lemma ring_new_holds:
  assumes "\<exists>k<64. unat sz = 2 ^ k"
  shows "ring_holds (ring_new sz) []"
proof -
  have pos: "0 < unat sz" using assms by auto
  have "holds (replicate (unat sz) None) 0 []"
    unfolding holds_def using assms pos by (auto simp: mod_less_divisor)
  then show ?thesis by (simp add: ring_holds_def ring_new_def)
qed

subsection \<open>Pushing\<close>

lemma ring_holds_store:
  assumes h: "ring_holds r xs" and room: "unat (atomic_head r - prod_tail r) < length (buff r)"
  shows "ring_holds (r\<lparr>buff := (buff r)[slot r (atomic_head r) := Some v],
                       atomic_head := atomic_head r + 1\<rparr>) (xs @ [v])"
proof -
  have lt: "length (buff r) < 2 ^ 64" by (rule pow2_length_facts(2) [OF ring_holds_pow2 [OF h]])
  have lx: "length xs < length (buff r)" using h room by (simp add: ring_holds_def)
  have hb: "holds (buff r) (atomic_tail r) xs" using h by (simp add: ring_holds_def)
  have "unat (atomic_head r + 1 - atomic_tail r) = Suc (length xs)"
    using h lx lt unat_diff_succ [of "atomic_head r" "atomic_tail r" "length (buff r)"]
    by (simp add: ring_holds_def)
  moreover have "unat (atomic_head r + 1 - prod_tail r) = Suc (unat (atomic_head r - prod_tail r))"
    by (rule unat_diff_succ [OF room lt])
  ultimately show ?thesis
    using holds_push [OF hb lx, of v] h room ring_holds_head_slot [OF h]
    by (auto simp: ring_holds_def)
qed

lemma cached_full_iff:
  assumes "ring_holds r xs"
  shows "atomic_head r - t = ring_size r \<longleftrightarrow> unat (atomic_head r - t) = length (buff r)"
  using unat_ring_size [OF ring_holds_pow2 [OF assms]] unsigned_word_eqI by metis

lemma try_push_spec:
  assumes h: "ring_holds r xs"
  shows "\<exists>r'. try_push v r = (length xs < length (buff r), r') \<and>
     ring_holds r' (if length xs < length (buff r) then xs @ [v] else xs) \<and>
     length (buff r') = length (buff r)"
proof (cases "atomic_head r - prod_tail r = ring_size r")
  case False
  then have room: "unat (atomic_head r - prod_tail r) < length (buff r)"
    using cached_full_iff [OF h] h by (auto simp: ring_holds_def)
  then have "length xs < length (buff r)" using h by (simp add: ring_holds_def)
  with False ring_holds_store [OF h room, of v] show ?thesis
    by (simp add: try_push_def Let_def)
next
  case True
  let ?r = "r\<lparr>prod_tail := atomic_tail r\<rparr>"
  have h1: "ring_holds ?r xs" by (rule ring_holds_reload_tail [OF h])
  have len: "unat (atomic_head r - atomic_tail r) = length xs" using h by (simp add: ring_holds_def)
  show ?thesis
  proof (cases "atomic_head r - atomic_tail r = ring_size r")
    case full: True
    then have "\<not> length xs < length (buff r)"
      using cached_full_iff [OF h] len by simp
    with True full h1 show ?thesis by (simp add: try_push_def Let_def ring_size_def)
  next
    case notfull: False
    then have "length xs < length (buff r)"
      using cached_full_iff [OF h] len ring_holds_length [OF h] by fastforce
    moreover from this have "unat (atomic_head ?r - prod_tail ?r) < length (buff ?r)"
      using len by simp
    ultimately show ?thesis
      using True notfull ring_holds_store [OF h1, of v]
      by (simp add: try_push_def Let_def ring_size_def slot_def size_mask_def)
  qed
qed

subsection \<open>Bulk pushing\<close>

lemma push_loop_spec:
  "holds (buff r) t xs \<Longrightarrow> length xs + length vs \<le> length (buff r) \<Longrightarrow> h = t + of_nat (length xs) \<Longrightarrow>
   \<exists>b'. push_loop vs h r = (h + of_nat (length vs), r\<lparr>buff := b'\<rparr>) \<and>
     length b' = length (buff r) \<and> holds b' t (xs @ vs)"
proof (induction vs arbitrary: xs h r)
  case Nil
  then show ?case by (intro exI [of _ "buff r"]) simp
next
  case (Cons v vs)
  note p2 = holds_pow2 [OF Cons.prems(1)]
  let ?r = "r\<lparr>buff := (buff r)[slot r h := Some v]\<rparr>"
  have sl: "slot r h = (unat t + length xs) mod length (buff r)"
    using slot_eq [OF p2] unat_add_mod_pow2 [OF p2] Cons.prems(3) by simp
  have "holds (buff ?r) t (xs @ [v])"
    using holds_push [OF Cons.prems(1), of v] Cons.prems(2) sl by simp
  moreover have "length (xs @ [v]) + length vs \<le> length (buff ?r)" using Cons.prems(2) by simp
  moreover have "h + 1 = t + of_nat (length (xs @ [v]))" using Cons.prems(3) by simp
  ultimately show ?case
    using Cons.IH [of ?r "xs @ [v]" "h + 1"] by (auto simp: algebra_simps)
qed

lemma ring_holds_append:
  assumes h: "ring_holds r xs" and b: "length b' = length (buff r)" "holds b' (atomic_tail r) (xs @ vs)"
    and room: "unat (atomic_head r - prod_tail r) + length vs \<le> length (buff r)"
  shows "ring_holds (r\<lparr>buff := b', atomic_head := atomic_head r + of_nat (length vs)\<rparr>) (xs @ vs)"
proof -
  have lt: "length (buff r) < 2 ^ 64" by (rule pow2_length_facts(2) [OF ring_holds_pow2 [OF h]])
  have shift: "unat (atomic_head r + of_nat n - t) = unat (atomic_head r - t) + n"
    if "unat (atomic_head r - t) + n < 2 ^ 64" for n t
  proof -
    have "atomic_head r + of_nat n - t = (atomic_head r - t) + of_nat n" by simp
    moreover have "unat ((atomic_head r - t) + of_nat n) = unat (atomic_head r - t) + n"
      by (rule unat_add_no_wrap) (use that in simp)
    ultimately show ?thesis by (simp only:)
  qed
  have pt: "unat (atomic_head r - prod_tail r) + length vs < 2 ^ 64" using room lt by linarith
  have at: "unat (atomic_head r - atomic_tail r) + length vs < 2 ^ 64"
    using h pt by (simp add: ring_holds_def)
  show ?thesis
    using h b room shift [OF pt] shift [OF at] by (simp add: ring_holds_def)
qed

lemma unat_avail:
  assumes h: "ring_holds r xs" and le: "unat d \<le> length (buff r)"
  shows "unat (ring_size r - d) = length (buff r) - unat d"
proof -
  have n: "unat (ring_size r) = length (buff r)" by (rule unat_ring_size [OF ring_holds_pow2 [OF h]])
  then have "d \<le> ring_size r" using le by (simp add: word_le_nat_alt)
  then show ?thesis using n by (simp add: unat_sub)
qed

lemma try_push_n_store:
  assumes h: "ring_holds r xs" and k: "k \<le> length from" "k \<le> length (buff r) - unat (atomic_head r - prod_tail r)"
  shows "\<exists>r'. (case push_loop (take k from) (atomic_head r) r of
            (ph, r2) \<Rightarrow> r2\<lparr>atomic_head := ph\<rparr>) = r' \<and>
          ring_holds r' (xs @ take k from) \<and> length (buff r') = length (buff r)"
proof -
  have hb: "holds (buff r) (atomic_tail r) xs" using h by (simp add: ring_holds_def)
  have hd: "atomic_head r = atomic_tail r + of_nat (length xs)"
    using h diff_eq_add unfolding ring_holds_def by blast
  have le: "unat (atomic_head r - prod_tail r) \<le> length (buff r)" using h by (simp add: ring_holds_def)
  have room: "unat (atomic_head r - prod_tail r) + length (take k from) \<le> length (buff r)"
    using k le by simp
  have "length xs + length (take k from) \<le> length (buff r)"
    using room h by (simp add: ring_holds_def)
  then obtain b' where b': "push_loop (take k from) (atomic_head r) r =
      (atomic_head r + of_nat (length (take k from)), r\<lparr>buff := b'\<rparr>)"
      "length b' = length (buff r)" "holds b' (atomic_tail r) (xs @ take k from)"
    using push_loop_spec [OF hb _ hd, of "take k from"] by blast
  from ring_holds_append [OF h b'(2,3) room] b'(1,2) show ?thesis by simp
qed

lemma try_push_n_spec:
  assumes h: "ring_holds r xs" and sz: "length from < 2 ^ 64"
  defines "n \<equiv> min (length from) (length (buff r) - length xs)"
  shows "\<exists>r'. try_push_n from r = (of_nat n, r') \<and> ring_holds r' (xs @ take n from) \<and>
     length (buff r') = length (buff r)"
proof -
  let ?d = "atomic_head r - prod_tail r"
  have d: "length xs \<le> unat ?d" "unat ?d \<le> length (buff r)" using h by (auto simp: ring_holds_def)
  have av: "unat (ring_size r - ?d) = length (buff r) - unat ?d" by (rule unat_avail [OF h d(2)])
  have szw: "unat (of_nat (length from) :: u64) = length from" using sz by (simp add: unat_of_nat_less)
  have len: "unat (atomic_head r - atomic_tail r) = length xs" using h by (simp add: ring_holds_def)
  show ?thesis
  proof (cases "ring_size r - ?d < of_nat (length from)")
    case False
    then have le: "length from \<le> length (buff r) - unat ?d"
      using av szw by (simp add: word_less_nat_alt)
    then have n: "n = length from" using d unfolding n_def by simp
    have "min (of_nat (length from)) (ring_size r - ?d) = of_nat (length from)"
      using False by (intro min_absorb1) (simp add: not_less)
    with False try_push_n_store [OF h, of "length from" "from"] le n szw show ?thesis
      by (auto simp: try_push_n_def Let_def split: prod.splits)
  next
    case True
    let ?r = "r\<lparr>prod_tail := atomic_tail r\<rparr>"
    have h1: "ring_holds ?r xs" by (rule ring_holds_reload_tail [OF h])
    have av1: "unat (ring_size r - (atomic_head r - atomic_tail r)) = length (buff r) - length xs"
      using unat_avail [OF h, of "atomic_head r - atomic_tail r"] len ring_holds_length [OF h] by simp
    let ?k = "min (of_nat (length from)) (ring_size r - (atomic_head r - atomic_tail r))"
    have uk: "unat ?k = n" using szw av1 by (simp add: n_def min_def word_le_nat_alt)
    then have kn: "?k = of_nat n" by (metis unsigned_word_eqI unat_of_nat_less unsigned_less)
    show ?thesis
    proof (cases "ring_size r - (atomic_head r - atomic_tail r) = 0")
      case full: True
      then have "n = 0" using av1 by (simp add: n_def)
      with True full h1 show ?thesis by (simp add: try_push_n_def Let_def)
    next
      case False
      have "n \<le> length from" "n \<le> length (buff ?r) - unat (atomic_head ?r - prod_tail ?r)"
        using len by (auto simp: n_def)
      from try_push_n_store [OF h1 this] True False uk kn show ?thesis
        by (auto simp: try_push_n_def Let_def split: prod.splits)
    qed
  qed
qed

subsection \<open>Consuming\<close>

lemma objects_map_Some [simp]: "objects (map Some xs) = Inr xs"
  by (induction xs) simp_all

lemma holds_segment:
  assumes h: "holds b t (ys @ zs)" and fit: "unat t mod length b + length ys \<le> length b"
  shows "take (length ys) (drop (unat t mod length b) b) = map Some ys"
proof (rule nth_equalityI)
  show "length (take (length ys) (drop (unat t mod length b) b)) = length (map Some ys)"
    using fit by simp
  fix j assume "j < length (take (length ys) (drop (unat t mod length b) b))"
  then have j: "j < length ys" by simp
  then have "unat t mod length b + j < length b" using fit by linarith
  then have "(unat t + j) mod length b = unat t mod length b + j"
    using mod_add_left_eq [of "unat t" "length b" j] mod_less by simp
  with holds_nth [OF h, of j] j fit
  show "take (length ys) (drop (unat t mod length b) b) ! j = map Some ys ! j"
    by (simp add: nth_append)
qed

lemma destroy_consumed_spec:
  "holds b t (ys @ zs) \<Longrightarrow> unat t mod length b + length ys \<le> length b \<Longrightarrow>
   \<exists>b'. destroy_consumed (unat t mod length b) (length ys) b = Inr b' \<and>
     length b' = length b \<and> holds b' (t + of_nat (length ys)) zs"
proof (induction ys arbitrary: b t)
  case Nil
  then show ?case by simp
next
  case (Cons y ys)
  let ?p = "unat t mod length b"
  let ?b = "b[?p := None]"
  have pop: "b ! ?p = Some y" "holds ?b (t + 1) (ys @ zs)"
    using holds_pop [of b t y "ys @ zs"] Cons.prems(1) by simp_all
  have p: "?p < length b" using Cons.prems(2) by simp
  have next_pos: "unat (t + 1) mod length b = Suc ?p mod length b"
    using unat_add_mod_pow2 [OF holds_pow2 [OF Cons.prems(1)], of t 1] by (simp add: mod_Suc_eq)
  show ?case
  proof (cases ys)
    case Nil
    with pop p show ?thesis by simp
  next
    case (Cons y' ys')
    then have "Suc ?p < length b" using Cons.prems(2) by simp
    then have q: "unat (t + 1) mod length ?b = Suc ?p" using next_pos by simp
    moreover have "unat (t + 1) mod length ?b + length ys \<le> length ?b"
      using q Cons.prems(2) by simp
    ultimately show ?thesis
      using Cons.IH [OF pop(2)] pop(1) p by (auto simp: algebra_simps)
  qed
qed

lemma consume_range_spec:
  assumes h: "holds b t (ys @ zs)" and fit: "unat t mod length b + length ys \<le> length b"
    and fn: "fn ys s = (c, s')" "unat c \<le> length ys"
  shows "\<exists>b'. consume_range fn (unat t mod length b) (length ys) s b = Inr (c, s', b') \<and>
     length b' = length b \<and> holds b' (t + c) (drop (unat c) ys @ zs)"
proof -
  let ?ys = "take (unat c) ys"
  have len: "length ?ys = unat c" using fn(2) by simp
  have h': "holds b t (?ys @ (drop (unat c) ys @ zs))"
    using h by (simp only: append_assoc [symmetric] append_take_drop_id)
  have fit': "unat t mod length b + length ?ys \<le> length b" using fit fn(2) by simp
  from destroy_consumed_spec [OF h' fit'] obtain b'
    where "destroy_consumed (unat t mod length b) (length ?ys) b = Inr b'"
      "length b' = length b" "holds b' (t + of_nat (length ?ys)) (drop (unat c) ys @ zs)"
    by blast
  then have b': "destroy_consumed (unat t mod length b) (unat c) b = Inr b'"
      "length b' = length b" "holds b' (t + c) (drop (unat c) ys @ zs)"
    by (simp_all only: len word_of_nat_eq_0_iff of_nat_unat ucast_id)
  have "consume_range fn (unat t mod length b) (length ys) s b = Inr (c, s', b')"
    unfolding consume_range_def holds_segment [OF h fit] objects_map_Some
    by (simp only: bind_res.simps fn(1) prod.case Let_def b'(1))
  with b'(2,3) show ?thesis by blast
qed

text \<open>The calls of the callback that a bulk consumption of \<open>ys\<close> from slot \<open>beg\<close> makes.\<close>

definition callback_calls ::
  "('a list \<Rightarrow> 's \<Rightarrow> u64 \<times> 's) \<Rightarrow> 's \<Rightarrow> nat \<Rightarrow> 'a list \<Rightarrow> u64 \<times> 's" where
  "callback_calls fn s room ys =
     (if length ys < room then fn ys s
      else case fn (take room ys) s of
        (c, s1) \<Rightarrow>
          if unat c = room then (case fn (drop room ys) s1 of (c', s2) \<Rightarrow> (c + c', s2))
          else (c, s1))"

definition avail :: "'a ring \<Rightarrow> nat" where
  "avail r =
     unat ((if cons_head r - atomic_tail r = 0 then atomic_head r else cons_head r) - atomic_tail r)"

lemma avail_bounds:
  assumes "ring_holds r xs"
  shows "avail r \<le> length xs" and "xs \<noteq> [] \<Longrightarrow> 0 < avail r"
  using assms by (auto simp: ring_holds_def avail_def unat_gt_0)

lemma ring_holds_advance:
  assumes h: "ring_holds r xs" and b: "length b' = length (buff r)" "holds b' (atomic_tail r + c) (drop (unat c) xs)"
    and c: "unat c \<le> unat (cons_head r - atomic_tail r)"
  shows "ring_holds (r\<lparr>buff := b', atomic_tail := atomic_tail r + c\<rparr>) (drop (unat c) xs)"
proof -
  have shift: "unat (w - (atomic_tail r + c)) = unat (w - atomic_tail r) - unat c"
    if "unat c \<le> unat (w - atomic_tail r)" for w
  proof -
    have "w - (atomic_tail r + c) = (w - atomic_tail r) - c" by simp
    moreover have "unat ((w - atomic_tail r) - c) = unat (w - atomic_tail r) - unat c"
      by (rule unat_sub) (use that in \<open>simp add: word_le_nat_alt\<close>)
    ultimately show ?thesis by (simp only:)
  qed
  have "unat c \<le> unat (atomic_head r - atomic_tail r)" using h c by (simp add: ring_holds_def)
  then show ?thesis
    using h b c shift [of "cons_head r"] shift [of "atomic_head r"]
    by (auto simp: ring_holds_def)
qed

lemma try_consume_n_reload:
  assumes "cons_head r - atomic_tail r = 0"
  shows "try_consume_n fn s r =
    (if atomic_head r - atomic_tail r = 0 then Inr (0, s, r\<lparr>cons_head := atomic_head r\<rparr>)
     else try_consume_n fn s (r\<lparr>cons_head := atomic_head r\<rparr>))"
  using assms by (simp add: try_consume_n_def Let_def size_mask_def ring_size_def)

lemma try_consume_n_wrap:
  assumes h: "ring_holds r xs" and nz: "cons_head r - atomic_tail r \<noteq> 0"
  defines "a \<equiv> unat (cons_head r - atomic_tail r)" and "beg \<equiv> unat (atomic_tail r) mod length (buff r)"
  shows "unat (atomic_tail r AND size_mask r) = beg"
    and "unat ((atomic_tail r + (cons_head r - atomic_tail r)) AND size_mask r) =
           (if beg + a < length (buff r) then beg + a else beg + a - length (buff r))"
    and "beg < length (buff r)" and "0 < a" and "a \<le> length xs" and "length xs \<le> length (buff r)"
    and "unat (ring_size r - (atomic_tail r AND size_mask r)) = length (buff r) - beg"
proof -
  note p2 = ring_holds_pow2 [OF h]
  have N: "0 < length (buff r)" by (rule pow2_length_facts(1) [OF p2])
  show b: "unat (atomic_tail r AND size_mask r) = beg"
    using slot_eq [OF p2, of "atomic_tail r"] by (simp add: slot_def beg_def)
  show lt: "beg < length (buff r)" unfolding beg_def by (rule mod_less_divisor [OF N])
  show "0 < a" using nz by (simp add: a_def unat_gt_0)
  show ax: "a \<le> length xs" using h by (simp add: a_def ring_holds_def)
  show xN: "length xs \<le> length (buff r)" by (rule ring_holds_length [OF h])
  have "unat ((atomic_tail r + (cons_head r - atomic_tail r)) AND size_mask r) =
          unat (atomic_tail r + of_nat a) mod length (buff r)"
    using slot_eq [OF p2, of "atomic_tail r + of_nat a"] by (simp add: slot_def a_def)
  also have "\<dots> = (beg + a) mod length (buff r)"
    by (simp only: unat_add_mod_pow2 [OF p2] beg_def mod_add_left_eq)
  also have "\<dots> = (if beg + a < length (buff r) then beg + a else beg + a - length (buff r))"
    using lt ax xN by (auto simp: mod_if)
  finally show "unat ((atomic_tail r + (cons_head r - atomic_tail r)) AND size_mask r) =
           (if beg + a < length (buff r) then beg + a else beg + a - length (buff r))" .
  show "unat (ring_size r - (atomic_tail r AND size_mask r)) = length (buff r) - beg"
    using unat_avail [OF h, of "atomic_tail r AND size_mask r"] b lt by simp
qed

text \<open>The loaded case with a single range of slots.\<close>

lemma try_consume_n_straight:
  assumes h: "ring_holds r xs" and nz: "cons_head r - atomic_tail r \<noteq> 0"
    and fn: "\<And>vs s c s'. fn vs s = (c, s') \<Longrightarrow> unat c \<le> length vs"
    and ys: "ys = take (unat (cons_head r - atomic_tail r)) xs"
    and fit: "unat (atomic_tail r) mod length (buff r) + length ys < length (buff r)"
    and call: "fn ys s = (c, s')"
  shows "\<exists>r'. try_consume_n fn s r = Inr (c, s', r') \<and> ring_holds r' (drop (unat c) xs) \<and>
    length (buff r') = length (buff r)"
proof -
  let ?cnt = "cons_head r - atomic_tail r" and ?beg = "unat (atomic_tail r) mod length (buff r)"
  note w = try_consume_n_wrap [OF h nz]
  have len: "length ys = unat ?cnt" using w(5) ys by simp
  have c: "unat c \<le> length ys" by (rule fn [OF call])
  have hb: "holds (buff r) (atomic_tail r) (ys @ drop (unat ?cnt) xs)"
    using h ys by (simp add: ring_holds_def)
  obtain b' where b': "consume_range fn ?beg (length ys) s (buff r) = Inr (c, s', b')"
      "length b' = length (buff r)" "holds b' (atomic_tail r + c) (drop (unat c) ys @ drop (unat ?cnt) xs)"
    using consume_range_spec [of "buff r" _ ys _ fn s c s', OF hb _ call c] fit by auto
  have rest: "drop (unat c) ys @ drop (unat ?cnt) xs = drop (unat c) xs"
    using c len ys by (metis append_take_drop_id drop_append diff_is_0_eq drop0)
  have lt: "atomic_tail r AND size_mask r < (atomic_tail r + ?cnt) AND size_mask r"
    unfolding word_less_nat_alt w(1,2) using fit w(4) len by simp
  have "ring_holds (r\<lparr>buff := b', atomic_tail := atomic_tail r + c\<rparr>) (drop (unat c) xs)"
    by (rule ring_holds_advance [OF h b'(2)]) (use b'(3) rest c len in simp_all)
  moreover have "try_consume_n fn s r = Inr (c, s', r\<lparr>buff := b', atomic_tail := atomic_tail r + c\<rparr>)"
    unfolding try_consume_n_def Let_def using nz lt b'(1) len w(1)
    by (simp del: add_diff_eq diff_add_eq add_diff_cancel_left' add_diff_cancel)
  ultimately show ?thesis using b'(2) by simp
qed

text \<open>The loaded case whose elements reach the end of the buffer.\<close>

lemma try_consume_n_wrapped:
  assumes h: "ring_holds r xs" and nz: "cons_head r - atomic_tail r \<noteq> 0"
    and fn: "\<And>vs s c s'. fn vs s = (c, s') \<Longrightarrow> unat c \<le> length vs"
    and ys: "ys = take (unat (cons_head r - atomic_tail r)) xs"
    and room: "room = length (buff r) - unat (atomic_tail r) mod length (buff r)"
    and fit: "room \<le> length ys"
    and call: "callback_calls fn s room ys = (c, s')"
  shows "\<exists>r'. try_consume_n fn s r = Inr (c, s', r') \<and> ring_holds r' (drop (unat c) xs) \<and>
    length (buff r') = length (buff r)"
proof -
  let ?cnt = "cons_head r - atomic_tail r" and ?beg = "unat (atomic_tail r) mod length (buff r)"
  let ?t = "atomic_tail r" and ?mask = "size_mask r"
  note p2 = ring_holds_pow2 [OF h]
  note w = try_consume_n_wrap [OF h nz]
  have len: "length ys = unat ?cnt" using w(5) ys by simp
  have not_lt: "\<not> ?t AND ?mask < (?t + ?cnt) AND ?mask"
    unfolding word_less_nat_alt w(1,2) using fit room w(3,5,6) len by auto
  have end': "unat ((?t + ?cnt) AND ?mask) = length ys - room"
    unfolding w(2) using fit room w(3) len by auto
  obtain c1 s1 where call1: "fn (take room ys) s = (c1, s1)" by fastforce
  have c1: "unat c1 \<le> length (take room ys)" by (rule fn [OF call1])
  have ltake: "length (take room ys) = room" using fit by simp
  let ?zs = "drop room ys @ drop (unat ?cnt) xs"
  have all: "take room ys @ ?zs = xs"
    unfolding append_assoc [symmetric] append_take_drop_id ys by (rule refl)
  have hb: "holds (buff r) ?t (take room ys @ ?zs)"
    unfolding all using h by (simp add: ring_holds_def)
  obtain b1 where b1: "consume_range fn ?beg room s (buff r) = Inr (c1, s1, b1)"
      "length b1 = length (buff r)" "holds b1 (?t + c1) (drop (unat c1) (take room ys) @ ?zs)"
    using consume_range_spec [of "buff r" _ "take room ys" _ fn s c1 s1, OF hb _ call1 c1] ltake room w(3)
    by auto
  have eq: "ring_size r - (?t AND ?mask) = c1 \<longleftrightarrow> unat c1 = room"
    using w(7) room by (metis unsigned_word_eqI)
  have urm: "unat (ring_size r - (?t AND ?mask)) = room" using w(7) room by simp
  show ?thesis
  proof (cases "unat c1 = room")
    case False
    have "drop (unat c1) (take room ys) @ ?zs = drop (unat c1) xs"
      using c1 all by (metis drop_append diff_is_0_eq drop0)
    then have "ring_holds (r\<lparr>buff := b1, atomic_tail := ?t + c1\<rparr>) (drop (unat c1) xs)"
      by (intro ring_holds_advance [OF h b1(2)]) (use b1(3) c1 ltake fit len in simp_all)
    moreover have "(c, s') = (c1, s1)"
      using call call1 False fit by (simp add: callback_calls_def)
    moreover have "try_consume_n fn s r = Inr (c1, s1, r\<lparr>buff := b1, atomic_tail := ?t + c1\<rparr>)"
      unfolding try_consume_n_def Let_def using nz not_lt b1(1) w(1) urm eq False
      by (simp del: add_diff_eq diff_add_eq add_diff_cancel_left' add_diff_cancel)
    ultimately show ?thesis using b1(2) by simp
  next
    case True
    obtain c2 s2 where call2: "fn (drop room ys) s1 = (c2, s2)" by fastforce
    have c2: "unat c2 \<le> length (drop room ys)" by (rule fn [OF call2])
    have cs: "c = c1 + c2" "s' = s2"
      using call call1 call2 True fit by (auto simp: callback_calls_def)
    have hb1: "holds b1 (?t + c1) (drop room ys @ drop (unat ?cnt) xs)"
      using b1(3) True ltake by simp
    have pos: "unat (?t + c1) mod length b1 = 0"
    proof -
      have "unat (?t + of_nat room) mod length (buff r) = (?beg + room) mod length (buff r)"
        by (simp only: unat_add_mod_pow2 [OF p2] mod_add_left_eq)
      moreover have "of_nat room = c1" using True by (metis of_nat_unat ucast_id)
      ultimately show ?thesis using room w(3) b1(2) by simp
    qed
    have "length (drop room ys) \<le> length b1"
      using len w(5,6) b1(2) by simp
    then obtain b2 where b2: "consume_range fn 0 (length ys - room) s1 b1 = Inr (c2, s2, b2)"
        "length b2 = length (buff r)"
        "holds b2 (?t + c1 + c2) (drop (unat c2) (drop room ys) @ drop (unat ?cnt) xs)"
      using consume_range_spec [of b1 _ "drop room ys" _ fn s1 c2 s2, OF hb1 _ call2 c2] pos b1(2)
      by auto
    have small: "unat c1 + unat c2 \<le> unat ?cnt" using True c2 len fit by simp
    have "unat ?cnt < 2 ^ LENGTH(64)" by (rule unsigned_less)
    with small have uc: "unat (c1 + c2) = room + unat c2"
      using True by (simp add: unat_word_ariths)
    have split: "xs = ys @ drop (unat ?cnt) xs" using ys by simp
    have "drop (room + unat c2) (ys @ drop (unat ?cnt) xs) = drop (room + unat c2) ys @ drop (unat ?cnt) xs"
      using c2 fit by simp
    then have "drop (unat c2) (drop room ys) @ drop (unat ?cnt) xs = drop (unat (c1 + c2)) xs"
      unfolding uc drop_drop add.commute [of room] split [symmetric] by (rule sym)
    then have "ring_holds (r\<lparr>buff := b2, atomic_tail := ?t + (c1 + c2)\<rparr>) (drop (unat (c1 + c2)) xs)"
      by (intro ring_holds_advance [OF h b2(2)])
         (use b2(3) small uc True in \<open>simp_all add: add.assoc\<close>)
    moreover have "try_consume_n fn s r =
        Inr (c1 + c2, s2, r\<lparr>buff := b2, atomic_tail := ?t + (c1 + c2)\<rparr>)"
      unfolding try_consume_n_def Let_def using nz not_lt b1(1) b2(1) w(1) urm eq True end'
      by (simp del: add_diff_eq diff_add_eq add_diff_cancel_left' add_diff_cancel)
    ultimately show ?thesis using b2(2) cs by simp
  qed
qed

lemma callback_calls_empty: "fn [] s = (c, s') \<Longrightarrow> 0 < room \<Longrightarrow> callback_calls fn s room [] = (c, s')"
  by (simp add: callback_calls_def)

text \<open>A callback must not report more elements than it was given.\<close>

definition callback_ok :: "('a list \<Rightarrow> 's \<Rightarrow> u64 \<times> 's) \<Rightarrow> bool" where
  "callback_ok fn \<longleftrightarrow> (\<forall>vs s. unat (fst (fn vs s)) \<le> length vs)"

lemma callback_okD: "callback_ok fn \<Longrightarrow> fn vs s = (c, s') \<Longrightarrow> unat c \<le> length vs"
  unfolding callback_ok_def by (metis fst_conv)

lemma try_consume_n_spec:
  assumes h: "ring_holds r xs" and ok: "callback_ok fn"
    and call: "callback_calls fn s (length (buff r) - unat (atomic_tail r) mod length (buff r))
                 (take (avail r) xs) = (c, s')"
  shows "\<exists>r'. try_consume_n fn s r = (if xs = [] then Inr (0, s, r') else Inr (c, s', r')) \<and>
    ring_holds r' (if xs = [] then [] else drop (unat c) xs) \<and> length (buff r') = length (buff r)"
proof -
  note fn = callback_okD [OF ok]
  have loaded: "\<exists>r'. try_consume_n fn s q = Inr (c, s', r') \<and> ring_holds r' (drop (unat c) xs) \<and>
      length (buff r') = length (buff q)"
    if hq: "ring_holds q xs" and nz: "cons_head q - atomic_tail q \<noteq> 0"
      and same: "buff q = buff r" "atomic_tail q = atomic_tail r"
      and av: "unat (cons_head q - atomic_tail q) = avail r" for q
  proof (cases "unat (atomic_tail q) mod length (buff q) + length (take (avail r) xs) < length (buff q)")
    case True
    have "length (take (avail r) xs) < length (buff r) - unat (atomic_tail r) mod length (buff r)"
      using True unfolding same by linarith
    then have "fn (take (avail r) xs) s = (c, s')"
      using call unfolding callback_calls_def by (simp only: if_True)
    then show ?thesis
      using try_consume_n_straight [OF hq nz fn _ True] av by simp
  next
    case False
    show ?thesis
      by (rule try_consume_n_wrapped [OF hq nz fn _ refl]) (use False call av same in auto)
  qed
  show ?thesis
  proof (cases "xs = []")
    case True
    then have "cons_head r - atomic_tail r = 0" "atomic_head r - atomic_tail r = 0"
      using h by (auto simp: ring_holds_def unat_eq_0)
    then show ?thesis
      using True ring_holds_reload_head [OF h] by (simp add: try_consume_n_reload)
  next
    case ne: False
    show ?thesis
    proof (cases "cons_head r - atomic_tail r = 0")
      case False
      then show ?thesis using loaded [OF h False] ne by (simp add: avail_def)
    next
      case True
      let ?q = "r\<lparr>cons_head := atomic_head r\<rparr>"
      have nz: "atomic_head r - atomic_tail r \<noteq> 0"
        using h ne by (auto simp: ring_holds_def simp flip: unat_eq_0)
      show ?thesis
        using loaded [OF ring_holds_reload_head [OF h]] True ne nz
        by (simp add: try_consume_n_reload avail_def)
    qed
  qed
qed

subsection \<open>Popping\<close>

lemma pop_callback_bound: "pop_callback vs st = (c, st') \<Longrightarrow> unat c \<le> length vs"
proof -
  assume "pop_callback vs st = (c, st')"
  then have "c \<le> of_nat (length vs)" by (auto simp: pop_callback_def Let_def split: prod.splits)
  then have "unat c \<le> unat (of_nat (length vs) :: u64)" by (simp add: word_le_nat_alt)
  also have "\<dots> \<le> length vs" by (simp add: unat_of_nat)
  finally show ?thesis .
qed

lemma callback_ok_pop: "callback_ok pop_callback"
  unfolding callback_ok_def using pop_callback_bound by (metis prod.collapse)

lemma pop_callback_eq:
  fixes sz :: u64
  assumes "length vs < 2 ^ 64"
  defines "n \<equiv> min (unat sz) (length vs)"
  shows "pop_callback vs (sz, out) = (of_nat n, sz - of_nat n, out @ take n vs)"
proof -
  have "unat (min sz (of_nat (length vs))) = n"
    using assms(1) by (simp add: n_def min_def word_le_nat_alt unat_of_nat_less)
  then have "min sz (of_nat (length vs)) = of_nat n" "unat (of_nat n :: u64) = n"
    by (metis of_nat_unat ucast_id)+
  then show ?thesis by (simp add: pop_callback_def Let_def)
qed

text \<open>The bulk pop does not see where the buffer wraps: one call or two, it moves the same prefix.\<close>

lemma callback_calls_pop:
  fixes sz :: u64
  assumes "length ys < 2 ^ 64" "0 < room"
  defines "n \<equiv> min (unat sz) (length ys)"
  shows "\<exists>sz'. callback_calls pop_callback (sz, []) room ys = (of_nat n, sz', take n ys)"
proof (cases "length ys < room")
  case True
  then show ?thesis using pop_callback_eq [OF assms(1), of sz "[]"]
    by (simp add: callback_calls_def n_def)
next
  case False
  let ?k = "min (unat sz) room"
  have lt: "length (take room ys) < 2 ^ 64" "length (drop room ys) < 2 ^ 64" using assms(1) by auto
  have first: "pop_callback (take room ys) (sz, []) = (of_nat ?k, sz - of_nat ?k, take ?k ys)"
    using pop_callback_eq [OF lt(1), of sz "[]"] False by (simp add: min.absorb2)
  have uk: "unat (of_nat ?k :: u64) = ?k"
    by (rule unat_of_nat_less) (use assms(1) False in simp)
  show ?thesis
  proof (cases "room \<le> unat sz")
    case room: True
    then have k: "?k = room" by simp
    have usz: "unat (sz - of_nat room) = unat sz - room"
      using room uk k by (subst unat_sub) (simp_all add: word_le_nat_alt)
    have n: "n = room + min (unat sz - room) (length ys - room)" using False room by (simp add: n_def)
    have "take n ys = take room ys @ take (min (unat sz - room) (length ys - room)) (drop room ys)"
      unfolding n by (simp only: take_add)
    moreover have "(of_nat n :: u64) = of_nat room + of_nat (min (unat sz - room) (length ys - room))"
      unfolding n by simp
    ultimately show ?thesis
      using first False k uk usz pop_callback_eq [OF lt(2), of "sz - of_nat room" "take room ys"]
      by (simp add: callback_calls_def)
  next
    case short: False
    then have "?k = unat sz" "n = unat sz" using False by (auto simp: n_def)
    then show ?thesis
      using first False uk short by (simp add: callback_calls_def)
  qed
qed

lemma try_pop_n_spec:
  fixes sz :: u64
  assumes h: "ring_holds r xs"
  defines "n \<equiv> min (unat sz) (avail r)"
  shows "\<exists>r'. try_pop_n sz r = Inr (of_nat n, take n xs, r') \<and> ring_holds r' (drop n xs) \<and>
     length (buff r') = length (buff r)"
proof -
  note p2 = ring_holds_pow2 [OF h]
  have N: "0 < length (buff r)" "length (buff r) < 2 ^ 64" by (rule pow2_length_facts [OF p2])+
  have av: "avail r \<le> length xs" by (rule avail_bounds(1) [OF h])
  have len: "length (take (avail r) xs) < 2 ^ 64"
    using ring_holds_length [OF h] N(2) by simp
  have room: "0 < length (buff r) - unat (atomic_tail r) mod length (buff r)"
    using mod_less_divisor [OF N(1)] by simp
  have un: "unat (of_nat n :: u64) = n"
    by (rule unat_of_nat_less) (use len av in \<open>simp add: n_def\<close>)
  obtain sz' where call: "callback_calls pop_callback (sz, [])
      (length (buff r) - unat (atomic_tail r) mod length (buff r)) (take (avail r) xs) =
      (of_nat n, sz', take n xs)"
    using callback_calls_pop [OF len room, of sz] av by (auto simp: n_def min_def)
  from try_consume_n_spec [OF h callback_ok_pop call] obtain r'
    where r': "try_consume_n pop_callback (sz, []) r =
        (if xs = [] then Inr (0, (sz, []), r') else Inr (of_nat n, (sz', take n xs), r'))"
      "ring_holds r' (if xs = [] then [] else drop n xs)" "length (buff r') = length (buff r)"
    unfolding un by blast
  show ?thesis
  proof (cases "xs = []")
    case True
    then have "n = 0" using av by (simp add: n_def)
    with True r' show ?thesis by (simp add: try_pop_n_def)
  next
    case False
    with r' show ?thesis by (simp add: try_pop_n_def)
  qed
qed

subsection \<open>One element at a time\<close>

lemma holds_replace:
  assumes h: "holds b t (x # xs)"
  shows "holds (b[unat t mod length b := Some y]) t (y # xs)"
  unfolding holds_def
proof (intro conjI allI impI)
  let ?b = "b[unat t mod length b := Some y]"
  have len: "Suc (length xs) \<le> length b" using holds_length [OF h] by simp
  show "\<exists>k<64. length ?b = 2 ^ k" using holds_pow2 [OF h] by simp
  show "length (y # xs) \<le> length ?b" using len by simp
  fix j assume "j < length ?b"
  then have j: "j < length b" by simp
  have p: "unat t mod length b < length b" by (rule mod_less_divisor) (use j in linarith)
  show "?b ! ((unat t + j) mod length ?b) = (if j < length (y # xs) then Some ((y # xs) ! j) else None)"
  proof (cases j)
    case 0
    then show ?thesis using p by simp
  next
    case (Suc i)
    have "(unat t + 0) mod length b \<noteq> (unat t + j) mod length b"
      by (rule holds_other_slot) (use Suc j in auto)
    with holds_nth [OF h j] Suc show ?thesis by simp
  qed
qed

lemma try_consume_spec:
  assumes h: "ring_holds r xs"
  shows "\<exists>r'. try_consume fn s r =
      (case xs of [] \<Rightarrow> Inr (False, s, r') | x # _ \<Rightarrow> Inr (fst (fn x s), snd (snd (fn x s)), r')) \<and>
    ring_holds r' (case xs of [] \<Rightarrow> []
      | x # ys \<Rightarrow> if fst (fn x s) then ys else fst (snd (fn x s)) # ys) \<and>
    length (buff r') = length (buff r)"
proof -
  define q where "q = (if cons_head r - atomic_tail r = 0 then r\<lparr>cons_head := atomic_head r\<rparr> else r)"
  have hq: "ring_holds q xs" using h ring_holds_reload_head [OF h] by (simp add: q_def)
  have same: "atomic_tail q = atomic_tail r" "length (buff q) = length (buff r)"
    by (simp_all add: q_def)
  note unfold = try_consume_def Let_def q_def [symmetric]
  have empty: "cons_head q - atomic_tail r = 0 \<longleftrightarrow> xs = []"
    using h by (auto simp: q_def ring_holds_def simp flip: unat_eq_0)
  have hb: "holds (buff q) (atomic_tail r) xs" using hq same by (simp add: ring_holds_def)
  have sl: "slot q (atomic_tail r) = unat (atomic_tail r) mod length (buff q)"
    by (rule slot_eq [OF ring_holds_pow2 [OF hq]])
  show ?thesis
  proof (cases xs)
    case Nil
    with empty hq same show ?thesis
      unfolding unfold by simp
  next
    case (Cons x ys)
    note pop = holds_pop [OF hb [unfolded Cons]]
    obtain ok v' s' where fn: "fn x s = (ok, v', s')" by (cases "fn x s") auto
    have nz: "cons_head q - atomic_tail r \<noteq> 0" using empty Cons by simp
    then have one: "Suc 0 \<le> unat (cons_head q - atomic_tail q)"
      using same by (simp add: Suc_le_eq unat_gt_0)
    show ?thesis
    proof (cases ok)
      case True
      let ?r' = "q\<lparr>buff := (buff q)[slot q (atomic_tail r) := None], atomic_tail := atomic_tail r + 1\<rparr>"
      have "ring_holds ?r' (drop (unat (1 :: u64)) xs)"
        using ring_holds_advance [OF hq, of "(buff q)[slot q (atomic_tail r) := None]" 1]
          pop(2) Cons sl one same by simp
      moreover have "try_consume fn s r = Inr (True, s', ?r')"
        unfolding unfold using nz pop(1) sl fn True by simp
      ultimately show ?thesis using Cons fn True same by auto
    next
      case False
      let ?r' = "q\<lparr>buff := (buff q)[slot q (atomic_tail r) := Some v']\<rparr>"
      have "ring_holds ?r' (v' # ys)"
        using hq holds_replace [OF hb [unfolded Cons], of v'] Cons sl same
        by (simp add: ring_holds_def)
      moreover have "try_consume fn s r = Inr (False, s', ?r')"
        unfolding unfold using nz pop(1) sl fn False by simp
      ultimately show ?thesis using Cons fn False same by auto
    qed
  qed
qed

lemma try_pop_spec:
  assumes h: "ring_holds r xs"
  shows "\<exists>r'. try_pop r = Inr ((case xs of [] \<Rightarrow> None | x # _ \<Rightarrow> Some x), r') \<and>
    ring_holds r' (tl xs) \<and> length (buff r') = length (buff r)"
  using try_consume_spec [OF h, of "\<lambda>v _. (True, v, Some v)" None]
  by (cases xs) (auto simp: try_pop_def)

subsection \<open>The destructor\<close>

lemma holds_nil_dead:
  assumes "holds b t []"
  shows "set b \<subseteq> {None}"
proof
  fix x assume "x \<in> set b"
  then obtain i where i: "i < length b" "x = b ! i" by (auto simp: in_set_conv_nth)
  let ?j = "(i + length b - unat t mod length b) mod length b"
  have j: "?j < length b" by (rule mod_less_divisor) (use i in linarith)
  have lt: "unat t mod length b < length b" by (rule mod_less_divisor) (use i in linarith)
  have "(unat t + ?j) mod length b = (unat t mod length b + (i + length b - unat t mod length b)) mod length b"
    by (simp add: mod_add_right_eq mod_add_left_eq)
  also have "\<dots> = i" using lt i by simp
  finally have "b ! i = None" using holds_nth [OF assms j] by simp
  with i show "x \<in> {None}" by simp
qed

lemma ring_destroy_spec:
  "ring_holds r xs \<Longrightarrow>
    \<exists>r'. ring_destroy r = Some (Inr r') \<and> ring_holds r' [] \<and> length (buff r') = length (buff r)"
proof (induction "length xs" arbitrary: r xs rule: less_induct)
  case less
  note N = pow2_length_facts(1) [OF ring_holds_pow2 [OF less.prems]]
  let ?sz = "min 16 (ring_size r)"
  let ?n = "min (unat ?sz) (avail r)"
  have sz: "0 < unat ?sz"
    using N unat_ring_size [OF ring_holds_pow2 [OF less.prems]] by (auto simp: min_def unat_gt_0)
  obtain r' where r': "try_pop_n ?sz r = Inr (of_nat ?n, take ?n xs, r')" "ring_holds r' (drop ?n xs)"
      "length (buff r') = length (buff r)"
    using try_pop_n_spec [OF less.prems, of ?sz] by blast
  have "unat (of_nat ?n :: u64) = ?n"
    by (rule unat_of_nat_less) (use unat_u64_less [of ?sz] in auto)
  then have n0: "(0 < (of_nat ?n :: u64)) = (0 < ?n)" by (metis unat_gt_0 word_gt_0)
  show ?case
  proof (cases "xs = []")
    case True
    then have "?n = 0" using avail_bounds(1) [OF less.prems] by simp
    then show ?thesis using r' n0 True by (simp add: ring_destroy.simps [of r])
  next
    case False
    then have n: "0 < ?n" using avail_bounds(2) [OF less.prems] sz by simp
    then have "length (drop ?n xs) < length xs" using False by simp
    from less.hyps [OF this r'(2)] show ?thesis
      using r' n0 n by (simp add: ring_destroy.simps [of r])
  qed
qed

subsection \<open>The ring provides the queue's contract\<close>

lemma ring_inv_holds: "ring_inv r \<Longrightarrow> ring_holds r (contents r)"
  by (simp add: ring_inv_def)

lemma ring_new_inv:
  assumes "valid_size sz"
  shows "ring_inv (ring_new sz :: 'a ring)" and "contents (ring_new sz :: 'a ring) = []"
    and "length (buff (ring_new sz :: 'a ring)) = unat sz"
proof -
  have "\<exists>k<64. unat sz = 2 ^ k"
    using assms is_pow2_iff [of sz] by (auto simp: valid_size_def is_pow2_def)
  then have h: "ring_holds (ring_new sz :: 'a ring) []" by (rule ring_new_holds)
  then show "ring_inv (ring_new sz :: 'a ring)" and "contents (ring_new sz :: 'a ring) = []"
    by (simp_all add: ring_holds_inv ring_holds_contents)
  show "length (buff (ring_new sz :: 'a ring)) = unat sz" by (simp add: ring_new_def)
qed

lemma try_pop_n_pop_law:
  assumes "ring_inv r"
  shows "\<exists>n out r'. try_pop_n sz r = Inr (n, out, r') \<and> ring_inv r' \<and>
    length (buff r') = length (buff r) \<and> contents r = out @ contents r' \<and> unat n = length out \<and>
    length out \<le> unat sz \<and> (sz \<noteq> 0 \<and> contents r \<noteq> [] \<longrightarrow> out \<noteq> [])"
proof -
  note h = ring_inv_holds [OF assms]
  let ?n = "min (unat sz) (avail r)"
  obtain r' where r': "try_pop_n sz r = Inr (of_nat ?n, take ?n (contents r), r')"
      "ring_holds r' (drop ?n (contents r))" "length (buff r') = length (buff r)"
    using try_pop_n_spec [OF h] by blast
  have "unat (of_nat ?n :: u64) = ?n"
    by (rule unat_of_nat_less) (use unat_u64_less [of sz] in auto)
  moreover have "?n \<le> length (contents r)" using avail_bounds(1) [OF h] by simp
  moreover have "contents r = take ?n (contents r) @ contents r'"
    using ring_holds_contents [OF r'(2)] by simp
  moreover have "0 < ?n" if "sz \<noteq> 0" "contents r \<noteq> []"
    using that avail_bounds(2) [OF h] by (simp add: unat_gt_0)
  ultimately show ?thesis using r' ring_holds_inv [OF r'(2)] by (auto simp: min_def split: if_splits)
qed

interpretation ring: bounded_fifo try_push try_pop_n contents ring_inv "\<lambda>r. length (buff r)"
proof unfold_locales
  fix q :: "'a ring" and v :: 'a
  assume inv: "ring_inv q"
  show "\<exists>q'. try_push v q = (length (contents q) < length (buff q), q') \<and> ring_inv q' \<and>
      length (buff q') = length (buff q) \<and>
      contents q' = (if length (contents q) < length (buff q) then contents q @ [v] else contents q)"
    using try_push_spec [OF ring_inv_holds [OF inv], of v] ring_holds_inv ring_holds_contents by blast
  show "length (contents q) \<le> length (buff q)"
    by (rule ring_holds_length [OF ring_inv_holds [OF inv]])
next
  fix q :: "'a ring" and sz :: u64
  assume "ring_inv q"
  then show "\<exists>n out q'. try_pop_n sz q = Inr (n, out, q') \<and> ring_inv q' \<and>
      length (buff q') = length (buff q) \<and> contents q = out @ contents q' \<and>
      unat n = length out \<and> length out \<le> unat sz \<and>
      (sz \<noteq> 0 \<and> contents q \<noteq> [] \<longrightarrow> out \<noteq> [])"
    by (rule try_pop_n_pop_law)
qed

subsection \<open>Properties\<close>

text \<open>
  Claim C5. For every template size that passes the \<open>static_assert\<close> and every sequence of
  \<open>try_push\<close> and bulk \<open>try_pop\<close> calls on a new ring, no call touches a dead slot and the calls
  return what the abstract queue of that capacity returns: a push is refused exactly when the
  queue is full, a pop delivers its oldest elements and some of them whenever there is one, and
  the ring ends with the elements of the queue. So the values popped are exactly the values
  accepted, in that order, and what is left over is still in the ring, at most its capacity.
\<close>

theorem spsc_ring_fifo:
  assumes "valid_size sz"
  shows "\<exists>acc del r'. fifo_run try_push try_pop_n ops (ring_new sz) = Inr (acc, del, r') \<and>
    ring_inv r' \<and> fifo_trace (unat sz) [] ops acc del (contents r') \<and>
    acc = del @ contents r' \<and> length (contents r') \<le> unat sz"
proof -
  note new = ring_new_inv [where 'a = 'a, OF assms]
  obtain acc del r' where r': "fifo_run try_push try_pop_n ops (ring_new sz) = Inr (acc, del, r')"
      "ring_inv r'" "fifo_trace (unat sz) [] ops acc del (contents r')"
    using ring.fifo_refines [OF new(1), of ops] new(2,3) by auto
  then show ?thesis using fifo_trace_order [OF r'(3)] fifo_trace_bound [OF r'(3)] by auto
qed

lemma valid_size_2: "valid_size 2"
  by (simp add: valid_size_def)

theorem spsc_ring_fifo_witness:
  "\<exists>acc del r'. fifo_run try_push try_pop_n [Push (1::nat), Push 2, Push 3, Pop 1, Push 4, Pop 8]
     (ring_new 2) = Inr (acc, del, r') \<and> ring_inv r' \<and>
     fifo_trace (unat (2 :: u64)) [] [Push 1, Push 2, Push 3, Pop 1, Push 4, Pop 8] acc del (contents r') \<and>
     acc = del @ contents r' \<and> length (contents r') \<le> unat (2 :: u64)"
  by (rule spsc_ring_fifo [OF valid_size_2])

text \<open>
  \<open>try_push\<close> succeeds exactly when the ring is not full, whatever the producer's cached
  tail says, and then appends its value; when it fails the contents are unchanged.
\<close>

lemma try_push_exact:
  assumes "ring_inv r" "try_push v r = (ok, r')"
  shows "ok = (length (contents r) < length (buff r)) \<and>
    contents r' = (if ok then contents r @ [v] else contents r) \<and> ring_inv r'"
  using ring.push_law [OF assms(1), of v] assms(2) by auto

lemma try_push_exact_witness:
  "case try_push (7::nat) (ring_new 2) of (ok, r') \<Rightarrow>
     ok = (length (contents (ring_new 2 :: nat ring)) < length (buff (ring_new 2 :: nat ring))) \<and>
     contents r' = (if ok then contents (ring_new 2) @ [7] else contents (ring_new 2)) \<and> ring_inv r'"
proof -
  obtain ok r' where e: "try_push (7::nat) (ring_new 2) = (ok, r')" by fastforce
  show ?thesis unfolding e prod.case
    by (rule try_push_exact [OF ring_new_inv(1) [OF valid_size_2] e])
qed

text \<open>
  The bulk \<open>try_push\<close> stores the longest prefix of its argument that fits and returns
  its length.
\<close>

lemma try_push_n_exact:
  assumes "ring_inv r" "length from < 2 ^ 64"
  shows "\<exists>n r'. try_push_n from r = (of_nat n, r') \<and> ring_inv r' \<and>
    n = min (length from) (length (buff r) - length (contents r)) \<and>
    contents r' = contents r @ take n from"
  using try_push_n_spec [OF ring_inv_holds [OF assms(1)] assms(2)]
  by (auto simp: ring_holds_inv ring_holds_contents)

lemma try_push_n_exact_witness:
  "\<exists>n r'. try_push_n [1, 2, 3 :: nat] (ring_new 2) = (of_nat n, r') \<and> ring_inv r' \<and>
    n = min (length [1, 2, 3 :: nat]) (length (buff (ring_new 2 :: nat ring)) - length (contents (ring_new 2 :: nat ring))) \<and>
    contents r' = contents (ring_new 2) @ take n [1, 2, 3]"
  by (rule try_push_n_exact [OF ring_new_inv(1) [OF valid_size_2]]) simp

text \<open>
  The bulk \<open>try_pop\<close> never touches a dead slot and moves out a prefix of the contents,
  at most as many elements as asked for; it returns none only when the ring is empty or none was
  asked for, even when the elements wrap around the end of the buffer.
\<close>

lemma try_pop_n_prefix:
  assumes "ring_inv r"
  shows "\<exists>n out r'. try_pop_n sz r = Inr (n, out, r') \<and> ring_inv r' \<and>
    contents r = out @ contents r' \<and> unat n = length out \<and> length out \<le> unat sz \<and>
    (out = [] \<longleftrightarrow> sz = 0 \<or> contents r = [])"
  using try_pop_n_pop_law [OF assms, of sz] by fastforce

lemma try_pop_n_prefix_witness:
  "\<exists>n out r'. try_pop_n 8 (snd (try_push (7::nat) (ring_new 2))) = Inr (n, out, r') \<and> ring_inv r' \<and>
    contents (snd (try_push (7::nat) (ring_new 2))) = out @ contents r' \<and> unat n = length out \<and>
    length out \<le> unat (8 :: u64) \<and>
    (out = [] \<longleftrightarrow> (8 :: u64) = 0 \<or> contents (snd (try_push (7::nat) (ring_new 2))) = [])"
proof (rule try_pop_n_prefix)
  show "ring_inv (snd (try_push (7::nat) (ring_new 2)))"
    using ring.push_law [OF ring_new_inv(1) [OF valid_size_2], of "7 :: nat"] by auto
qed

text \<open>
  Claim C38. The destructor returns and leaves no live object in the buffer: nothing that was
  pushed is leaked.
\<close>

theorem ring_destroy_destroys_all:
  assumes "ring_inv r"
  shows "\<exists>r'. ring_destroy r = Some (Inr r') \<and> set (buff r') \<subseteq> {None}"
proof -
  obtain r' where "ring_destroy r = Some (Inr r')" "ring_holds r' []"
    using ring_destroy_spec [OF ring_inv_holds [OF assms]] by blast
  then show ?thesis using holds_nil_dead by (auto simp: ring_holds_def)
qed

theorem ring_destroy_destroys_all_witness:
  "\<exists>r'. ring_destroy (snd (try_push (7::nat) (ring_new 2))) = Some (Inr r') \<and> set (buff r') \<subseteq> {None}"
proof (rule ring_destroy_destroys_all)
  show "ring_inv (snd (try_push (7::nat) (ring_new 2)))"
    using ring.push_law [OF ring_new_inv(1) [OF valid_size_2], of "7 :: nat"] by auto
qed

end
