(* ===== verification/Spsc_Concurrent.thy ===== *)
theory Spsc_Concurrent
  imports Spsc_Ring
begin

section \<open>The ring under concurrency\<close>

text \<open>
  The producer and the consumer of put/spsc_ring.h run in two threads. A step is one access to
  memory the other thread may see: a load or store of a published counter, the construction of
  an element in its slot, the moving out and destruction of an element. The caches \<open>prod_tail\<close>
  and \<open>cons_head\<close> are thread local. Steps of the two threads interleave in any order.

  The memory model is the one the code's orders ask for, not sequential consistency. A counter is
  a list of the values stored in it (its modification order, \<open>heads\<close> and \<open>tails\<close>). A thread
  reads the last value of the counter it alone writes, as its relaxed loads do; an acquire load of
  the other counter returns any stored value that is not older than the last one the thread read.
  What orders the slot accesses, which are not atomic, is the acquire load of a release store:
  each slot keeps the stamp of the last access of either thread, the number of release stores that
  thread had made before. The store that follows an access with stamp \<open>n\<close> is entry \<open>n\<close> of the
  list, so the access happens before everything a thread does after it has read entry \<open>n\<close> or a
  later one. An access to a slot with an access of the other thread that does not happen before it
  is a data race, a fault of the thread as the use of a dead element is.

  A \<open>try_push\<close> of one value is the bulk push of a one element list, and \<open>try_consume\<close> of one
  element the bulk consumption of one, so the relation has one family of steps per thread.
  \<open>sent\<close> and \<open>rcvd\<close> record the values published and the values moved out; with the stamps
  they are never read by the code's steps.
\<close>

subsection \<open>States and steps\<close>

datatype 'a prod_pc =
    P_idle
  | P_reload "'a list" u64            \<comment> \<open>about to load the published tail\<close>
  | P_store "'a list" "'a list" u64   \<comment> \<open>elements stored, elements to store, the head loaded\<close>
  | P_fault                           \<comment> \<open>constructed over a live element, or raced\<close>

datatype cons_pc =
    C_idle
  | C_reload u64                      \<comment> \<open>about to load the published head\<close>
  | C_take u64 nat nat                \<comment> \<open>the tail loaded, elements taken, elements to take\<close>
  | C_fault                           \<comment> \<open>used a dead element, or raced\<close>

record 'a spsc =
  the_ring :: "'a ring"
  ppc :: "'a prod_pc"
  cpc :: cons_pc
  sent :: "'a list"
  rcvd :: "'a list"
  heads :: "nat list"      \<comment> \<open>the values stored in \<open>atomic_head_\<close>, unbounded\<close>
  tails :: "nat list"      \<comment> \<open>the values stored in \<open>atomic_tail_\<close>, unbounded\<close>
  p_seen :: nat            \<comment> \<open>the entry of \<open>tails\<close> the producer read last\<close>
  c_seen :: nat            \<comment> \<open>the entry of \<open>heads\<close> the consumer read last\<close>
  p_stamp :: "nat list"    \<comment> \<open>of the producer's last access to each slot\<close>
  c_stamp :: "nat list"    \<comment> \<open>of the consumer's last access to each slot\<close>

definition spsc_init :: "u64 \<Rightarrow> 'a spsc" where
  "spsc_init sz =
     \<lparr>the_ring = ring_new sz, ppc = P_idle, cpc = C_idle, sent = [], rcvd = [],
      heads = [0], tails = [0], p_seen = 0, c_seen = 0,
      p_stamp = replicate (unat sz) 0, c_stamp = replicate (unat sz) 0\<rparr>"

definition push_room :: "'a ring \<Rightarrow> u64 \<Rightarrow> u64" where
  "push_room r h = ring_size r - (h - prod_tail r)"

text \<open>May a thread that has read entry \<open>seen\<close> touch the slot the other thread stamped?\<close>

definition acquired :: "nat list \<Rightarrow> nat \<Rightarrow> nat \<Rightarrow> bool" where
  "acquired stamps p seen \<longleftrightarrow> stamps ! p \<le> seen"

inductive spsc_step :: "'a spsc \<Rightarrow> 'a spsc \<Rightarrow> bool" where
  p_start: "ppc s = P_idle \<Longrightarrow> vs \<noteq> [] \<Longrightarrow> length vs < 2 ^ 64 \<Longrightarrow> h = atomic_head (the_ring s) \<Longrightarrow>
    spsc_step s (s\<lparr>ppc := if push_room (the_ring s) h < of_nat (length vs) then P_reload vs h
                          else P_store [] vs h\<rparr>)"
| p_reload: "ppc s = P_reload vs h \<Longrightarrow> p_seen s \<le> i \<Longrightarrow> i < length (tails s) \<Longrightarrow>
    r = (the_ring s)\<lparr>prod_tail := of_nat (tails s ! i)\<rparr> \<Longrightarrow>
    spsc_step s (s\<lparr>the_ring := r, p_seen := i,
      ppc := if push_room r h = 0 then P_idle
             else P_store [] (take (unat (min (of_nat (length vs)) (push_room r h))) vs) h\<rparr>)"
| p_store: "ppc s = P_store vs (v # us) h \<Longrightarrow> p = slot (the_ring s) (h + of_nat (length vs)) \<Longrightarrow>
    buff (the_ring s) ! p = None \<Longrightarrow> acquired (c_stamp s) p (p_seen s) \<Longrightarrow>
    spsc_step s (s\<lparr>the_ring := (the_ring s)\<lparr>buff := (buff (the_ring s))[p := Some v]\<rparr>,
                   ppc := P_store (vs @ [v]) us h, p_stamp := (p_stamp s)[p := length (heads s)]\<rparr>)"
| p_bad_store: "ppc s = P_store vs (v # us) h \<Longrightarrow> p = slot (the_ring s) (h + of_nat (length vs)) \<Longrightarrow>
    buff (the_ring s) ! p \<noteq> None \<or> \<not> acquired (c_stamp s) p (p_seen s) \<Longrightarrow>
    spsc_step s (s\<lparr>ppc := P_fault\<rparr>)"
| p_publish: "ppc s = P_store vs [] h \<Longrightarrow>
    spsc_step s (s\<lparr>the_ring := (the_ring s)\<lparr>atomic_head := h + of_nat (length vs)\<rparr>,
                   ppc := P_idle, sent := sent s @ vs,
                   heads := heads s @ [length (sent s) + length vs]\<rparr>)"
| c_start: "cpc s = C_idle \<Longrightarrow> t = atomic_tail (the_ring s) \<Longrightarrow>
    cons_head (the_ring s) - t \<noteq> 0 \<Longrightarrow> n \<le> unat (cons_head (the_ring s) - t) \<Longrightarrow>
    spsc_step s (s\<lparr>cpc := C_take t 0 n\<rparr>)"
| c_start_reload: "cpc s = C_idle \<Longrightarrow> t = atomic_tail (the_ring s) \<Longrightarrow>
    cons_head (the_ring s) - t = 0 \<Longrightarrow> spsc_step s (s\<lparr>cpc := C_reload t\<rparr>)"
| c_reload: "cpc s = C_reload t \<Longrightarrow> c_seen s \<le> i \<Longrightarrow> i < length (heads s) \<Longrightarrow>
    r = (the_ring s)\<lparr>cons_head := of_nat (heads s ! i)\<rparr> \<Longrightarrow> n \<le> unat (cons_head r - t) \<Longrightarrow>
    spsc_step s (s\<lparr>the_ring := r, c_seen := i,
      cpc := if cons_head r - t = 0 then C_idle else C_take t 0 n\<rparr>)"
| c_take: "cpc s = C_take t k n \<Longrightarrow> k < n \<Longrightarrow> p = slot (the_ring s) (t + of_nat k) \<Longrightarrow>
    buff (the_ring s) ! p = Some v \<Longrightarrow> acquired (p_stamp s) p (c_seen s) \<Longrightarrow>
    spsc_step s (s\<lparr>the_ring := (the_ring s)\<lparr>buff := (buff (the_ring s))[p := None]\<rparr>,
                   cpc := C_take t (Suc k) n, rcvd := rcvd s @ [v],
                   c_stamp := (c_stamp s)[p := length (tails s)]\<rparr>)"
| c_bad_take: "cpc s = C_take t k n \<Longrightarrow> k < n \<Longrightarrow> p = slot (the_ring s) (t + of_nat k) \<Longrightarrow>
    buff (the_ring s) ! p = None \<or> \<not> acquired (p_stamp s) p (c_seen s) \<Longrightarrow>
    spsc_step s (s\<lparr>cpc := C_fault\<rparr>)"
| c_release: "cpc s = C_take t n n \<Longrightarrow>
    spsc_step s (s\<lparr>the_ring := (the_ring s)\<lparr>atomic_tail := t + of_nat n\<rparr>, cpc := C_idle,
                   tails := tails s @ [last (tails s) + n]\<rparr>)"

inductive spsc_reachable :: "u64 \<Rightarrow> 'a spsc \<Rightarrow> bool" for sz where
  init: "spsc_reachable sz (spsc_init sz)"
| step: "spsc_reachable sz s \<Longrightarrow> spsc_step s s' \<Longrightarrow> spsc_reachable sz s'"

subsection \<open>The invariant\<close>

text \<open>A counter's history: it never decreases, the entry read last is there, and its end.\<close>

definition history :: "nat list \<Rightarrow> nat \<Rightarrow> nat \<Rightarrow> bool" where
  "history xs i hi \<longleftrightarrow> sorted xs \<and> i < length xs \<and> last xs = hi"

lemma history_append:
  assumes "history xs i hi" "hi \<le> hi'"
  shows "history (xs @ [hi']) i hi'" and "(xs @ [hi']) ! i = xs ! i"
proof -
  have "x \<le> hi'" if "x \<in> set xs" for x
  proof -
    obtain j where j: "x = xs ! j" "j < length xs" using \<open>x \<in> set xs\<close> by (metis in_set_conv_nth)
    have "xs ! j \<le> xs ! (length xs - 1)"
      by (rule sorted_nth_mono) (use assms j in \<open>auto simp: history_def\<close>)
    then show ?thesis using j assms by (cases "xs = []") (auto simp: history_def last_conv_nth)
  qed
  then show "history (xs @ [hi']) i hi'" "(xs @ [hi']) ! i = xs ! i"
    using assms by (auto simp: history_def sorted_append nth_append)
qed

lemma history_seen:
  assumes "history xs i hi" "i \<le> j" "j < length xs"
  shows "history xs j hi" "xs ! i \<le> xs ! j" "xs ! j \<le> hi"
proof -
  have "xs ! j \<le> xs ! (length xs - 1)"
    by (rule sorted_nth_mono) (use assms in \<open>auto simp: history_def\<close>)
  then show "xs ! j \<le> hi" using assms by (cases "xs = []") (auto simp: history_def last_conv_nth)
  show "history xs j hi" "xs ! i \<le> xs ! j"
    using assms by (auto simp: history_def intro: sorted_nth_mono)
qed

text \<open>
  The stamps of a thread that has accessed the positions below \<open>w\<close>, in order. The last position
  \<open>p\<close> it accessed in a slot is not yet given to the other thread by an entry read before the one
  after the access; \<open>n\<close> is the number of slots.
\<close>

definition stamped :: "nat list \<Rightarrow> nat list \<Rightarrow> nat \<Rightarrow> nat \<Rightarrow> bool" where
  "stamped stamps xs n w \<longleftrightarrow> 0 < n \<and> length stamps = n \<and> (\<forall>x \<in> set stamps. x \<le> length xs) \<and>
     (\<forall>p. p < w \<longrightarrow> w \<le> p + n \<longrightarrow> (\<forall>j < stamps ! (p mod n). xs ! j \<le> p)) \<and>
     (\<forall>i < n. w \<le> i \<longrightarrow> stamps ! i = 0)"

lemma stamped_stamp_le: "stamped st xs n w \<Longrightarrow> st ! (p mod n) \<le> length xs"
  by (simp add: stamped_def)

text \<open>Whoever has read an entry beyond a position has acquired the accesses up to it.\<close>

lemma stamped_acquired:
  assumes "stamped st xs n w" "p < w" "w \<le> p + n" "p < xs ! i"
  shows "acquired st (p mod n) i"
  using assms unfolding stamped_def acquired_def by (meson not_le)

lemma stamped_reuse:
  assumes st: "stamped st xs n w" and "w \<le> p" "p < xs ! i + n" "xs ! i \<le> w"
  shows "acquired st (p mod n) i"
proof (cases "n \<le> p")
  case True
  then have "acquired st ((p - n) mod n) i"
    by (intro stamped_acquired [OF st]) (use assms True in auto)
  then show ?thesis using True by (simp add: le_mod_geq)
next
  case False
  then show ?thesis using assms by (auto simp: stamped_def acquired_def)
qed

lemma stamped_publish:
  assumes "stamped st xs n w"
  shows "stamped st (xs @ [y]) n w"
  unfolding stamped_def
proof (intro conjI allI impI)
  fix p j
  assume "p < w" "w \<le> p + n" "j < st ! (p mod n)"
  moreover from this have "j < length xs" using stamped_stamp_le [OF assms, of p] by simp
  ultimately show "(xs @ [y]) ! j \<le> p" using assms by (simp add: stamped_def nth_append)
qed (use assms in \<open>auto simp: stamped_def\<close>)

lemma stamped_access:
  assumes st: "stamped st xs n w" and "history xs i hi" "hi \<le> w"
  shows "stamped (st[w mod n := length xs]) xs n (Suc w)"
proof -
  have n: "0 < n" "length st = n" using st by (auto simp: stamped_def)
  have xs: "xs ! j \<le> w" if "j < length xs" for j
  proof -
    have "history xs 0 hi" using assms(2) by (auto simp: history_def)
    then show ?thesis using history_seen(3) [of xs 0 hi j] that assms(3) by simp
  qed
  have "xs ! j \<le> p"
    if "p < Suc w" "Suc w \<le> p + n" "j < st[w mod n := length xs] ! (p mod n)" for p j
  proof (cases "p = w")
    case True
    then show ?thesis using that n xs by simp
  next
    case False
    have "p mod n \<noteq> w mod n"
    proof
      assume "p mod n = w mod n"
      then have "n dvd w - p" using that False by (metis mod_eq_dvd_iff_nat less_Suc_eq_le)
      then show False using that False by (auto dest: dvd_imp_le)
    qed
    then show ?thesis using st that False by (simp add: stamped_def)
  qed
  moreover have "st[w mod n := length xs] ! i = 0" if "i < n" "Suc w \<le> i" for i
    using st that n by (auto simp: stamped_def nth_list_update)
  moreover have "x \<le> length xs" if "x \<in> set (st[w mod n := length xs])" for x
    using st that set_update_subset_insert [of st "w mod n" "length xs"] by (auto simp: stamped_def)
  ultimately show ?thesis using n by (simp add: stamped_def)
qed

fun stored :: "'a prod_pc \<Rightarrow> 'a list" where
  "stored (P_store vs us h) = vs"
| "stored _ = []"

text \<open>With the numbers of values sent and received, the tail, the caches and the ring's size.\<close>

fun ppc_inv :: "nat \<Rightarrow> nat \<Rightarrow> 'a prod_pc \<Rightarrow> bool" where
  "ppc_inv n room P_idle = True"
| "ppc_inv n room (P_reload vs h) = (h = of_nat n \<and> length vs < 2 ^ 64)"
| "ppc_inv n room (P_store vs us h) = (h = of_nat n \<and> n + length vs + length us \<le> room)"
| "ppc_inv n room P_fault = False"

fun cpc_inv :: "nat \<Rightarrow> nat \<Rightarrow> nat \<Rightarrow> cons_pc \<Rightarrow> bool" where
  "cpc_inv m lo hi C_idle = (m = lo)"
| "cpc_inv m lo hi (C_reload t) = (t = of_nat lo \<and> m = lo)"
| "cpc_inv m lo hi (C_take t k n) = (t = of_nat lo \<and> m = lo + k \<and> k \<le> n \<and> lo + n \<le> hi)"
| "cpc_inv m lo hi C_fault = False"

text \<open>The tail the producer has acquired, the head the consumer has.\<close>

abbreviation g_ptail :: "'a spsc \<Rightarrow> nat" where "g_ptail s \<equiv> tails s ! p_seen s"
abbreviation g_chead :: "'a spsc \<Rightarrow> nat" where "g_chead s \<equiv> heads s ! c_seen s"
abbreviation g_tail :: "'a spsc \<Rightarrow> nat" where "g_tail s \<equiv> last (tails s)"
abbreviation slots :: "'a spsc \<Rightarrow> nat" where "slots s \<equiv> length (buff (the_ring s))"

definition spsc_inv :: "'a spsc \<Rightarrow> bool" where
  "spsc_inv s \<longleftrightarrow>
     atomic_head (the_ring s) = of_nat (length (sent s)) \<and>
     atomic_tail (the_ring s) = of_nat (g_tail s) \<and>
     prod_tail (the_ring s) = of_nat (g_ptail s) \<and>
     cons_head (the_ring s) = of_nat (g_chead s) \<and>
     history (heads s) (c_seen s) (length (sent s)) \<and>
     history (tails s) (p_seen s) (g_tail s) \<and>
     g_tail s \<le> length (rcvd s) \<and> length (rcvd s) \<le> g_chead s \<and>
     length (sent s) \<le> g_ptail s + slots s \<and>
     rcvd s = take (length (rcvd s)) (sent s) \<and>
     holds (buff (the_ring s)) (of_nat (length (rcvd s)))
       (drop (length (rcvd s)) (sent s @ stored (ppc s))) \<and>
     ppc_inv (length (sent s)) (g_ptail s + slots s) (ppc s) \<and>
     cpc_inv (length (rcvd s)) (g_tail s) (g_chead s) (cpc s)"

text \<open>Who has accessed which slot, and what the other thread has acquired of it.\<close>

definition stamp_inv :: "'a spsc \<Rightarrow> bool" where
  "stamp_inv s \<longleftrightarrow>
     stamped (p_stamp s) (heads s) (slots s) (length (sent s) + length (stored (ppc s))) \<and>
     stamped (c_stamp s) (tails s) (slots s) (length (rcvd s))"

lemma unat_diff_of_nat:
  assumes "a \<le> b" "b \<le> a + n" "n < 2 ^ 64"
  shows "unat (of_nat b - of_nat a :: u64) = b - a"
proof -
  have "(of_nat b - of_nat a :: u64) = of_nat (b - a)" using assms(1) by (simp add: of_nat_diff)
  also have "unat (of_nat (b - a) :: u64) = b - a"
    by (rule unat_of_nat_less) (use assms in simp)
  finally show ?thesis .
qed

lemma spsc_inv_size:
  assumes "spsc_inv s"
  shows "\<exists>k<64. length (buff (the_ring s)) = 2 ^ k" and "length (buff (the_ring s)) < 2 ^ 64"
    and "unat (ring_size (the_ring s)) = length (buff (the_ring s))"
proof -
  have "holds (buff (the_ring s)) (of_nat (length (rcvd s)))
      (drop (length (rcvd s)) (sent s @ stored (ppc s)))"
    using assms unfolding spsc_inv_def by blast
  then show p2: "\<exists>k<64. length (buff (the_ring s)) = 2 ^ k" by (rule holds_pow2)
  show "length (buff (the_ring s)) < 2 ^ 64" by (rule pow2_length_facts(2) [OF p2])
  show "unat (ring_size (the_ring s)) = length (buff (the_ring s))" by (rule unat_ring_size [OF p2])
qed

text \<open>The positions in order; an entry read later is not older and not beyond the end.\<close>

lemma inv_bounds:
  assumes "spsc_inv s"
  shows "g_ptail s \<le> g_tail s" "g_tail s \<le> length (rcvd s)" "length (rcvd s) \<le> g_chead s"
    "g_chead s \<le> length (sent s)" "length (sent s) \<le> g_ptail s + slots s"
    "p_seen s < length (tails s)" "c_seen s < length (heads s)" "g_ptail s \<le> length (sent s)"
proof -
  show *: "g_ptail s \<le> g_tail s" "g_tail s \<le> length (rcvd s)" "length (rcvd s) \<le> g_chead s"
    "g_chead s \<le> length (sent s)" "length (sent s) \<le> g_ptail s + slots s"
    "p_seen s < length (tails s)" "c_seen s < length (heads s)"
    using assms history_seen(3) [of "tails s" "p_seen s" "g_tail s" "p_seen s"]
      history_seen(3) [of "heads s" "c_seen s" "length (sent s)" "c_seen s"]
    by (auto simp: spsc_inv_def history_def)
  show "g_ptail s \<le> length (sent s)" using * by linarith
qed

lemma push_room_eq:
  assumes "prod_tail r = of_nat a" "a \<le> b" "b \<le> a + length (buff r)"
    and "\<exists>k<64. length (buff r) = 2 ^ k"
  shows "unat (push_room r (of_nat b)) = a + length (buff r) - b"
proof -
  have n: "unat (ring_size r) = length (buff r)" by (rule unat_ring_size [OF assms(4)])
  have d: "unat (of_nat b - of_nat a :: u64) = b - a"
    by (rule unat_diff_of_nat [OF assms(2,3) pow2_length_facts(2) [OF assms(4)]])
  then have "of_nat b - of_nat a \<le> ring_size r"
    using n assms(2,3) by (simp add: word_le_nat_alt)
  then show ?thesis
    using n d assms(1-3) by (simp add: push_room_def unat_sub)
qed

text \<open>Starting a push: the room that the cached tail leaves is really there.\<close>

lemma inv_p_start:
  assumes "spsc_inv s" "ppc s = P_idle" "length vs < 2 ^ 64" "h = atomic_head (the_ring s)"
  shows "spsc_inv (s\<lparr>ppc := if push_room (the_ring s) h < of_nat (length vs) then P_reload vs h
                          else P_store [] vs h\<rparr>)"
proof -
  have room: "unat (push_room (the_ring s) h) = g_ptail s + length (buff (the_ring s)) - length (sent s)"
    unfolding assms(4) using assms(1) push_room_eq [OF _ _ _ spsc_inv_size(1) [OF assms(1)]]
      inv_bounds [OF assms(1)] by (simp add: spsc_inv_def)
  have "unat (of_nat (length vs) :: u64) = length vs" using assms(3) by (simp add: unat_of_nat_less)
  then show ?thesis
    using assms room by (auto simp: spsc_inv_def word_less_nat_alt not_less)
qed

lemma inv_p_reload:
  assumes inv: "spsc_inv s" and pc: "ppc s = P_reload vs h"
    and i: "p_seen s \<le> i" "i < length (tails s)"
    and r: "r = (the_ring s)\<lparr>prod_tail := of_nat (tails s ! i)\<rparr>"
  shows "spsc_inv (s\<lparr>the_ring := r, p_seen := i,
      ppc := if push_room r h = 0 then P_idle
             else P_store [] (take (unat (min (of_nat (length vs)) (push_room r h))) vs) h\<rparr>)"
proof -
  have h: "h = of_nat (length (sent s))" using inv pc by (simp add: spsc_inv_def)
  have hist: "history (tails s) (p_seen s) (g_tail s)" using inv by (simp add: spsc_inv_def)
  note seen = history_seen [OF hist i] and bounds = inv_bounds [OF inv]
  have room: "unat (push_room r h) = tails s ! i + length (buff r) - length (sent s)"
    unfolding h by (rule push_room_eq) (use r spsc_inv_size(1) [OF inv] seen bounds in auto)
  have "unat (min (of_nat (length vs)) (push_room r h)) \<le> unat (push_room r h)"
    by (simp add: min_def word_le_nat_alt)
  then show ?thesis
    using inv pc room r seen bounds by (auto simp: spsc_inv_def)
qed

lemma slot_position:
  assumes "\<exists>k<64. length (buff r) = 2 ^ k"
  shows "slot r (of_nat p) = p mod length (buff r)"
proof -
  have "slot r (of_nat p) = p mod 2 ^ 64 mod length (buff r)"
    using slot_eq [OF assms] by (simp add: unat_of_nat)
  also have "\<dots> = p mod length (buff r)" by (rule mod_mod_cancel [OF pow2_length_facts(3) [OF assms]])
  finally show ?thesis .
qed

text \<open>The slot of the next element to store, and of the next element to take.\<close>

lemma store_slot:
  assumes inv: "spsc_inv s" and pc: "ppc s = P_store vs (v # us) h"
  defines "xs \<equiv> drop (length (rcvd s)) (sent s @ vs)"
  shows "slot (the_ring s) (h + of_nat (length vs)) =
           (unat (of_nat (length (rcvd s)) :: u64) + length xs) mod length (buff (the_ring s))"
    and "length xs < length (buff (the_ring s))"
    and "holds (buff (the_ring s)) (of_nat (length (rcvd s))) xs"
proof -
  note p2 = spsc_inv_size(1) [OF inv]
  have le: "length (rcvd s) \<le> length (sent s)" using inv_bounds [OF inv] by simp
  have h: "h = of_nat (length (sent s))" using inv pc by (simp add: spsc_inv_def)
  have "h + of_nat (length vs) = of_nat (length (rcvd s)) + of_nat (length xs)"
    unfolding h xs_def using le by (simp flip: of_nat_add)
  then show "slot (the_ring s) (h + of_nat (length vs)) =
      (unat (of_nat (length (rcvd s)) :: u64) + length xs) mod length (buff (the_ring s))"
    using slot_eq [OF p2] unat_add_mod_pow2 [OF p2] by simp
  show "length xs < length (buff (the_ring s))"
    using inv pc inv_bounds [OF inv] by (auto simp: spsc_inv_def xs_def)
  show "holds (buff (the_ring s)) (of_nat (length (rcvd s))) xs"
    using inv unfolding spsc_inv_def pc xs_def stored.simps by blast
qed

lemma take_slot:
  assumes inv: "spsc_inv s" and pc: "cpc s = C_take t k n" "k < n"
  shows "slot (the_ring s) (t + of_nat k) =
           unat (of_nat (length (rcvd s)) :: u64) mod length (buff (the_ring s))"
    and "length (rcvd s) < length (sent s)"
proof -
  note p2 = spsc_inv_size(1) [OF inv]
  have "t + of_nat k = of_nat (length (rcvd s))" using inv pc by (simp add: spsc_inv_def)
  then show "slot (the_ring s) (t + of_nat k) =
      unat (of_nat (length (rcvd s)) :: u64) mod length (buff (the_ring s))"
    using slot_eq [OF p2] by simp
  show "length (rcvd s) < length (sent s)" using inv pc inv_bounds [OF inv] by (simp add: spsc_inv_def)
qed

lemma store_slot_position:
  assumes "spsc_inv s" "ppc s = P_store vs (v # us) h"
  shows "slot (the_ring s) (h + of_nat (length vs)) = (length (sent s) + length vs) mod slots s"
  using assms slot_position [OF spsc_inv_size(1) [OF assms(1)], of "length (sent s) + length vs"]
  by (simp add: spsc_inv_def)

lemma take_slot_position:
  assumes "spsc_inv s" "cpc s = C_take t k n" "k < n"
  shows "slot (the_ring s) (t + of_nat k) = length (rcvd s) mod slots s"
  using assms slot_position [OF spsc_inv_size(1) [OF assms(1)], of "length (rcvd s)"]
  by (simp add: spsc_inv_def)

lemma store_slot_dead:
  assumes "spsc_inv s" "ppc s = P_store vs (v # us) h"
  shows "buff (the_ring s) ! slot (the_ring s) (h + of_nat (length vs)) = None"
  using store_slot [OF assms] holds_nth [OF store_slot(3) [OF assms] store_slot(2) [OF assms]] by simp

lemma inv_p_store:
  assumes inv: "spsc_inv s" and pc: "ppc s = P_store vs (v # us) h"
    and p: "p = slot (the_ring s) (h + of_nat (length vs))"
  shows "spsc_inv (s\<lparr>the_ring := (the_ring s)\<lparr>buff := (buff (the_ring s))[p := Some v]\<rparr>,
                     ppc := P_store (vs @ [v]) us h, p_stamp := ps\<rparr>)"
proof -
  note st = store_slot [OF inv pc]
  have le: "length (rcvd s) \<le> length (sent s @ vs)" using inv_bounds [OF inv] by simp
  have "holds ((buff (the_ring s))[p := Some v]) (of_nat (length (rcvd s)))
      (drop (length (rcvd s)) (sent s @ vs) @ [v])"
    unfolding p st(1) by (rule holds_push [OF st(3,2)])
  then have "holds ((buff (the_ring s))[p := Some v]) (of_nat (length (rcvd s)))
      (drop (length (rcvd s)) (sent s @ vs @ [v]))"
    using le by simp
  then show ?thesis using inv pc by (auto simp: spsc_inv_def)
qed

lemma drop_length_rcvd:
  assumes inv: "spsc_inv s" and lt: "length (rcvd s) < length (sent s)"
  shows "drop (length (rcvd s)) (sent s @ stored (ppc s)) =
    sent s ! length (rcvd s) # drop (Suc (length (rcvd s))) (sent s @ stored (ppc s))"
  using lt by (simp add: Cons_nth_drop_Suc [symmetric] nth_append)

lemma next_taken:
  assumes "spsc_inv s" "length (rcvd s) < length (sent s)"
  shows "holds (buff (the_ring s)) (of_nat (length (rcvd s)))
    (sent s ! length (rcvd s) # drop (Suc (length (rcvd s))) (sent s @ stored (ppc s)))"
  using assms(1) unfolding drop_length_rcvd [OF assms, symmetric] spsc_inv_def by blast

lemma take_slot_live:
  assumes "spsc_inv s" "cpc s = C_take t k n" "k < n"
  shows "buff (the_ring s) ! slot (the_ring s) (t + of_nat k) = Some (sent s ! length (rcvd s))"
  using holds_pop(1) [OF next_taken [OF assms(1) take_slot(2) [OF assms]]] take_slot(1) [OF assms]
  by simp

lemma inv_c_take:
  assumes inv: "spsc_inv s" and pc: "cpc s = C_take t k n" "k < n"
    and p: "p = slot (the_ring s) (t + of_nat k)" "buff (the_ring s) ! p = Some v"
  shows "spsc_inv (s\<lparr>the_ring := (the_ring s)\<lparr>buff := (buff (the_ring s))[p := None]\<rparr>,
                     cpc := C_take t (Suc k) n, rcvd := rcvd s @ [v], c_stamp := cs\<rparr>)"
proof -
  let ?R = "length (rcvd s)"
  have lt: "?R < length (sent s)" by (rule take_slot(2) [OF inv pc])
  have v: "v = sent s ! ?R" using take_slot_live [OF inv pc] p by simp
  note pop = holds_pop(2) [OF next_taken [OF inv lt]]
  have hold: "holds ((buff (the_ring s))[p := None]) (of_nat (Suc ?R)) (drop (Suc ?R) (sent s @ stored (ppc s)))"
    using pop unfolding p(1) take_slot(1) [OF inv pc] by (simp only: of_nat_Suc add.commute)
  have pre: "rcvd s @ [v] = take (Suc ?R) (sent s)"
    using inv lt v by (simp add: spsc_inv_def take_Suc_conv_app_nth)
  with hold lt show ?thesis
    using inv pc by (auto simp: spsc_inv_def)
qed

lemma inv_p_publish:
  assumes inv: "spsc_inv s" and pc: "ppc s = P_store vs [] h"
  shows "spsc_inv (s\<lparr>the_ring := (the_ring s)\<lparr>atomic_head := h + of_nat (length vs)\<rparr>,
                     ppc := P_idle, sent := sent s @ vs,
                     heads := heads s @ [length (sent s) + length vs]\<rparr>)"
proof -
  have h: "holds (buff (the_ring s)) (of_nat (length (rcvd s))) (drop (length (rcvd s)) (sent s @ vs))"
    using inv unfolding spsc_inv_def pc stored.simps by blast
  have r: "rcvd s = take (length (rcvd s)) (sent s @ vs)"
    using inv inv_bounds [OF inv] by (simp add: spsc_inv_def)
  have "history (heads s) (c_seen s) (length (sent s))" using inv by (simp add: spsc_inv_def)
  note hist = history_append [OF this, of "length (sent s) + length vs"]
  show ?thesis using inv pc h r hist by (auto simp: spsc_inv_def)
qed

lemma inv_c_release:
  assumes inv: "spsc_inv s" and pc: "cpc s = C_take t n n"
  shows "spsc_inv (s\<lparr>the_ring := (the_ring s)\<lparr>atomic_tail := t + of_nat n\<rparr>, cpc := C_idle,
                     tails := tails s @ [last (tails s) + n]\<rparr>)"
proof -
  have "history (tails s) (p_seen s) (g_tail s)" using inv by (simp add: spsc_inv_def)
  note hist = history_append [OF this, of "g_tail s + n"]
  show ?thesis using inv pc hist by (auto simp: spsc_inv_def)
qed

text \<open>What the consumer sees available between the tail and a published head.\<close>

lemma seen_avail:
  assumes "spsc_inv s" "g_tail s \<le> m" "m \<le> length (sent s)"
  shows "unat (of_nat m - of_nat (g_tail s) :: u64) = m - g_tail s"
  by (rule unat_diff_of_nat [OF assms(2) _ spsc_inv_size(2) [OF assms(1)]])
     (use assms inv_bounds [OF assms(1)] in auto)

lemma inv_c_start:
  assumes inv: "spsc_inv s" and pc: "cpc s = C_idle" and t: "t = atomic_tail (the_ring s)"
    and n: "n \<le> unat (cons_head (the_ring s) - t)"
  shows "spsc_inv (s\<lparr>cpc := C_take t 0 n\<rparr>)"
proof -
  have "unat (cons_head (the_ring s) - t) = g_chead s - g_tail s"
    using seen_avail [OF inv, of "g_chead s"] inv_bounds [OF inv] inv t by (simp add: spsc_inv_def)
  then show ?thesis using inv pc t n by (auto simp: spsc_inv_def)
qed

lemma inv_c_reload:
  assumes inv: "spsc_inv s" and pc: "cpc s = C_reload t"
    and i: "c_seen s \<le> i" "i < length (heads s)"
    and r: "r = (the_ring s)\<lparr>cons_head := of_nat (heads s ! i)\<rparr>" and n: "n \<le> unat (cons_head r - t)"
  shows "spsc_inv (s\<lparr>the_ring := r, c_seen := i,
      cpc := if cons_head r - t = 0 then C_idle else C_take t 0 n\<rparr>)"
proof -
  have hist: "history (heads s) (c_seen s) (length (sent s))" using inv by (simp add: spsc_inv_def)
  note seen = history_seen [OF hist i] and bounds = inv_bounds [OF inv]
  have "unat (cons_head r - t) = heads s ! i - g_tail s"
    using seen_avail [OF inv, of "heads s ! i"] seen bounds inv pc r by (simp add: spsc_inv_def)
  then show ?thesis using inv pc r n seen bounds by (auto simp: spsc_inv_def)
qed

subsection \<open>What a slot access needs has been acquired\<close>

lemma store_acquired:
  assumes inv: "spsc_inv s" and st: "stamp_inv s" and pc: "ppc s = P_store vs (v # us) h"
  shows "acquired (c_stamp s) (slot (the_ring s) (h + of_nat (length vs))) (p_seen s)"
  unfolding store_slot_position [OF inv pc]
proof (rule stamped_reuse)
  show "stamped (c_stamp s) (tails s) (slots s) (length (rcvd s))" using st by (simp add: stamp_inv_def)
qed (use inv pc inv_bounds [OF inv] in \<open>auto simp: spsc_inv_def\<close>)

lemma take_acquired:
  assumes inv: "spsc_inv s" and st: "stamp_inv s" and pc: "cpc s = C_take t k n" "k < n"
  shows "acquired (p_stamp s) (slot (the_ring s) (t + of_nat k)) (c_seen s)"
  unfolding take_slot_position [OF inv pc]
proof (rule stamped_acquired)
  show "stamped (p_stamp s) (heads s) (slots s) (length (sent s) + length (stored (ppc s)))"
    using st by (simp add: stamp_inv_def)
  show "length (sent s) + length (stored (ppc s)) \<le> length (rcvd s) + slots s"
    using inv inv_bounds [OF inv] by (cases "ppc s") (auto simp: spsc_inv_def)
qed (use inv pc take_slot(2) [OF inv pc] in \<open>auto simp: spsc_inv_def\<close>)

lemma stamp_p_store:
  assumes inv: "spsc_inv s" and st: "stamp_inv s" and pc: "ppc s = P_store vs (v # us) h"
    and p: "p = slot (the_ring s) (h + of_nat (length vs))"
  shows "stamp_inv (s\<lparr>the_ring := (the_ring s)\<lparr>buff := (buff (the_ring s))[p := Some v]\<rparr>,
                      ppc := P_store (vs @ [v]) us h, p_stamp := (p_stamp s)[p := length (heads s)]\<rparr>)"
  unfolding p store_slot_position [OF inv pc]
  using stamped_access [of "p_stamp s" "heads s" "slots s" "length (sent s) + length vs" "c_seen s" "length (sent s)"]
    inv st pc by (simp add: stamp_inv_def spsc_inv_def)

lemma stamp_c_take:
  assumes inv: "spsc_inv s" and st: "stamp_inv s" and pc: "cpc s = C_take t k n" "k < n"
    and p: "p = slot (the_ring s) (t + of_nat k)"
  shows "stamp_inv (s\<lparr>the_ring := (the_ring s)\<lparr>buff := (buff (the_ring s))[p := None]\<rparr>,
                      cpc := C_take t (Suc k) n, rcvd := rcvd s @ [v],
                      c_stamp := (c_stamp s)[p := length (tails s)]\<rparr>)"
  unfolding p take_slot_position [OF inv pc]
  using stamped_access [of "c_stamp s" "tails s" "slots s" "length (rcvd s)" "p_seen s" "g_tail s"]
    inv st by (simp add: stamp_inv_def spsc_inv_def)

lemmas spsc_step_inv_lemmas =
  inv_p_start inv_p_reload inv_p_store inv_p_publish inv_c_start inv_c_reload inv_c_take inv_c_release

lemma spsc_step_inv: "spsc_step s s' \<Longrightarrow> spsc_inv s \<Longrightarrow> stamp_inv s \<Longrightarrow> spsc_inv s'"
proof (induction rule: spsc_step.induct)
  case (p_bad_store s vs v us h p)
  then show ?case using store_slot_dead [of s vs v us h] store_acquired [of s vs v us h] by simp
next
  case (c_bad_take s t k n p)
  then show ?case using take_slot_live [of s t k n] take_acquired [of s t k n] by simp
next
  case (c_start_reload s t)
  then show ?case by (auto simp: spsc_inv_def)
qed (blast intro: spsc_step_inv_lemmas)+

lemma spsc_step_stamp_inv: "spsc_step s s' \<Longrightarrow> spsc_inv s \<Longrightarrow> stamp_inv s \<Longrightarrow> stamp_inv s'"
proof (induction rule: spsc_step.induct)
  case (p_store s vs v us h p)
  then show ?case by (blast intro: stamp_p_store)
next
  case (c_take s t k n p v)
  then show ?case by (blast intro: stamp_c_take)
next
  case (p_bad_store s vs v us h p)
  then show ?case using store_slot_dead [of s vs v us h] store_acquired [of s vs v us h] by simp
next
  case (p_publish s vs h)
  then show ?case by (auto simp: stamp_inv_def intro: stamped_publish)
next
  case (c_release s t n)
  then show ?case by (auto simp: stamp_inv_def intro: stamped_publish)
qed (auto simp: stamp_inv_def)

lemma spsc_init_inv:
  assumes "valid_size sz"
  shows "spsc_inv (spsc_init sz :: 'a spsc)"
proof -
  have "ring_holds (ring_new sz :: 'a ring) []"
    using ring_new_inv [where 'a = 'a, OF assms] ring_inv_holds by metis
  then show ?thesis
    by (simp add: spsc_inv_def history_def spsc_init_def ring_new_def ring_holds_def)
qed

lemma spsc_init_stamp_inv:
  assumes "valid_size sz"
  shows "stamp_inv (spsc_init sz :: 'a spsc)"
proof -
  have "slots (spsc_init sz :: 'a spsc) = unat sz" by (simp add: spsc_init_def ring_new_def)
  moreover have "0 < slots (spsc_init sz :: 'a spsc)"
    using spsc_inv_size(1) [OF spsc_init_inv [where 'a = 'a, OF assms]] by auto
  ultimately show ?thesis by (auto simp: stamp_inv_def stamped_def spsc_init_def)
qed

lemma spsc_step_buff_length:
  "spsc_step s s' \<Longrightarrow> length (buff (the_ring s')) = length (buff (the_ring s))"
  by (induction rule: spsc_step.induct) simp_all

lemma spsc_reachable_inv:
  assumes "spsc_reachable sz s" "valid_size sz"
  shows "spsc_inv s" and "stamp_inv s" and "slots s = unat sz"
proof -
  from assms(1) have "spsc_inv s \<and> stamp_inv s \<and> slots s = unat sz"
  proof (induction rule: spsc_reachable.induct)
    case init
    then show ?case using spsc_init_inv [OF assms(2)] spsc_init_stamp_inv [OF assms(2)]
      by (simp add: spsc_init_def ring_new_def)
  next
    case (step s s')
    then show ?case using spsc_step_inv spsc_step_stamp_inv spsc_step_buff_length by metis
  qed
  then show "spsc_inv s" and "stamp_inv s" and "slots s = unat sz" by simp_all
qed

subsection \<open>Properties\<close>

text \<open>
  Claim C6. In every reachable interleaving of the producer and the consumer, whichever of the
  stored counters their acquire loads return, neither thread faults: the producer never
  constructs over a live element, the consumer never moves out of a dead one, and every access to
  a slot happens after the other thread's last access to it. When one is about to construct an
  element and the other to take one they work on different slots: the accesses never race.
\<close>

theorem spsc_no_race:
  assumes "spsc_reachable sz s" "valid_size sz"
  shows "ppc s \<noteq> P_fault \<and> cpc s \<noteq> C_fault \<and>
    (\<forall>vs v us h t k n. ppc s = P_store vs (v # us) h \<and> cpc s = C_take t k n \<and> k < n \<longrightarrow>
       slot (the_ring s) (h + of_nat (length vs)) \<noteq> slot (the_ring s) (t + of_nat k))"
proof -
  note inv = spsc_reachable_inv(1) [OF assms]
  have "ppc s \<noteq> P_fault" "cpc s \<noteq> C_fault" using inv by (auto simp: spsc_inv_def)
  moreover have "slot (the_ring s) (h + of_nat (length vs)) \<noteq> slot (the_ring s) (t + of_nat k)"
    if "ppc s = P_store vs (v # us) h" "cpc s = C_take t k n" "k < n" for vs v us h t k n
    using store_slot_dead [OF inv that(1)] take_slot_live [OF inv that(2,3)] by auto
  ultimately show ?thesis by blast
qed

text \<open>The values published and not yet moved out.\<close>

definition in_flight :: "'a spsc \<Rightarrow> 'a list" where
  "in_flight s = drop (length (rcvd s)) (sent s)"

lemma in_flight_split:
  assumes "spsc_reachable sz s" "valid_size sz"
  shows "sent s = rcvd s @ in_flight s" and "length (in_flight s) \<le> unat sz"
proof -
  note inv = spsc_reachable_inv [OF assms]
  show "sent s = rcvd s @ in_flight s"
    using inv(1) unfolding spsc_inv_def in_flight_def by (metis append_take_drop_id)
  show "length (in_flight s) \<le> unat sz"
    using inv_bounds [OF inv(1)] inv(3) by (simp add: in_flight_def)
qed

text \<open>The step of the abstract queue that a step of the two threads is.\<close>

lemma spsc_step_event:
  assumes "spsc_step s s'" "spsc_inv s" "stamp_inv s"
  shows "\<exists>ev. queue_step (slots s) ev (in_flight s) (in_flight s') \<and>
    sent s' = sent s @ ev_appended ev \<and> rcvd s' = rcvd s @ ev_taken ev"
  using assms
proof (induction rule: spsc_step.induct)
  case (p_publish s vs h)
  have "length (in_flight s) + length vs \<le> slots s"
  proof -
    have "length (sent s) + length vs \<le> g_ptail s + slots s"
      using p_publish by (simp add: spsc_inv_def)
    then show ?thesis
      using inv_bounds [OF p_publish(2)] unfolding in_flight_def length_drop by linarith
  qed
  then show ?case using inv_bounds [OF p_publish(2)]
    by (intro exI [of _ "Append vs"]) (simp add: in_flight_def)
next
  case (c_take s t k n p v)
  have "v = sent s ! length (rcvd s)" "length (rcvd s) < length (sent s)"
    using c_take take_slot_live [of s t k n] take_slot(2) [of s t k n] by auto
  then have "in_flight s = v # drop (Suc (length (rcvd s))) (sent s)"
    by (simp add: in_flight_def Cons_nth_drop_Suc)
  then show ?case by (intro exI [of _ "Take v"]) (simp add: in_flight_def)
qed (auto intro!: exI [of _ Silent] simp: in_flight_def)

text \<open>
  Claim C7. The ring in two threads refines an abstract queue whose operations are atomic. In
  every reachable interleaving the queue's list is what was sent and not yet received, never more
  than the capacity, and every step of either thread, whichever stored counter its acquire load
  returns, is a step of the queue: publishing appends a batch that fits, moving an element out
  takes the oldest one, and every other step leaves the queue as it is.
\<close>

theorem spsc_concurrent_fifo:
  assumes "spsc_reachable sz s" "valid_size sz"
  shows "sent s = rcvd s @ in_flight s \<and> length (in_flight s) \<le> unat sz \<and>
    (\<forall>s'. spsc_step s s' \<longrightarrow>
      (\<exists>ev. queue_step (unat sz) ev (in_flight s) (in_flight s') \<and>
        sent s' = sent s @ ev_appended ev \<and> rcvd s' = rcvd s @ ev_taken ev))"
  using in_flight_split [OF assms] spsc_step_event [of s] spsc_reachable_inv [OF assms] by simp

text \<open>
  A run that reaches a state where the producer is about to store its second value while the
  consumer is about to take the first.
\<close>

lemma ring_new_2:
  "ring_new 2 = \<lparr>atomic_head = 0, prod_tail = 0, atomic_tail = 0, cons_head = 0, buff = [None, None]\<rparr>"
proof -
  have "replicate (Suc (Suc 0)) None = [None, None]" by simp
  then show ?thesis by (simp add: ring_new_def flip: numeral_2_eq_2)
qed

lemma spsc_init_2:
  "spsc_init 2 =
     \<lparr>the_ring = ring_new 2, ppc = P_idle, cpc = C_idle, sent = [], rcvd = [], heads = [0],
      tails = [0], p_seen = 0, c_seen = 0, p_stamp = [0, 0], c_stamp = [0, 0]\<rparr>"
proof -
  have "replicate (Suc (Suc 0)) (0 :: nat) = [0, 0]" by simp
  then show ?thesis by (simp add: spsc_init_def flip: numeral_2_eq_2)
qed

lemma spsc_run_example:
  obtains s where "spsc_reachable 2 s" "ppc s = P_store [] [8 :: nat] 1" "cpc s = C_take 0 0 1"
    "sent s = [7]" "rcvd s = []"
proof -
  note defs = spsc_init_2 ring_new_2 push_room_def ring_size_def size_mask_def slot_def acquired_def
  have s0: "spsc_reachable 2 (spsc_init 2)" by (rule spsc_reachable.init)
  obtain s1 where s1: "spsc_reachable 2 s1"
      "s1 = (spsc_init 2)\<lparr>ppc := P_store [] [7 :: nat] 0\<rparr>"
    using spsc_reachable.step [OF s0 spsc_step.p_start [of _ "[7 :: nat]" 0]] by (auto simp: defs)
  obtain s2 where s2: "spsc_reachable 2 s2" "s2 = s1\<lparr>the_ring := (the_ring s1)\<lparr>buff := [Some 7, None]\<rparr>,
      ppc := P_store [7] [] 0, p_stamp := [1, 0]\<rparr>"
    using spsc_reachable.step [OF s1(1) spsc_step.p_store [of _ "[]" 7 "[]" 0 0]] s1(2)
    by (auto simp: defs)
  obtain s3 where s3: "spsc_reachable 2 s3" "s3 = s2\<lparr>the_ring := (the_ring s2)\<lparr>atomic_head := 1\<rparr>,
      ppc := P_idle, sent := [7], heads := [0, 1]\<rparr>"
    using spsc_reachable.step [OF s2(1) spsc_step.p_publish [of _ "[7]" 0]] s2(2) s1(2)
    by (auto simp: defs)
  obtain s4 where s4: "spsc_reachable 2 s4" "s4 = s3\<lparr>ppc := P_store [] [8] 1\<rparr>"
    using spsc_reachable.step [OF s3(1) spsc_step.p_start [of _ "[8 :: nat]" 1]] s3(2) s2(2) s1(2)
    by (auto simp: defs)
  obtain s5 where s5: "spsc_reachable 2 s5" "s5 = s4\<lparr>cpc := C_reload 0\<rparr>"
    using spsc_reachable.step [OF s4(1) spsc_step.c_start_reload [of _ 0]] s4(2) s3(2) s2(2) s1(2)
    by (auto simp: defs)
  obtain s6 where s6: "spsc_reachable 2 s6" "s6 = s5\<lparr>the_ring := (the_ring s5)\<lparr>cons_head := 1\<rparr>,
      c_seen := 1, cpc := C_take 0 0 1\<rparr>"
    using spsc_reachable.step [OF s5(1) spsc_step.c_reload [of _ 0 1 "(the_ring s5)\<lparr>cons_head := 1\<rparr>" 1]]
      s5(2) s4(2) s3(2) s2(2) s1(2) by (auto simp: defs)
  show thesis
    by (rule that [OF s6(1)]) (simp_all add: s6(2) s5(2) s4(2) s3(2) s2(2) s1(2) defs)
qed

text \<open>
  The counts of put/spsc_ring.h. The producer knows its own head and loads some tail, the
  consumer its own tail and some head: either count is at most the capacity. A third thread loads
  the head first and the tail later; when elements pass in between the difference wraps, although
  the header says that the functions may be called from any thread.
\<close>

lemma count_pop_slots_producer:
  assumes "spsc_reachable sz s" "valid_size sz" "p_seen s \<le> i" "i < length (tails s)"
  shows "unat (atomic_head (the_ring s) - of_nat (tails s ! i)) \<le> unat sz"
proof -
  note inv = spsc_reachable_inv [OF assms(1,2)] and bounds = inv_bounds [OF spsc_reachable_inv(1) [OF assms(1,2)]]
  have "history (tails s) (p_seen s) (g_tail s)" using inv(1) by (simp add: spsc_inv_def)
  note seen = history_seen [OF this assms(3,4)]
  have "unat (of_nat (length (sent s)) - of_nat (tails s ! i) :: u64) = length (sent s) - tails s ! i"
    by (rule unat_diff_of_nat [OF _ _ spsc_inv_size(2) [OF inv(1)]]) (use seen bounds in auto)
  then show ?thesis using inv bounds seen by (simp add: spsc_inv_def)
qed

lemma count_pop_slots_consumer:
  assumes "spsc_reachable sz s" "valid_size sz" "c_seen s \<le> i" "i < length (heads s)"
  shows "unat (of_nat (heads s ! i) - atomic_tail (the_ring s)) \<le> unat sz"
proof -
  note inv = spsc_reachable_inv [OF assms(1,2)] and bounds = inv_bounds [OF spsc_reachable_inv(1) [OF assms(1,2)]]
  have "history (heads s) (c_seen s) (length (sent s))" using inv(1) by (simp add: spsc_inv_def)
  note seen = history_seen [OF this assms(3,4)]
  have "unat (of_nat (heads s ! i) - of_nat (g_tail s) :: u64) = heads s ! i - g_tail s"
    by (rule seen_avail [OF inv(1)]) (use seen bounds in auto)
  then show ?thesis using inv bounds seen by (simp add: spsc_inv_def)
qed

lemma count_pop_slots_wraps_elsewhere:
  "\<exists>s :: nat spsc. spsc_reachable 2 s \<and>
     atomic_head (the_ring (spsc_init 2 :: nat spsc)) - atomic_tail (the_ring s) = - 1"
proof -
  obtain s :: "nat spsc" where s: "spsc_reachable 2 s" "cpc s = C_take 0 0 1" "ppc s = P_store [] [8] 1"
    by (rule spsc_run_example)
  note inv = spsc_reachable_inv [OF s(1) valid_size_2]
  have p: "slot (the_ring s) (0 + of_nat 0) = slot (the_ring s) 0" by simp
  note live = take_slot_live [OF inv(1) s(2), simplified p, OF zero_less_one]
  note got = take_acquired [OF inv(1,2) s(2), simplified p, OF zero_less_one]
  obtain s1 :: "nat spsc" where s1: "spsc_reachable 2 s1" "cpc s1 = C_take 0 1 1"
  proof (rule that)
    show "spsc_reachable 2 (s\<lparr>the_ring := (the_ring s)\<lparr>buff := (buff (the_ring s))[slot (the_ring s) 0 := None]\<rparr>,
        cpc := C_take 0 (Suc 0) 1, rcvd := rcvd s @ [sent s ! length (rcvd s)],
        c_stamp := (c_stamp s)[slot (the_ring s) 0 := length (tails s)]\<rparr>)"
      by (rule spsc_reachable.step [OF s(1) spsc_step.c_take [OF s(2) zero_less_one]])
         (use live got in simp_all)
  qed simp
  show ?thesis
    using spsc_reachable.step [OF s1(1) spsc_step.c_release [OF s1(2)]]
    by (intro exI conjI) (assumption, simp add: spsc_init_2 ring_new_2)
qed

theorem spsc_no_race_witness:
  "\<exists>s :: nat spsc. ppc s = P_store [] [8] 1 \<and> cpc s = C_take 0 0 1 \<and>
     slot (the_ring s) 1 \<noteq> slot (the_ring s) 0"
proof -
  obtain s :: "nat spsc" where s: "spsc_reachable 2 s" "ppc s = P_store [] [8] 1"
    "cpc s = C_take 0 0 1" by (rule spsc_run_example)
  have "slot (the_ring s) (1 + of_nat (length ([] :: nat list))) \<noteq> slot (the_ring s) (0 + of_nat 0)"
    using spsc_no_race [OF s(1) valid_size_2] s(2,3) by blast
  then show ?thesis using s(2,3) by auto
qed

theorem spsc_concurrent_fifo_witness:
  "\<exists>s :: nat spsc. sent s = [7] \<and> rcvd s = [] \<and> sent s = rcvd s @ in_flight s \<and>
     (\<forall>s'. spsc_step s s' \<longrightarrow> (\<exists>ev. queue_step (unat (2 :: u64)) ev (in_flight s) (in_flight s')))"
proof -
  obtain s :: "nat spsc" where s: "spsc_reachable 2 s" "sent s = [7]" "rcvd s = []"
    by (rule spsc_run_example)
  show ?thesis using spsc_concurrent_fifo [OF s(1) valid_size_2] s(2,3) by blast
qed

end
