(* ===== verification/Put_Time.thy ===== *)
theory Put_Time
  imports TG_Prelude
begin

section \<open>Cycle counters and durations (put/time_utils.h)\<close>

text \<open>
  \<open>put::cycles\<close> is a strong type around a 64 bit counter; its operators wrap. A duration of the
  chrono library is a signed 64 bit count of its unit, kept here as the 64 bit pattern that the
  multiplication with the unsigned frequency converts it to. The frequency \<open>rte_get_timer_hz\<close> is
  DPDK's: every function that reads it takes it as its argument \<open>hz\<close>.
\<close>

subsection \<open>The type and its operators\<close>

datatype cycles = Cycles (num: u64)

definition cycles_add :: "cycles \<Rightarrow> cycles \<Rightarrow> cycles" where
  "cycles_add a b = Cycles (num a + num b)"

definition cycles_sub :: "cycles \<Rightarrow> cycles \<Rightarrow> cycles" where
  "cycles_sub a b = Cycles (num a - num b)"

definition cycles_le :: "cycles \<Rightarrow> cycles \<Rightarrow> bool" where
  "cycles_le a b \<longleftrightarrow> num a \<le> num b"

instantiation cycles :: "{plus, minus, zero}"
begin

definition "a + b = cycles_add a b"
definition "a - b = cycles_sub a b"
definition "0 = Cycles 0"

instance ..

end

instantiation cycles :: linorder
begin

definition "a \<le> b \<longleftrightarrow> cycles_le a b"
definition "(a :: cycles) < b \<longleftrightarrow> \<not> cycles_le b a"

instance
  by standard (auto simp: less_eq_cycles_def less_cycles_def cycles_le_def intro: cycles.expand)

end

lemmas cycles_defs = plus_cycles_def minus_cycles_def zero_cycles_def less_eq_cycles_def less_cycles_def
  cycles_add_def cycles_sub_def cycles_le_def

lemma num_plus [simp]: "num (a + b) = num a + num b"
  by (simp add: plus_cycles_def cycles_add_def)

lemma num_minus [simp]: "num (a - b) = num a - num b"
  by (simp add: minus_cycles_def cycles_sub_def)

lemma num_zero [simp]: "num 0 = 0"
  by (simp add: zero_cycles_def)

subsection \<open>Conversions\<close>

datatype duration = Seconds u64 | Milliseconds u64 | Microseconds u64 | Nanoseconds u64

text \<open>The four overloads of \<open>from_duration\<close>.\<close>

fun from_duration :: "u64 \<Rightarrow> duration \<Rightarrow> cycles" where
  "from_duration hz (Seconds d) = Cycles (d * hz)"
| "from_duration hz (Milliseconds d) = Cycles ((d * hz) div 1000)"
| "from_duration hz (Microseconds d) = Cycles ((d * hz) div 1000000)"
| "from_duration hz (Nanoseconds d) = Cycles ((d * hz) div 1000000000)"

text \<open>The template argument of \<open>to\<close>; dividing by a zero frequency is undefined.\<close>

datatype duration_unit = Sec | Msec | Usec | Nsec

fun units_per_sec :: "duration_unit \<Rightarrow> u64" where
  "units_per_sec Sec = 1"
| "units_per_sec Msec = 1000"
| "units_per_sec Usec = 1000000"
| "units_per_sec Nsec = 1000000000"

definition cycles_to :: "u64 \<Rightarrow> duration_unit \<Rightarrow> cycles \<Rightarrow> u64 res" where
  "cycles_to hz u c = (if hz = 0 then Inl Undefined else Inr ((num c * units_per_sec u) div hz))"

subsection \<open>Exactness and bounds\<close>

lemma unat_mult_small: "unat a * unat b < 2 ^ 64 \<Longrightarrow> unat (a * b :: u64) = unat a * unat b"
  by (simp add: unat_word_ariths)

text \<open>
  As long as the product of the count and the frequency fits in 64 bits, the conversion
  of microseconds gives exactly the number of whole cycles in the duration.
\<close>

lemma from_duration_usec_exact:
  assumes "unat d * unat hz < 2 ^ 64"
  shows "unat (num (from_duration hz (Microseconds d))) = unat d * unat hz div 10 ^ 6"
  using unat_mult_small [OF assms] by (simp add: unat_div)

lemma from_duration_usec_exact_witness:
  "unat (num (from_duration 2500000000 (Microseconds 100000))) = 250000000"
  using from_duration_usec_exact [of 100000 2500000000] by simp

lemma div_mult_div_bounds:
  fixes a b h :: nat
  assumes "0 < h" "0 < b"
  shows "(a * h div b) * b div h \<le> a" and "a < (a * h div b) * b div h + 1 + (b + h - 1) div h"
proof -
  let ?q = "a * h div b"
  have le: "?q * b \<le> a * h" by simp
  then have "?q * b div h \<le> a * h div h" by (rule div_le_mono)
  then show "?q * b div h \<le> a" using assms(1) by simp
  have "a * h < ?q * b + b" using assms(2) by (metis div_mult_mod_eq mod_less_divisor nat_add_left_cancel_less)
  moreover have "?q * b < (?q * b div h + 1) * h"
    using assms(1) by (metis add.commute dividend_less_times_div mult.commute mult_Suc_right plus_1_eq_Suc)
  moreover have "b \<le> (b + h - 1) div h * h"
  proof -
    have "(b + h - 1) div h * h + (b + h - 1) mod h = b + h - 1" by simp
    moreover have "(b + h - 1) mod h \<le> h - 1" using assms(1) by (simp add: less_Suc_eq_le [symmetric])
    ultimately show ?thesis using assms by linarith
  qed
  ultimately have "a * h < (?q * b div h + 1 + (b + h - 1) div h) * h"
    by (simp add: algebra_simps)
  then show "a < ?q * b div h + 1 + (b + h - 1) div h"
    unfolding mult_less_cancel2 by (rule conjunct2)
qed

text \<open>
  Converting microseconds to cycles and back never gains time, and loses at most one
  microsecond more than one cycle takes; with a frequency of at least one megahertz it loses at
  most one. Both products have to fit in 64 bits.
\<close>

lemma cycles_usec_roundtrip:
  assumes "0 < hz" "unat d * unat hz < 2 ^ 64"
    and "unat d * unat hz div 10 ^ 6 * 10 ^ 6 < 2 ^ 64"
  shows "\<exists>d'. cycles_to hz Usec (from_duration hz (Microseconds d)) = Inr d' \<and> unat d' \<le> unat d \<and>
    unat d \<le> unat d' + (10 ^ 6 + unat hz - 1) div unat hz"
proof -
  let ?c = "num (from_duration hz (Microseconds d))"
  have c: "unat ?c = unat d * unat hz div 10 ^ 6" by (rule from_duration_usec_exact [OF assms(2)])
  have hz: "0 < unat hz" using assms(1) by (simp add: unat_gt_0 word_gt_0)
  have "unat (?c * 1000000) = unat ?c * 10 ^ 6"
    using unat_mult_small [of ?c 1000000] assms(3) c by simp
  then have d': "unat (?c * 1000000 div hz) = unat d * unat hz div 10 ^ 6 * 10 ^ 6 div unat hz"
    using c by (simp add: unat_div)
  show ?thesis
    using div_mult_div_bounds [OF hz, of "10 ^ 6" "unat d"] d' assms(1)
    by (intro exI [of _ "?c * 1000000 div hz"]) (simp add: cycles_to_def)
qed

lemma cycles_usec_roundtrip_witness:
  "\<exists>d'. cycles_to 2400000000 Usec (from_duration 2400000000 (Microseconds 1234567)) = Inr d' \<and>
    unat d' \<le> unat (1234567 :: u64) \<and>
    unat (1234567 :: u64) \<le> unat d' + (10 ^ 6 + unat (2400000000 :: u64) - 1) div unat (2400000000 :: u64)"
  by (rule cycles_usec_roundtrip) simp_all

text \<open>
  The conversion back wraps: at a frequency of 2.5 GHz a counter of two hours and four
  minutes of cycles reads as less than 62 seconds.
\<close>

lemma cycles_to_usec_wraps:
  "cycles_to 2500000000 Usec (Cycles (2500000000 * 7440)) = Inr 61302370"
  by (simp add: cycles_to_def)

end
