(* ===== verification/Put_Text.thy ===== *)
theory Put_Text
  imports TG_Prelude
begin

section \<open>Strings, numbers as text and Ethernet addresses (put/string\_utils.h, put/ether\_addr.cpp)\<close>

text \<open>
  Trimming, \<open>std::from_chars\<close> as \<open>str_to_int\<close> uses it, and the Ethernet address parser and
  formatter. The Spirit X3 parser of one hexadecimal number and the fmt rendering of one byte are
  arguments of the functions that call them.
\<close>

subsection \<open>Decimal text\<close>

definition is_digit :: "char \<Rightarrow> bool" where
  "is_digit c \<longleftrightarrow> 48 \<le> (of_char c :: nat) \<and> (of_char c :: nat) \<le> 57"

definition digit_char :: "nat \<Rightarrow> char" where
  "digit_char d = char_of (48 + d)"

fun dec_value :: "nat \<Rightarrow> string \<Rightarrow> nat" where
  "dec_value acc [] = acc"
| "dec_value acc (c # cs) = dec_value (10 * acc + (of_char c - 48)) cs"

fun dec_string :: "nat \<Rightarrow> string" where
  "dec_string n = (if n < 10 then [digit_char n] else dec_string (n div 10) @ [digit_char (n mod 10)])"

declare dec_string.simps [simp del]

lemma of_char_digit_char: "d < 10 \<Longrightarrow> (of_char (digit_char d) :: nat) = 48 + d"
  by (simp add: digit_char_def take_bit_nat_eq_self)

lemma dec_digit: "d < 10 \<Longrightarrow> ''0123456789'' ! d = digit_char d"
proof -
  assume d: "d < 10"
  then have "d \<in> {0, 1, 2, 3, 4, 5, 6, 7, 8, 9}" by auto
  then have "(of_char (''0123456789'' ! d) :: nat) = 48 + d" by auto
  also have "\<dots> = of_char (digit_char d)" using d by (simp only: of_char_digit_char)
  finally show ?thesis by (simp only: of_char_eq_iff)
qed

lemma is_digit_digit_char: "d < 10 \<Longrightarrow> is_digit (digit_char d)"
  by (simp add: is_digit_def of_char_digit_char)

lemma dec_value_append: "dec_value acc (xs @ ys) = dec_value (dec_value acc xs) ys"
  by (induction acc xs rule: dec_value.induct) simp_all

lemma dec_string_digits: "c \<in> set (dec_string n) \<Longrightarrow> is_digit c"
proof (induction n rule: dec_string.induct)
  case (1 n)
  then show ?case
    by (subst (asm) (2) dec_string.simps) (auto simp: is_digit_digit_char split: if_splits)
qed

lemma dec_string_nonempty: "dec_string n \<noteq> []"
  by (subst dec_string.simps) simp

lemma dec_value_dec_string: "dec_value 0 (dec_string n) = n"
proof (induction n rule: dec_string.induct)
  case (1 n)
  show ?case
  proof (cases "n < 10")
    case True
    then show ?thesis by (subst dec_string.simps) (simp add: of_char_digit_char)
  next
    case False
    then show ?thesis
      using 1 by (subst dec_string.simps) (simp add: dec_value_append of_char_digit_char)
  qed
qed

subsection \<open>Trimming\<close>

text \<open>\<open>None\<close> is \<open>std::string_view::npos\<close>.\<close>

fun find_first_not_of :: "string \<Rightarrow> char set \<Rightarrow> nat option" where
  "find_first_not_of [] cs = None"
| "find_first_not_of (x # xs) cs =
     (if x \<in> cs then map_option Suc (find_first_not_of xs cs) else Some 0)"

definition find_last_not_of :: "string \<Rightarrow> char set \<Rightarrow> nat option" where
  "find_last_not_of s cs = map_option (\<lambda>i. length s - 1 - i) (find_first_not_of (rev s) cs)"

definition blanks :: "char set" where
  "blanks = {CHR '' '', CHR 0x09}"

definition str_trim_left :: "string \<Rightarrow> string" where
  "str_trim_left sv =
     drop (case find_first_not_of sv blanks of None \<Rightarrow> length sv | Some p \<Rightarrow> min p (length sv)) sv"

definition str_trim_right :: "string \<Rightarrow> string" where
  "str_trim_right sv =
     (case find_last_not_of sv blanks of
        None \<Rightarrow> []
      | Some pos \<Rightarrow> take (length sv - (length sv - pos - 1)) sv)"

definition str_trim :: "string \<Rightarrow> string" where
  "str_trim sv = str_trim_right (str_trim_left sv)"

lemma find_first_not_of_dropWhile:
  "(case find_first_not_of s cs of None \<Rightarrow> dropWhile (\<lambda>c. c \<in> cs) s = []
    | Some p \<Rightarrow> p < length s \<and> dropWhile (\<lambda>c. c \<in> cs) s = drop p s)"
  by (induction s) (auto split: option.splits)

lemma str_trim_left_eq: "str_trim_left sv = dropWhile (\<lambda>c. c \<in> blanks) sv"
proof (cases "find_first_not_of sv blanks")
  case None
  then have "dropWhile (\<lambda>c. c \<in> blanks) sv = []"
    using find_first_not_of_dropWhile [where s = sv and cs = blanks] by (simp only: option.case)
  with None show ?thesis by (simp only: str_trim_left_def option.case drop_all le_refl)
next
  case (Some p)
  then show ?thesis
    using find_first_not_of_dropWhile [where s = sv and cs = blanks] by (simp add: str_trim_left_def)
qed

lemma str_trim_right_eq: "str_trim_right sv = rev (dropWhile (\<lambda>c. c \<in> blanks) (rev sv))"
proof (cases "find_first_not_of (rev sv) blanks")
  case None
  then show ?thesis
    using find_first_not_of_dropWhile [where s = "rev sv" and cs = blanks]
    by (simp add: str_trim_right_def find_last_not_of_def)
next
  case (Some p)
  then have "p < length sv" "dropWhile (\<lambda>c. c \<in> blanks) (rev sv) = drop p (rev sv)"
    using find_first_not_of_dropWhile [where s = "rev sv" and cs = blanks] by simp_all
  then show ?thesis
    using Some by (simp add: str_trim_right_def find_last_not_of_def rev_drop)
qed

lemma dropWhile_split:
  "\<exists>pre. xs = pre @ dropWhile P xs \<and> (\<forall>x\<in>set pre. P x)"
  by (metis set_takeWhileD takeWhile_dropWhile_id)

text \<open>
  \<open>str_trim\<close> removes exactly the blanks and tabs at both ends: what is removed is
  blank, and what is left neither starts nor ends with a blank.
\<close>

lemma str_trim_exact:
  "\<exists>pre post. sv = pre @ str_trim sv @ post \<and> set pre \<subseteq> blanks \<and> set post \<subseteq> blanks \<and>
    (str_trim sv = [] \<or> hd (str_trim sv) \<notin> blanks \<and> last (str_trim sv) \<notin> blanks)"
proof -
  let ?P = "\<lambda>c. c \<in> blanks"
  let ?l = "dropWhile ?P sv" and ?t = "rev (dropWhile ?P (rev (dropWhile ?P sv)))"
  have t: "str_trim sv = ?t" by (simp add: str_trim_def str_trim_left_eq str_trim_right_eq)
  obtain pre where pre: "sv = pre @ ?l" "\<forall>x\<in>set pre. ?P x" using dropWhile_split by metis
  obtain q where q: "rev ?l = q @ dropWhile ?P (rev ?l)" "\<forall>x\<in>set q. ?P x"
    using dropWhile_split by metis
  then have l: "?l = ?t @ rev q" by (metis rev_append rev_rev_ident)
  have "?t = [] \<or> hd ?t \<notin> blanks \<and> last ?t \<notin> blanks"
  proof (cases "?t = []")
    case True
    then show ?thesis by (rule disjI1)
  next
    case False
    then have "last ?t \<notin> blanks"
      using hd_dropWhile [of ?P "rev ?l"] by (simp add: last_rev)
    moreover have "?l \<noteq> []" "hd ?l = hd ?t" using l False by (metis Nil_is_append_conv, metis hd_append2)
    ultimately show ?thesis using hd_dropWhile [of ?P sv] by metis
  qed
  moreover have "sv = pre @ ?t @ rev q" using pre(1) l by (simp only:)
  moreover have "set pre \<subseteq> blanks" "set (rev q) \<subseteq> blanks" using pre(2) q(2) by auto
  ultimately show ?thesis unfolding t by blast
qed

lemma str_trim_blanks:
  assumes "set pre \<subseteq> blanks" "set post \<subseteq> blanks" "set s \<inter> blanks = {}"
  shows "str_trim (pre @ s @ post) = s"
proof -
  have front: "dropWhile (\<lambda>c. c \<in> blanks) (xs @ ys) = dropWhile (\<lambda>c. c \<in> blanks) ys" if "set xs \<subseteq> blanks" for xs ys
    using that by (intro dropWhile_append2) auto
  have keep: "dropWhile (\<lambda>c. c \<in> blanks) (xs @ ys) = xs @ ys" if "set xs \<inter> blanks = {}" "xs \<noteq> []" for xs ys
    using that by (cases xs) auto
  show ?thesis
  proof (cases "s = []")
    case True
    have "dropWhile (\<lambda>c. c \<in> blanks) (pre @ post) = []" using assms(1,2) by auto
    then show ?thesis
      using True by (simp only: str_trim_def str_trim_left_eq str_trim_right_eq append_Nil dropWhile.simps rev.simps)
  next
    case False
    then show ?thesis
      using front [OF assms(1), of "s @ post"] keep [OF assms(3), of post]
        front [of "rev post" "rev s"] keep [of "rev s" "[]"] assms(2,3)
      by (simp add: str_trim_def str_trim_left_eq str_trim_right_eq)
  qed
qed

lemma dec_string_no_blank: "set (dec_string n) \<inter> blanks = {}"
proof -
  have "\<not> is_digit (CHR '' '')" "\<not> is_digit (CHR 0x09)" by (simp_all add: is_digit_def)
  then show ?thesis using dec_string_digits [of _ n] by (auto simp: blanks_def)
qed

subsection \<open>Parsing integers\<close>

text \<open>
  \<open>std::from_chars\<close> for \<open>uint16_t\<close> in base 10: how far it read, and the value it stored. It stores
  nothing when there is no digit or the number does not fit, but reads past all the digits in the
  second case.
\<close>

definition from_chars_u16 :: "string \<Rightarrow> nat \<times> u16 option" where
  "from_chars_u16 s =
     (let ds = takeWhile is_digit s; v = dec_value 0 ds
      in (length ds, if ds = [] \<or> 65535 < v then None else Some (of_nat v)))"

definition str_to_int :: "string \<Rightarrow> u16 option" where
  "str_to_int s =
     (let (ptr, stored) = from_chars_u16 s; ret = (case stored of None \<Rightarrow> 0 | Some v \<Rightarrow> v)
      in if ptr = length s then Some ret else None)"

lemma takeWhile_all_iff: "length (takeWhile P s) = length s \<longleftrightarrow> (\<forall>c\<in>set s. P c)"
  by (metis takeWhile_eq_all_conv takeWhile_eq_take take_all_iff le_refl)

text \<open>
  \<open>str_to_int\<close> fails exactly on text with a character that is no digit. On digits it
  gives their value when it fits in 16 bits, and 0 when it does not or when the text is empty.
\<close>

lemma str_to_int_exact:
  "str_to_int s =
     (if list_all is_digit s
      then Some (if dec_value 0 s \<le> 65535 then of_nat (dec_value 0 s) else 0) else None)"
proof (cases "list_all is_digit s")
  case True
  then have all: "takeWhile is_digit s = s" by (simp add: list_all_iff)
  show ?thesis
    using True unfolding str_to_int_def from_chars_u16_def all Let_def by (cases "s = []") simp_all
next
  case False
  then have "length (takeWhile is_digit s) \<noteq> length s"
    by (simp add: takeWhile_all_iff list_all_iff)
  then show ?thesis using False by (simp add: str_to_int_def from_chars_u16_def Let_def)
qed

text \<open>
  Printing a 16 bit number and parsing it gives the number back; but numbers that do
  not fit, and the empty string, are accepted and read as 0 instead of being refused.
\<close>

lemma str_to_int_roundtrip:
  "str_to_int (dec_string (unat n)) = Some n \<and> str_to_int ''70000'' = Some 0 \<and> str_to_int [] = Some 0"
proof (intro conjI)
  have "unat n < 2 ^ LENGTH(16)" by (rule unsigned_less)
  then have "unat n \<le> 65535" by simp
  moreover have "list_all is_digit (dec_string (unat n))"
    by (auto simp: list_all_iff dest: dec_string_digits)
  ultimately show "str_to_int (dec_string (unat n)) = Some n"
    by (simp add: str_to_int_exact dec_value_dec_string)
  show "str_to_int ''70000'' = Some 0" by (simp add: str_to_int_exact is_digit_def)
  show "str_to_int [] = Some 0" by (simp add: str_to_int_exact)
qed

text \<open>
  \<open>int_to_str\<close> writes the number into the caller's array of \<open>n\<close> characters. \<open>fmt::format_to_n\<close> writes
  at most \<open>n\<close> characters of the text and reports the length of all of it. The assertion is a macro
  of another project, a parameter; a view that is longer than the array is undefined.
\<close>

definition fmt_int :: "int \<Rightarrow> string" where
  "fmt_int i = (if i < 0 then CHR ''-'' # dec_string (nat (- i)) else dec_string (nat i))"

definition format_to_n :: "nat \<Rightarrow> string \<Rightarrow> string \<times> nat" where
  "format_to_n n txt = (take n txt, length txt)"

definition int_to_str :: "(bool \<Rightarrow> unit res) \<Rightarrow> int \<Rightarrow> nat \<Rightarrow> string res" where
  "int_to_str x3me_enforce i n =
     (case format_to_n n (fmt_int i) of (written, sz) \<Rightarrow>
        bind_res (x3me_enforce (sz \<le> n)) (\<lambda>_. if length written = sz then Inr written else Inl Undefined))"

text \<open>
  What \<open>int_to_str\<close> writes \<open>str_to_int\<close> reads back, for every 16 bit number and every array that
  has room for it; on a smaller array the assertion is violated.
\<close>

lemma int_to_str_roundtrip:
  assumes "x3me_enforce True = Inr ()"
  shows "length (dec_string (unat k)) \<le> n \<Longrightarrow>
      \<exists>s. int_to_str x3me_enforce (int (unat k)) n = Inr s \<and> str_to_int s = Some k"
    and "n < length (dec_string (unat k)) \<Longrightarrow> x3me_enforce False = Inl Aborted \<Longrightarrow>
      int_to_str x3me_enforce (int (unat k)) n = Inl Aborted"
  using assms str_to_int_roundtrip [of k] by (auto simp: int_to_str_def format_to_n_def fmt_int_def)

subsection \<open>Ethernet addresses\<close>

text \<open>
  \<open>hex\<close> stands for Spirit's \<open>x3::hex\<close>: given the input it returns the number read, as an unsigned
  32 bit integer, and the rest of the input, or it fails. The action \<open>fill\<close> makes the parse fail
  on a value above 255 and stores the byte otherwise.
\<close>

type_synonym x3_hex = "string \<Rightarrow> (u32 \<times> string) option"
type_synonym ether_addr = "u8 list"

definition hex_fill :: "x3_hex \<Rightarrow> string \<Rightarrow> (u8 \<times> string) option" where
  "hex_fill hex s =
     (case hex s of None \<Rightarrow> None
      | Some (val, rest) \<Rightarrow> if val \<le> 255 then Some (ucast val, rest) else None)"

fun hex_groups :: "nat \<Rightarrow> x3_hex \<Rightarrow> string \<Rightarrow> (u8 list \<times> string) option" where
  "hex_groups 0 hex s = Some ([], s)"
| "hex_groups (Suc n) hex s =
     (case s of
        [] \<Rightarrow> None
      | c # cs \<Rightarrow>
          if c \<noteq> CHR '':'' then None
          else (case hex_fill hex cs of None \<Rightarrow> None
                | Some (b, rest) \<Rightarrow>
                    (case hex_groups n hex rest of None \<Rightarrow> None
                     | Some (bs, rest') \<Rightarrow> Some (b # bs, rest'))))"

text \<open>The first number, five more after a colon each, and the end of the input.\<close>

definition parse_ether_addr :: "x3_hex \<Rightarrow> string \<Rightarrow> ether_addr option" where
  "parse_ether_addr hex str =
     (case hex_fill hex str of None \<Rightarrow> None
      | Some (b, rest) \<Rightarrow>
          (case hex_groups 5 hex rest of None \<Rightarrow> None
           | Some (bs, rest') \<Rightarrow> if rest' = [] then Some (b # bs) else None))"

text \<open>\<open>hex02\<close> stands for fmt's rendering of one byte with \<open>{:02x}\<close>.\<close>

fun colon_join :: "string list \<Rightarrow> string" where
  "colon_join [] = []"
| "colon_join [x] = x"
| "colon_join (x # xs) = x @ CHR '':'' # colon_join xs"

definition format_ether_addr :: "(u8 \<Rightarrow> string) \<Rightarrow> ether_addr \<Rightarrow> string" where
  "format_ether_addr hex02 arg = colon_join (map hex02 arg)"

text \<open>
  What the round trip needs of the two libraries: reading a rendered byte that is followed by a
  colon or by nothing gives the byte back.
\<close>

definition hex_reads_back :: "x3_hex \<Rightarrow> (u8 \<Rightarrow> string) \<Rightarrow> bool" where
  "hex_reads_back hex hex02 \<longleftrightarrow>
     (\<forall>b rest. rest = [] \<or> hd rest = CHR '':'' \<longrightarrow> hex (hex02 b @ rest) = Some (ucast b, rest))"

lemma hex_fill_hex02:
  assumes "hex_reads_back hex hex02" "rest = [] \<or> hd rest = CHR '':''"
  shows "hex_fill hex (hex02 b @ rest) = Some (b, rest)"
proof -
  have "hex (hex02 b @ rest) = Some (ucast b, rest)"
    using assms unfolding hex_reads_back_def by blast
  moreover have "(ucast b :: u32) \<le> 255"
  proof -
    have "unat b < 2 ^ LENGTH(8)" by (rule unsigned_less)
    then show ?thesis by (simp add: word_le_nat_alt unsigned_ucast_eq take_bit_nat_eq_self)
  qed
  moreover have "ucast (ucast b :: u32) = b" by (simp add: ucast_up_ucast_id is_up)
  ultimately show ?thesis by (simp add: hex_fill_def)
qed

lemma colon_join_Cons: "colon_join (x # xs) = x @ (if xs = [] then [] else CHR '':'' # colon_join xs)"
  by (cases xs) simp_all

lemma hex_groups_colon_join:
  assumes "hex_reads_back hex hex02"
  shows "hex_groups (length bs) hex (if bs = [] then [] else CHR '':'' # colon_join (map hex02 bs)) =
    Some (bs, [])"
proof (induction bs)
  case Nil
  then show ?case by simp
next
  case (Cons b bs)
  let ?rest = "if bs = [] then [] else CHR '':'' # colon_join (map hex02 bs)"
  have "hex_fill hex (hex02 b @ ?rest) = Some (b, ?rest)"
    by (rule hex_fill_hex02 [OF assms]) simp
  then show ?case using Cons by (simp add: colon_join_Cons)
qed

text \<open>
  Claim C40. Formatting a six byte Ethernet address and parsing the text gives the address back.
\<close>

theorem ether_addr_roundtrip:
  assumes "hex_reads_back hex hex02" "length a = 6"
  shows "parse_ether_addr hex (format_ether_addr hex02 a) = Some a"
proof -
  obtain b bs where a: "a = b # bs" "length bs = 5" using assms(2) by (cases a) auto
  let ?rest = "if bs = [] then [] else CHR '':'' # colon_join (map hex02 bs)"
  have "format_ether_addr hex02 a = hex02 b @ ?rest"
    using a by (simp add: format_ether_addr_def colon_join_Cons)
  moreover have "hex_fill hex (hex02 b @ ?rest) = Some (b, ?rest)"
    by (rule hex_fill_hex02 [OF assms(1)]) simp
  moreover have "hex_groups 5 hex ?rest = Some (bs, [])"
    using hex_groups_colon_join [OF assms(1), of bs] a(2) by simp
  ultimately show ?thesis using a by (simp add: parse_ether_addr_def)
qed

text \<open>A hexadecimal parser and a renderer that meet the round trip's hypothesis.\<close>

definition hex_char :: "nat \<Rightarrow> char" where
  "hex_char d = (if d < 10 then char_of (48 + d) else char_of (87 + d))"

definition hex_char_value :: "char \<Rightarrow> nat option" where
  "hex_char_value c =
     (let n = of_char c
      in if 48 \<le> n \<and> n \<le> 57 then Some (n - 48)
         else if 97 \<le> n \<and> n \<le> 102 then Some (n - 87)
         else if 65 \<le> n \<and> n \<le> 70 then Some (n - 55) else None)"

definition sample_hex02 :: "u8 \<Rightarrow> string" where
  "sample_hex02 b = [hex_char (unat b div 16), hex_char (unat b mod 16)]"

definition sample_hex :: x3_hex where
  "sample_hex s =
     (let ds = takeWhile (\<lambda>c. hex_char_value c \<noteq> None) s
      in if ds = [] \<or> 8 < length ds then None
         else Some (of_nat (foldl (\<lambda>a c. 16 * a + the (hex_char_value c)) 0 ds), drop (length ds) s))"

lemma hex_char_value_hex_char: "d < 16 \<Longrightarrow> hex_char_value (hex_char d) = Some d"
  by (auto simp: hex_char_value_def hex_char_def Let_def take_bit_nat_eq_self)

lemma sample_hex_reads_back: "hex_reads_back sample_hex sample_hex02"
  unfolding hex_reads_back_def
proof (intro allI impI)
  fix b :: u8 and rest :: string
  assume "rest = [] \<or> hd rest = CHR '':''"
  then have rest: "takeWhile (\<lambda>c. hex_char_value c \<noteq> None) rest = []"
    by (cases rest) (auto simp: hex_char_value_def)
  have "unat b < 2 ^ LENGTH(8)" by (rule unsigned_less)
  then have d: "unat b div 16 < 16" "unat b mod 16 < 16" by auto
  have "of_nat (16 * (unat b div 16) + unat b mod 16) = (ucast b :: u32)"
    by (simp add: unsigned_ucast_eq take_bit_nat_eq_self of_nat_unat)
  then show "sample_hex (sample_hex02 b @ rest) = Some (ucast b, rest)"
    using rest d by (simp add: sample_hex_def sample_hex02_def hex_char_value_hex_char Let_def)
qed

theorem ether_addr_roundtrip_witness:
  "parse_ether_addr sample_hex (format_ether_addr sample_hex02 [228, 141, 140, 32, 251, 188]) =
     Some [228, 141, 140, 32, 251, 188]"
  by (rule ether_addr_roundtrip [OF sample_hex_reads_back]) simp

lemma hex_groups_length: "hex_groups n hex s = Some (bs, rest) \<Longrightarrow> length bs = n"
  by (induction n hex s arbitrary: bs rest rule: hex_groups.induct)
     (auto split: list.splits option.splits prod.splits if_splits)

lemma parse_ether_addr_six: "parse_ether_addr hex s = Some a \<Longrightarrow> length a = 6"
  unfolding parse_ether_addr_def
  by (auto split: if_splits option.splits prod.splits dest!: hex_groups_length simp del: hex_groups.simps)

text \<open>An address that parses has exactly six bytes, whatever the number parser does.\<close>

lemma parse_ether_addr_length:
  "case parse_ether_addr hex s of None \<Rightarrow> True | Some a \<Rightarrow> length a = 6"
  by (simp add: parse_ether_addr_six split: option.split)

end
