(* ===== verification/Put_Packet.thy ===== *)
theory Put_Packet
  imports TG_Prelude
begin

section \<open>Packets and protocol headers (put/pkt\_utils.h)\<close>

text \<open>
  A packet is DPDK's chain of \<open>rte_mbuf\<close>s, reduced to the fields the program touches: the data of
  the first segment, the data of the chained segments, and the length, segment and offload
  fields that live in the first one. \<open>mb_room\<close> is the space for data in a segment. The headers are
  overlaid on the data, so their fields are bytes at the offsets of the wire formats.
\<close>

unbundle bit_operations_syntax

record mbuf =
  mb_data :: "u8 list"
  mb_next :: "u8 list list"
  mb_room :: nat
  pkt_len :: u32
  nb_segs :: u16
  ol_flags :: u64
  l2_len :: u16
  l3_len :: u16

definition data_len :: "mbuf \<Rightarrow> nat" where
  "data_len m = length (mb_data m)"

definition tailroom :: "mbuf \<Rightarrow> nat" where
  "tailroom m = mb_room m - length (mb_data m)"

datatype hdr = Ether_hdr | Ipv4_hdr | Ipv6_hdr | Tcp_hdr | Udp_hdr

fun sizeof_hdr :: "hdr \<Rightarrow> nat" where
  "sizeof_hdr Ether_hdr = 14"
| "sizeof_hdr Ipv4_hdr = 20"
| "sizeof_hdr Ipv6_hdr = 40"
| "sizeof_hdr Tcp_hdr = 20"
| "sizeof_hdr Udp_hdr = 8"

text \<open>The five overloads of \<open>hdr_len\<close>, on the data the header is overlaid on and its offset.\<close>

fun hdr_len :: "hdr \<Rightarrow> u8 list \<Rightarrow> nat \<Rightarrow> nat" where
  "hdr_len Ether_hdr d p = sizeof_hdr Ether_hdr"
| "hdr_len Ipv4_hdr d p = unat ((ucast (d ! p) :: u32) AND 0x0F) * 4"
| "hdr_len Ipv6_hdr d p = sizeof_hdr Ipv6_hdr"
| "hdr_len Tcp_hdr d p = unat (drop_bit 2 ((ucast (d ! (p + 12)) :: u32) AND 0xf0))"
| "hdr_len Udp_hdr d p = sizeof_hdr Udp_hdr"

text \<open>
  \<open>read_hdr\<close> gives a pointer into the first segment, here the offset of the header in it, or a null
  pointer when the header is not wholly there. The const overloads compute the same pointer.
\<close>

definition read_hdr :: "hdr \<Rightarrow> mbuf \<Rightarrow> nat \<Rightarrow> nat option" where
  "read_hdr h pkt off = (if off + sizeof_hdr h \<le> data_len pkt then Some off else None)"

definition read_hdr_advance :: "hdr \<Rightarrow> mbuf \<Rightarrow> nat \<Rightarrow> nat option \<times> nat" where
  "read_hdr_advance h pkt off =
     (case read_hdr h pkt off of
        None \<Rightarrow> (None, off)
      | Some p \<Rightarrow> (Some p, off + hdr_len h (mb_data pkt) p))"

subsection \<open>Fields in network byte order\<close>

text \<open>The bytes of \<open>ben::native_to_big\<close> and the value of \<open>ben::big_to_native\<close>.\<close>

definition big16 :: "u16 \<Rightarrow> u8 list" where
  "big16 v = [ucast (drop_bit 8 v), ucast v]"

definition big32 :: "u32 \<Rightarrow> u8 list" where
  "big32 v = [ucast (drop_bit 24 v), ucast (drop_bit 16 v), ucast (drop_bit 8 v), ucast v]"

definition get_big16 :: "u8 list \<Rightarrow> nat \<Rightarrow> u16" where
  "get_big16 d p = push_bit 8 (ucast (d ! p)) OR ucast (d ! (p + 1))"

definition get_big32 :: "u8 list \<Rightarrow> nat \<Rightarrow> u32" where
  "get_big32 d p =
     push_bit 24 (ucast (d ! p)) OR push_bit 16 (ucast (d ! (p + 1))) OR
     push_bit 8 (ucast (d ! (p + 2))) OR ucast (d ! (p + 3))"

text \<open>Overwriting the bytes from an offset on; callers stay inside the data.\<close>

definition poke :: "nat \<Rightarrow> u8 list \<Rightarrow> u8 list \<Rightarrow> u8 list" where
  "poke p bs d = take p d @ bs @ drop (p + length bs) d"

definition peek :: "nat \<Rightarrow> nat \<Rightarrow> u8 list \<Rightarrow> u8 list" where
  "peek p n d = take n (drop p d)"

lemma length_poke [simp]: "p + length bs \<le> length d \<Longrightarrow> length (poke p bs d) = length d"
  by (simp add: poke_def)

lemma poke_nth:
  assumes "p + length bs \<le> length d" "i < length d"
  shows "poke p bs d ! i = (if p \<le> i \<and> i < p + length bs then bs ! (i - p) else d ! i)"
  using assms by (auto simp: poke_def nth_append)

lemma peek_poke_same [simp]: "p + length bs \<le> length d \<Longrightarrow> peek p (length bs) (poke p bs d) = bs"
  by (simp add: peek_def poke_def)

lemma length_peek: "p + n \<le> length d \<Longrightarrow> length (peek p n d) = n"
  by (simp add: peek_def)

lemma peek_nth: "p + n \<le> length d \<Longrightarrow> i < n \<Longrightarrow> peek p n d ! i = d ! (p + i)"
  by (simp add: peek_def)

lemma peek_poke_other:
  assumes "p + length bs \<le> length d" "q + n \<le> length d" "q + n \<le> p \<or> p + length bs \<le> q"
  shows "peek q n (poke p bs d) = peek q n d"
proof (rule nth_equalityI)
  show "length (peek q n (poke p bs d)) = length (peek q n d)"
    using assms by (simp add: length_peek)
  fix i assume "i < length (peek q n (poke p bs d))"
  then have "i < n" by (simp add: peek_def)
  with assms show "peek q n (poke p bs d) ! i = peek q n d ! i"
    by (auto simp: peek_nth poke_nth)
qed

lemma length_big [simp]: "length (big16 v) = 2" "length (big32 a) = 4"
  by (simp_all add: big16_def big32_def)

lemma get_big16_big16: "get_big16 (big16 v) 0 = v"
  by (rule bit_eqI)
     (auto simp: get_big16_def big16_def bit_simps not_less dest: bit_imp_le_length)

lemma get_big32_big32: "get_big32 (big32 v) 0 = v"
proof (rule bit_eqI)
  fix n assume "possible_bit TYPE(u32) n"
  then have n: "n < 32" by simp
  consider "n < 8" | "8 \<le> n" "n < 16" | "16 \<le> n" "n < 24" | "24 \<le> n" "n < 32"
    using n by linarith
  then show "bit (get_big32 (big32 v) 0) n = bit v n"
    by cases (auto simp: get_big32_def big32_def bit_simps not_less)
qed

lemma get_big16_poke: "p + 2 \<le> length d \<Longrightarrow> get_big16 (poke p (big16 v) d) p = v"
  using get_big16_big16 [of v] by (simp add: get_big16_def poke_nth)

lemma get_big32_poke: "p + 4 \<le> length d \<Longrightarrow> get_big32 (poke p (big32 v) d) p = v"
  using get_big32_big32 [of v] by (simp add: get_big32_def poke_nth numeral_2_eq_2)

lemma get_big16_poke_other:
  assumes "p + length bs \<le> length d" "q + 2 \<le> length d" "q + 2 \<le> p \<or> p + length bs \<le> q"
  shows "get_big16 (poke p bs d) q = get_big16 d q"
  using assms by (auto simp: get_big16_def poke_nth)

lemma get_big32_poke_other:
  assumes "p + length bs \<le> length d" "q + 4 \<le> length d" "q + 4 \<le> p \<or> p + length bs \<le> q"
  shows "get_big32 (poke p bs d) q = get_big32 d q"
  using assms by (auto simp: get_big32_def poke_nth)

lemma nth_poke_other:
  assumes "p + length bs \<le> length d" "q < length d" "q < p \<or> p + length bs \<le> q"
  shows "poke p bs d ! q = d ! q"
  using assms by (auto simp: poke_nth)

subsection \<open>What reading a header promises\<close>

lemma read_hdr_Some: "read_hdr h pkt off = Some p \<longleftrightarrow> p = off \<and> off + sizeof_hdr h \<le> data_len pkt"
  by (auto simp: read_hdr_def)

lemma read_hdr_advance_Some:
  "read_hdr_advance h pkt off = (Some p, off') \<longleftrightarrow>
     p = off \<and> off + sizeof_hdr h \<le> data_len pkt \<and> off' = off + hdr_len h (mb_data pkt) off"
  by (auto simp: read_hdr_advance_def read_hdr_def)

lemma and_nibble_le: "unat ((w :: u32) AND 0x0F) \<le> 15"
proof -
  have "unat (w AND (2 ^ 4 - 1)) = unat w mod 2 ^ 4" by (rule unat_and_pow2_minus_1)
  then have "unat (w AND 0x0F) = unat w mod 16" by simp
  then show ?thesis by simp
qed

lemma tcp_nibble: "drop_bit 2 ((w :: u32) AND 0xf0) = push_bit 2 (drop_bit 4 w AND 0x0F)"
proof -
  have low: "(0x0F :: u32) = mask 4" and high: "(0xf0 :: u32) = push_bit 4 (mask 4)"
    by (simp_all add: push_bit_eq_mult mask_eq_exp_minus_1)
  have "drop_bit 2 (w AND push_bit 4 (mask 4)) = push_bit 2 (drop_bit 4 w AND mask 4)"
    by (rule bit_eqI) (auto simp: bit_simps)
  then show ?thesis by (simp only: low high)
qed

lemma nibble_push: "unat (push_bit 2 ((w :: u32) AND 0x0F)) = unat (w AND 0x0F) * 4"
proof -
  have "unat (w AND 0x0F) \<le> 15" by (rule and_nibble_le)
  then show ?thesis by (simp add: push_bit_eq_mult unat_word_ariths)
qed

lemma hdr_len_tcp:
  "hdr_len Tcp_hdr d p = unat (drop_bit 4 (ucast (d ! (p + 12)) :: u32) AND 0x0F) * 4"
  by (simp only: hdr_len.simps tcp_nibble nibble_push)

lemma hdr_len_le_60: "hdr_len h d p \<le> 60"
proof (cases h)
  case Ipv4_hdr
  then show ?thesis using and_nibble_le [of "ucast (d ! p)"] by simp
next
  case Tcp_hdr
  then show ?thesis
    using and_nibble_le [of "drop_bit 4 (ucast (d ! (p + 12)))"] by (simp only: hdr_len_tcp)
qed simp_all

end
