(* ===== verification/Put_Functional.thy ===== *)
theory Put_Functional
  imports TG_Prelude
begin

section \<open>Callable wrappers and variants (put/functional.h, put/visit.h)\<close>

text \<open>
  \<open>put::fun_ref\<close> refers to a callable object without owning it: an address and a function that
  casts the address back to the object's type and calls it. The objects are in a store; an address
  whose object's lifetime has ended holds None, and calling through it is undefined. A call may
  change the callable (a mutable lambda); \<open>call\<close> is the call operator of the callable's type.
  \<open>put::callback\<close> is the same pair built by hand from a context and a function pointer.
\<close>

type_synonym addr = nat
type_synonym 'o objects = "addr \<Rightarrow> 'o option"

record ('a, 'r, 'o) fun_ref =
  callable :: "addr option"
  fr_callback :: "(addr \<Rightarrow> 'a \<Rightarrow> 'o objects \<Rightarrow> ('r \<times> 'o objects) res) option"

definition fun_ref_empty :: "('a, 'r, 'o) fun_ref" where
  "fun_ref_empty = \<lparr>callable = None, fr_callback = None\<rparr>"

definition call_at ::
  "('o \<Rightarrow> 'a \<Rightarrow> 'r \<times> 'o) \<Rightarrow> addr \<Rightarrow> 'a \<Rightarrow> 'o objects \<Rightarrow> ('r \<times> 'o objects) res" where
  "call_at call p args m =
     (case m p of
        None \<Rightarrow> Inl Undefined
      | Some obj \<Rightarrow> (case call obj args of (ret, obj') \<Rightarrow> Inr (ret, m(p \<mapsto> obj'))))"

definition fun_ref_new :: "('o \<Rightarrow> 'a \<Rightarrow> 'r \<times> 'o) \<Rightarrow> addr \<Rightarrow> ('a, 'r, 'o) fun_ref" where
  "fun_ref_new call p = \<lparr>callable = Some p, fr_callback = Some (call_at call)\<rparr>"

definition fun_ref_call ::
  "('a, 'r, 'o) fun_ref \<Rightarrow> 'a \<Rightarrow> 'o objects \<Rightarrow> ('r \<times> 'o objects) res" where
  "fun_ref_call f args m =
     (case (fr_callback f, callable f) of
        (Some cb, Some p) \<Rightarrow> cb p args m
      | _ \<Rightarrow> Inl Undefined)"

record ('c, 'a, 'r, 'w) callback =
  cb_ctx :: "'c option"
  cb_fun :: "('c option \<Rightarrow> 'a \<Rightarrow> 'w \<Rightarrow> ('r \<times> 'w) res) option"

definition callback_empty :: "('c, 'a, 'r, 'w) callback" where
  "callback_empty = \<lparr>cb_ctx = None, cb_fun = None\<rparr>"

definition callback_new ::
  "'c option \<Rightarrow> ('c option \<Rightarrow> 'a \<Rightarrow> 'w \<Rightarrow> ('r \<times> 'w) res) \<Rightarrow> ('c, 'a, 'r, 'w) callback" where
  "callback_new ctx f = \<lparr>cb_ctx = ctx, cb_fun = Some f\<rparr>"

definition callback_call ::
  "('c, 'a, 'r, 'w) callback \<Rightarrow> 'a \<Rightarrow> 'w \<Rightarrow> ('r \<times> 'w) res" where
  "callback_call cb args w =
     (case cb_fun cb of None \<Rightarrow> Inl Undefined | Some f \<Rightarrow> f (cb_ctx cb) args w)"

subsection \<open>A reference stands for its callable as long as it lives\<close>

text \<open>A sequence of calls, by way of the reference and directly on the object.\<close>

fun fun_ref_calls ::
  "('a, 'r, 'o) fun_ref \<Rightarrow> 'a list \<Rightarrow> 'o objects \<Rightarrow> ('r list \<times> 'o objects) res" where
  "fun_ref_calls f [] m = Inr ([], m)"
| "fun_ref_calls f (x # xs) m =
     bind_res (fun_ref_call f x m) (\<lambda>(r, m1).
       bind_res (fun_ref_calls f xs m1) (\<lambda>(rs, m2). Inr (r # rs, m2)))"

fun direct_calls :: "('o \<Rightarrow> 'a \<Rightarrow> 'r \<times> 'o) \<Rightarrow> 'a list \<Rightarrow> 'o \<Rightarrow> 'r list \<times> 'o" where
  "direct_calls call [] obj = ([], obj)"
| "direct_calls call (x # xs) obj =
     (case call obj x of (r, obj1) \<Rightarrow> case direct_calls call xs obj1 of (rs, obj2) \<Rightarrow> (r # rs, obj2))"

text \<open>
  Calling through a reference to a live object gives what calling the object gives, and the object
  itself is what changes: a copy of the reference sees it. Once the object is gone, as for a
  reference that outlives the temporary it was made from, the first call is undefined, and so is
  one through an empty wrapper.
\<close>

lemma fun_ref_forwards:
  "fun_ref_calls (fun_ref_new call p) xs m =
     (case m p of
        Some obj \<Rightarrow> Inr (fst (direct_calls call xs obj), m(p \<mapsto> snd (direct_calls call xs obj)))
      | None \<Rightarrow> if xs = [] then Inr ([], m) else Inl Undefined)"
proof (induction xs arbitrary: m)
  case Nil
  then show ?case by (auto simp: fun_upd_idem split: option.split)
next
  case (Cons x xs)
  show ?case
  proof (cases "m p")
    case None
    then show ?thesis by (simp add: fun_ref_call_def fun_ref_new_def call_at_def)
  next
    case (Some obj)
    obtain r obj1 where r: "call obj x = (r, obj1)" by force
    have "fun_ref_call (fun_ref_new call p) x m = Inr (r, m(p \<mapsto> obj1))"
      using Some r by (simp add: fun_ref_call_def fun_ref_new_def call_at_def)
    then show ?thesis using Some r by (simp add: Cons.IH split: prod.split)
  qed
qed

lemma empty_wrappers_undefined:
  "fun_ref_call fun_ref_empty x m = Inl Undefined" "callback_call callback_empty x w = Inl Undefined"
  by (simp_all add: fun_ref_call_def fun_ref_empty_def callback_call_def callback_empty_def)

subsection \<open>Visiting a variant\<close>

text \<open>
  A variant is the index of its alternative and the value; after a failed assignment it has no
  alternative. \<open>bmp11::mp_with_index<N>\<close> calls its argument with the index, which must be below
  \<open>N\<close>. The visitors are merged into one object whose call operators are overloaded, and the one
  that accepts the type of the alternative is called. A visitor comes with the alternatives it
  accepts, all of them for a generic lambda; visitors that leave an alternative without one, or
  with two, do not compile.
\<close>

type_synonym ('v, 'r) visitor = "nat list \<times> ('v \<Rightarrow> 'r res)"

definition mp_with_index :: "nat \<Rightarrow> nat option \<Rightarrow> (nat \<Rightarrow> 'r res) \<Rightarrow> 'r res" where
  "mp_with_index n idx f =
     (case idx of Some i \<Rightarrow> if i < n then f i else Inl Undefined | None \<Rightarrow> Inl Undefined)"

definition overload :: "('v, 'r) visitor list \<Rightarrow> nat \<Rightarrow> 'v \<Rightarrow> 'r res" where
  "overload vis i v =
     (case filter (\<lambda>(alts, f). i \<in> set alts) vis of [(alts, f)] \<Rightarrow> f v | _ \<Rightarrow> Inl Undefined)"

definition visit :: "nat \<Rightarrow> ('v, 'r) visitor list \<Rightarrow> nat option \<times> 'v \<Rightarrow> 'r res" where
  "visit n vis var = mp_with_index n (fst var) (\<lambda>i. overload vis i (snd var))"

definition visitors_compile :: "nat \<Rightarrow> ('v, 'r) visitor list \<Rightarrow> bool" where
  "visitors_compile n vis \<longleftrightarrow> (\<forall>i < n. length (filter (\<lambda>(alts, f). i \<in> set alts) vis) = 1)"

text \<open>
  The visitor of the alternative is called, whatever the order the visitors are given in. One
  generic visitor is called on every alternative: this is how both managers take messages from
  their queues, so the handlers of the queues are functions on the whole variant.
\<close>

lemma visit_calls:
  assumes "visitors_compile n vis" and "i < n" and "(alts, f) \<in> set vis" and "i \<in> set alts"
  shows "visit n vis (Some i, v) = f v"
proof -
  let ?fs = "filter (\<lambda>(alts, f). i \<in> set alts) vis"
  have "length ?fs = 1" using assms(1,2) by (simp add: visitors_compile_def)
  then obtain g where g: "?fs = [g]" by (auto simp: length_Suc_conv)
  have "(alts, f) \<in> set ?fs" using assms(3,4) by auto
  then have "g = (alts, f)" by (simp add: g)
  then show ?thesis using g assms(2) by (simp add: visit_def mp_with_index_def overload_def)
qed

lemma visit_generic: "i < n \<Longrightarrow> visit n [([0..<n], f)] (Some i, v) = f v"
  by (rule visit_calls) (auto simp: visitors_compile_def)

lemma visit_valueless: "visit n vis (None, v) = Inl Undefined"
  by (simp add: visit_def mp_with_index_def)

end
