(* ===== verification/Tg_Assert.thy ===== *)
theory Tg_Assert
  imports TG_Prelude
begin

section \<open>Assertions and the two readings of the source (put/tg\_assert.h)\<close>

text \<open>
  \<open>TG_ENFORCE(c)\<close> is a macro whose body is \<open>if (c) abort()\<close>: as it is written it aborts when its
  condition holds. Every use of it states the condition that should hold. The operations that
  contain a \<open>TG_ENFORCE\<close>, that assign an event handle, or that read the endpoint of the
  configuration, therefore take a \<open>build\<close> as their first argument, which says how these three are
  compiled:
  \<^item> \<open>enforce_test\<close> is the test of the macro's \<open>if\<close>;
  \<^item> \<open>handle_swap\<close> is the \<open>swap\<close> that overload resolution picks in
    \<open>event_handle::operator=\<close>;
  \<^item> \<open>port_part\<close> is the index of the part of an endpoint that is read as its port.

  \<open>as_written\<close> is the source: the test is the condition itself, the swap is \<open>std::swap\<close> and the
  port is the part after the two there are. \<open>as_meant\<close> is the source with all three repaired. Theorems are stated for every build where they hold
  for every build, and for one of the two where they tell them apart.
\<close>

datatype swap_kind = Std_swap | Member_swap

record build =
  enforce_test :: "bool \<Rightarrow> bool"
  handle_swap :: swap_kind
  port_part :: nat

definition as_written :: build where
  "as_written = \<lparr>enforce_test = (\<lambda>c. c), handle_swap = Std_swap, port_part = 2\<rparr>"

definition as_meant :: build where
  "as_meant = \<lparr>enforce_test = Not, handle_swap = Member_swap, port_part = 1\<rparr>"

definition tg_enforce :: "build \<Rightarrow> bool \<Rightarrow> unit res" where
  "tg_enforce bld c = (if enforce_test bld c then Inl Aborted else Inr ())"

text \<open>\<open>TG_ASSERT\<close> is the C library's \<open>assert\<close>; the build does not define \<open>NDEBUG\<close>.\<close>

definition tg_assert :: "bool \<Rightarrow> unit res" where
  "tg_assert c = (if c then Inr () else Inl Aborted)"

definition tg_unreachable :: "'a res" where
  "tg_unreachable = Inl Aborted"

lemma tg_enforce_written [simp]: "tg_enforce as_written c = (if c then Inl Aborted else Inr ())"
  by (simp add: tg_enforce_def as_written_def)

lemma tg_enforce_meant [simp]: "tg_enforce as_meant c = (if c then Inr () else Inl Aborted)"
  by (simp add: tg_enforce_def as_meant_def)

lemma tg_enforce_cases: "tg_enforce bld c = Inr () \<or> tg_enforce bld c = Inl Aborted"
  by (simp add: tg_enforce_def)

lemma handle_swap_written [simp]: "handle_swap as_written = Std_swap"
  by (simp add: as_written_def)

lemma handle_swap_meant [simp]: "handle_swap as_meant = Member_swap"
  by (simp add: as_meant_def)

lemma port_part_written [simp]: "port_part as_written = 2"
  by (simp add: as_written_def)

lemma port_part_meant [simp]: "port_part as_meant = 1"
  by (simp add: as_meant_def)

text \<open>
  The macro as it is written accepts a condition exactly when the macro as it is meant
  aborts on it.
\<close>

lemma tg_enforce_inverted:
  "tg_enforce as_written c = Inr () \<longleftrightarrow> tg_enforce as_meant c = Inl Aborted"
  by simp

end
