(* ===== verification/Tg_Log.thy ===== *)
theory Tg_Log
  imports TG_Prelude
begin

section \<open>Logging (log/tg\_log.h)\<close>

text \<open>
  The macros, as the preprocessor expands them. An argument of a macro is its text. \<open>TG_LOG_INFO\<close> and
  \<open>TG_LOG_ERROR\<close> print a prefixed format to one of the standard streams, which the program never
  reads. \<open>TG_LOG_DEBUG\<close> is off in this build: it expands to expressions that evaluate each argument and
  discard it, found by counting the arguments.
\<close>

datatype log_stream = Stdout | Stderr

type_synonym log_line = "log_stream \<times> string \<times> string list"

definition tg_log_info :: "string \<Rightarrow> string list \<Rightarrow> log_line" where
  "tg_log_info fmtstr args = (Stdout, ''INFO: '' @ fmtstr, args)"

definition tg_log_error :: "string \<Rightarrow> string list \<Rightarrow> log_line" where
  "tg_log_error fmtstr args = (Stderr, ''ERROR: '' @ fmtstr, args)"

subsection \<open>The discarded arguments of a debug line\<close>

text \<open>What a macro argument can be here: the text of the user, or one of the numbers of the counting macro.\<close>

datatype log_token = Token string | Number nat

text \<open>The seventh argument; with fewer arguments in front of them it is one of the numbers.\<close>

definition log_num_args :: "string list \<Rightarrow> log_token" where
  "log_num_args args = (Number 42 # map Token args @ map Number [5, 4, 3, 2, 1, 0]) ! 6"

text \<open>
  \<open>TG_LOG_UNUSED0\<close> to \<open>TG_LOG_UNUSED5\<close>: the arguments that are evaluated and discarded, in order. A
  wrong number of arguments, or a macro that does not exist, is no valid program.
\<close>

fun log_unused :: "nat \<Rightarrow> string list \<Rightarrow> string list option" where
  "log_unused 0 [] = Some []"
| "log_unused (Suc n) (a # args) = (if n < 5 then map_option (Cons a) (log_unused n args) else None)"
| "log_unused n args = None"

definition tg_log_debug :: "string \<Rightarrow> string list \<Rightarrow> string list option" where
  "tg_log_debug fmtstr args =
     (case log_num_args (fmtstr # args) of
        Number n \<Rightarrow> log_unused n (fmtstr # args)
      | Token t \<Rightarrow> None)"

lemma log_unused_all: "length args \<le> 5 \<Longrightarrow> log_unused (length args) args = Some args"
  by (induction args) auto

lemma log_num_args_counts:
  assumes "length args \<le> 5"
  shows "log_num_args args = Number (length args)"
proof -
  consider "length args = 0" | "length args = 1" | "length args = 2" | "length args = 3" | "length args = 4"
    | "length args = 5" using assms by linarith
  then show ?thesis by cases (simp_all add: log_num_args_def nth_append nth_Cons')
qed

text \<open>
  With a format and up to four arguments every one of them is evaluated once, in order, and nothing is
  printed; with five the macro counts wrongly and the program is not valid.
\<close>

lemma tg_log_debug_discards:
  "tg_log_debug fmtstr args = (if length args \<le> 4 then Some (fmtstr # args) else None)"
proof (cases "length args \<le> 4")
  case True
  then show ?thesis
    using log_num_args_counts [of "fmtstr # args"] log_unused_all [of "fmtstr # args"] by (simp add: tg_log_debug_def)
next
  case False
  then have "log_num_args (fmtstr # args) = Token (args ! 4)" by (simp add: log_num_args_def nth_append nth_Cons')
  then show ?thesis using False by (simp add: tg_log_debug_def)
qed

subsection \<open>The text of an error code (aliases.h)\<close>

text \<open>The formatter of an error code copies the message, which is the library's, to the output.\<close>

definition format_error_code :: "('e \<Rightarrow> string) \<Rightarrow> 'e \<Rightarrow> string \<Rightarrow> string" where
  "format_error_code message arg out = out @ message arg"

end
