(* ===== verification/Event_Scheduler.thy ===== *)
theory Event_Scheduler
  imports Tg_Assert Put_Time "HOL-Library.AList"
    "HOL-Library.Multiset"
begin

section \<open>Timers (gen/priv/event\_scheduler.h, gen/priv/event\_handle.cpp)\<close>

text \<open>
  The event scheduler wraps DPDK's timer library, an event handle owns one timer of it. The timer
  library is a parameter, the record \<open>timer_lib\<close> of the functions the code calls on the library's
  state. A timer lives on the heap and is never moved, so it is named by its address, a number;
  \<open>next_tmr\<close> is the next address the allocator hands out. The type \<open>'c\<close> stands for a callback with
  its context.

  \<open>rte_timer_manage\<close> takes the expired timers out of its lists (\<open>tl_expire\<close>) and then, for one
  after the other, marks it as the running one (\<open>tl_enter\<close>), calls its callback, and settles its
  state (\<open>tl_leave\<close>).
\<close>

type_synonym timer = nat

datatype timer_type = Single | Periodical

record ('l, 'c) timer_lib =
  tl_subsystem_init :: "'l"
  tl_init :: "timer \<Rightarrow> 'l \<Rightarrow> 'l"
  tl_reset :: "timer \<Rightarrow> u64 \<Rightarrow> timer_type \<Rightarrow> u32 \<Rightarrow> 'c \<Rightarrow> 'l \<Rightarrow> int \<times> 'l"
  tl_stop :: "timer \<Rightarrow> 'l \<Rightarrow> int \<times> 'l"
  tl_expire :: "'l \<Rightarrow> (timer \<times> 'c) list \<times> 'l"
  tl_enter :: "timer \<Rightarrow> 'l \<Rightarrow> 'l"
  tl_leave :: "timer \<Rightarrow> 'l \<Rightarrow> 'l"

record 'l sched =
  usec_cycles :: cycles
  prev_cycles :: cycles
  cnt_timers :: u32
  sched_lcore :: u32
  lib_state :: "'l"
  next_tmr :: timer

definition sched_new :: "('l, 'c) timer_lib \<Rightarrow> u64 \<Rightarrow> u32 \<Rightarrow> 'l sched" where
  "sched_new lib hz lcore =
     \<lparr>usec_cycles = from_duration hz (Microseconds 1), prev_cycles = Cycles 0, cnt_timers = 0,
      sched_lcore = lcore, lib_state = tl_subsystem_init lib, next_tmr = 0\<rparr>"

definition sched_destroy :: "build \<Rightarrow> 'l sched \<Rightarrow> unit res" where
  "sched_destroy bld s = tg_enforce bld (cnt_timers s = 0)"

definition count_events :: "'l sched \<Rightarrow> nat" where
  "count_events s = unat (cnt_timers s)"

definition get_timer :: "('l, 'c) timer_lib \<Rightarrow> 'l sched \<Rightarrow> timer \<times> 'l sched" where
  "get_timer lib s =
     (let t = next_tmr s in
      (t, s\<lparr>next_tmr := Suc t, lib_state := tl_init lib t (lib_state s),
            cnt_timers := cnt_timers s + 1\<rparr>))"

definition ret_timer :: "build \<Rightarrow> ('l, 'c) timer_lib \<Rightarrow> timer \<Rightarrow> 'l sched \<Rightarrow> 'l sched res" where
  "ret_timer bld lib t s =
     (case tl_stop lib t (lib_state s) of (r, l) \<Rightarrow>
        bind_res (tg_enforce bld (r = 0)) (\<lambda>_.
          Inr (s\<lparr>lib_state := l, cnt_timers := cnt_timers s - 1\<rparr>)))"

text \<open>
  \<open>schedule_single\<close> and \<open>schedule_periodic\<close> differ in the type of the timer only. The library
  dereferences the timer, so an empty pointer is undefined behaviour.
\<close>

definition reset_timer ::
  "build \<Rightarrow> ('l, 'c) timer_lib \<Rightarrow> timer_type \<Rightarrow> timer option \<Rightarrow> cycles \<Rightarrow> 'c \<Rightarrow> 'l sched \<Rightarrow> 'l sched res" where
  "reset_timer bld lib ty tmr rel_time cb s =
     (case tmr of
        None \<Rightarrow> Inl Undefined
      | Some t \<Rightarrow>
          (case tl_reset lib t (num rel_time) ty (sched_lcore s) cb (lib_state s) of (r, l) \<Rightarrow>
             bind_res (tg_enforce bld (r = 0)) (\<lambda>_. Inr (s\<lparr>lib_state := l\<rparr>))))"

definition sched_single ::
  "build \<Rightarrow> ('l, 'c) timer_lib \<Rightarrow> timer option \<Rightarrow> cycles \<Rightarrow> 'c \<Rightarrow> 'l sched \<Rightarrow> 'l sched res" where
  "sched_single bld lib = reset_timer bld lib Single"

definition sched_periodic ::
  "build \<Rightarrow> ('l, 'c) timer_lib \<Rightarrow> timer option \<Rightarrow> cycles \<Rightarrow> 'c \<Rightarrow> 'l sched \<Rightarrow> 'l sched res" where
  "sched_periodic bld lib = reset_timer bld lib Periodical"

text \<open>
  The callbacks run on the scheduler and on the rest of the program's state \<open>'w\<close>; they may schedule
  events themselves.
\<close>

definition run_timer ::
  "('l, 'c) timer_lib \<Rightarrow> ('c \<Rightarrow> 'l sched \<times> 'w \<Rightarrow> ('l sched \<times> 'w) res) \<Rightarrow> timer \<times> 'c \<Rightarrow>
   'l sched \<times> 'w \<Rightarrow> ('l sched \<times> 'w) res" where
  "run_timer lib run tc sw =
     (case tc of (t, c) \<Rightarrow> case sw of (s, w) \<Rightarrow>
        bind_res (run c (s\<lparr>lib_state := tl_enter lib t (lib_state s)\<rparr>, w)) (\<lambda>(s', w').
          Inr (s'\<lparr>lib_state := tl_leave lib t (lib_state s')\<rparr>, w')))"

definition timer_manage ::
  "('l, 'c) timer_lib \<Rightarrow> ('c \<Rightarrow> 'l sched \<times> 'w \<Rightarrow> ('l sched \<times> 'w) res) \<Rightarrow>
   'l sched \<times> 'w \<Rightarrow> ('l sched \<times> 'w) res" where
  "timer_manage lib run sw =
     (case sw of (s, w) \<Rightarrow> case tl_expire lib (lib_state s) of (xs, l) \<Rightarrow>
        fold_res (run_timer lib run) xs (s\<lparr>lib_state := l\<rparr>, w))"

definition sched_process_events ::
  "('l, 'c) timer_lib \<Rightarrow> ('c \<Rightarrow> 'l sched \<times> 'w \<Rightarrow> ('l sched \<times> 'w) res) \<Rightarrow> cycles \<Rightarrow>
   'l sched \<times> 'w \<Rightarrow> ('l sched \<times> 'w) res" where
  "sched_process_events lib run now sw =
     (case sw of (s, w) \<Rightarrow>
        if usec_cycles s \<le> now - prev_cycles s
        then noexcept (timer_manage lib run (s\<lparr>prev_cycles := now\<rparr>, w))
        else Inr (s, w))"

subsection \<open>Event handles\<close>

text \<open>There is one scheduler, so the handle's pointer to it is a null pointer or that one.\<close>

record handle =
  tmr :: "timer option"
  has_scheduler :: bool

definition handle_empty :: handle where
  "handle_empty = \<lparr>tmr = None, has_scheduler = False\<rparr>"

definition handle_new :: "('l, 'c) timer_lib \<Rightarrow> 'l sched \<Rightarrow> handle \<times> 'l sched" where
  "handle_new lib s =
     (case get_timer lib s of (t, s') \<Rightarrow> (\<lparr>tmr = Some t, has_scheduler = True\<rparr>, s'))"

definition handle_destroy ::
  "build \<Rightarrow> ('l, 'c) timer_lib \<Rightarrow> handle \<Rightarrow> 'l sched \<Rightarrow> 'l sched res" where
  "handle_destroy bld lib h s =
     (case tmr h of
        None \<Rightarrow> Inr s
      | Some t \<Rightarrow> if has_scheduler h then ret_timer bld lib t s else Inl Undefined)"

text \<open>The move constructor: the new handle and what is left of the old one.\<close>

definition handle_move :: "handle \<Rightarrow> handle \<times> handle" where
  "handle_move rhs = (\<lparr>tmr = tmr rhs, has_scheduler = has_scheduler rhs\<rparr>, handle_empty)"

text \<open>
  The move assignment takes the right hand side and the assigned handle and gives both back. Its
  unqualified \<open>swap\<close> finds only \<open>std::swap\<close>, whose three moves are one move construction and two
  move assignments: a call of the operator itself. None stands for a call that never returns.
\<close>

partial_function (option) handle_assign ::
  "build \<Rightarrow> ('l, 'c) timer_lib \<Rightarrow> handle \<Rightarrow> handle \<Rightarrow> 'l sched \<Rightarrow>
   (handle \<times> handle \<times> 'l sched) res option" where
  "handle_assign bld lib rhs this s =
     (case handle_move rhs of (tmp, rhs1) \<Rightarrow>
      case handle_swap bld of
        Member_swap \<Rightarrow>
          Some (bind_res (handle_destroy bld lib this s) (\<lambda>s'. Inr (rhs1, tmp, s')))
      | Std_swap \<Rightarrow>
          (case handle_move tmp of (t, a) \<Rightarrow>
             Option.bind (handle_assign bld lib this a s) (\<lambda>r1. case r1 of
               Inl e \<Rightarrow> Some (Inl e)
             | Inr (b1, a1, s1) \<Rightarrow>
                 Option.bind (handle_assign bld lib t b1 s1) (\<lambda>r2. case r2 of
                   Inl e \<Rightarrow> Some (Inl e)
                 | Inr (t2, b2, s2) \<Rightarrow>
                     Some (bind_res (handle_destroy bld lib t2 s2) (\<lambda>s3.
                       bind_res (handle_destroy bld lib a1 s3) (\<lambda>s4. Inr (rhs1, b2, s4))))))))"

definition assign_handle ::
  "build \<Rightarrow> ('l, 'c) timer_lib \<Rightarrow> handle \<Rightarrow> handle \<Rightarrow> 'l sched \<Rightarrow> (handle \<times> handle \<times> 'l sched) res" where
  "assign_handle bld lib rhs this s =
     (case handle_assign bld lib rhs this s of None \<Rightarrow> Inl Diverged | Some r \<Rightarrow> r)"

definition handle_schedule ::
  "build \<Rightarrow> ('l, 'c) timer_lib \<Rightarrow> timer_type \<Rightarrow> handle \<Rightarrow> cycles \<Rightarrow> 'c \<Rightarrow> 'l sched \<Rightarrow> 'l sched res" where
  "handle_schedule bld lib ty h rel_time cb s =
     (if has_scheduler h
      then (case ty of
              Single \<Rightarrow> sched_single bld lib (tmr h) rel_time cb s
            | Periodical \<Rightarrow> sched_periodic bld lib (tmr h) rel_time cb s)
      else Inl Undefined)"

subsection \<open>What the timer library documents\<close>

text \<open>
  Two views of the library's state: \<open>armed\<close> is the context each pending timer will be called with,
  \<open>busy\<close> the timers taken out by the current \<open>rte_timer_manage\<close> whose callbacks have not started
  yet. Stopping or resetting a timer fails only for a busy one; a timer that expires was armed, with
  the context of its last reset.
\<close>

definition timers_documented ::
  "('l, 'c) timer_lib \<Rightarrow> ('l \<Rightarrow> timer set) \<Rightarrow> ('l \<Rightarrow> timer \<Rightarrow> 'c option) \<Rightarrow> bool" where
  "timers_documented lib busy armed \<longleftrightarrow>
     busy (tl_subsystem_init lib) = {} \<and> armed (tl_subsystem_init lib) = Map.empty \<and>
     (\<forall>t l. busy (tl_init lib t l) = busy l \<and> armed (tl_init lib t l) = (armed l)(t := None)) \<and>
     (\<forall>t l. t \<notin> busy l \<longrightarrow> (\<exists>l'. tl_stop lib t l = (0, l') \<and> busy l' = busy l \<and>
        armed l' = (armed l)(t := None))) \<and>
     (\<forall>t n ty lc c l. t \<notin> busy l \<longrightarrow> (\<exists>l'. tl_reset lib t n ty lc c l = (0, l') \<and>
        busy l' = busy l \<and> armed l' = (armed l)(t \<mapsto> c))) \<and>
     (\<forall>l. \<exists>xs l'. tl_expire lib l = (xs, l') \<and> armed l' \<subseteq>\<^sub>m armed l \<and>
        busy l' = busy l \<union> fst ` set xs \<and> (\<forall>(t, c) \<in> set xs. armed l t = Some c)) \<and>
     (\<forall>t l. busy (tl_enter lib t l) = busy l - {t} \<and> armed (tl_enter lib t l) \<subseteq>\<^sub>m armed l) \<and>
     (\<forall>t l. busy (tl_leave lib t l) = busy l \<and> armed (tl_leave lib t l) \<subseteq>\<^sub>m armed l)"

lemma timers_initD:
  assumes "timers_documented lib busy armed"
  shows "busy (tl_subsystem_init lib) = {}" "armed (tl_subsystem_init lib) = Map.empty"
    "busy (tl_init lib t l) = busy l" "armed (tl_init lib t l) = (armed l)(t := None)"
  using assms by (simp_all add: timers_documented_def)

lemma timers_stopE:
  assumes "timers_documented lib busy armed" "t \<notin> busy l"
  obtains l' where "tl_stop lib t l = (0, l')" "busy l' = busy l" "armed l' = (armed l)(t := None)"
proof -
  have "\<forall>t l. t \<notin> busy l \<longrightarrow> (\<exists>l'. tl_stop lib t l = (0, l') \<and> busy l' = busy l \<and>
      armed l' = (armed l)(t := None))"
    using assms(1) unfolding timers_documented_def by (elim conjE)
  then have "\<exists>l'. tl_stop lib t l = (0, l') \<and> busy l' = busy l \<and> armed l' = (armed l)(t := None)"
    using assms(2) by (elim allE impE)
  then show ?thesis by (elim exE conjE) (rule that)
qed

lemma timers_resetE:
  assumes "timers_documented lib busy armed" "t \<notin> busy l"
  obtains l' where "tl_reset lib t n ty lc c l = (0, l')" "busy l' = busy l"
    "armed l' = (armed l)(t \<mapsto> c)"
proof -
  have "\<forall>t n ty lc c l. t \<notin> busy l \<longrightarrow> (\<exists>l'. tl_reset lib t n ty lc c l = (0, l') \<and>
        busy l' = busy l \<and> armed l' = (armed l)(t \<mapsto> c))"
    using assms(1) unfolding timers_documented_def by (elim conjE)
  then have "\<exists>l'. tl_reset lib t n ty lc c l = (0, l') \<and> busy l' = busy l \<and>
      armed l' = (armed l)(t \<mapsto> c)"
    using assms(2) by (elim allE impE)
  then show ?thesis by (elim exE conjE) (rule that)
qed

lemma timers_expireE:
  assumes "timers_documented lib busy armed"
  obtains xs l' where "tl_expire lib l = (xs, l')" "armed l' \<subseteq>\<^sub>m armed l"
    "busy l' = busy l \<union> fst ` set xs" "\<And>t c. (t, c) \<in> set xs \<Longrightarrow> armed l t = Some c"
proof -
  have "\<forall>l. \<exists>xs l'. tl_expire lib l = (xs, l') \<and> armed l' \<subseteq>\<^sub>m armed l \<and>
        busy l' = busy l \<union> fst ` set xs \<and> (\<forall>(t, c) \<in> set xs. armed l t = Some c)"
    using assms(1) unfolding timers_documented_def by (elim conjE)
  then have "\<exists>xs l'. tl_expire lib l = (xs, l') \<and> armed l' \<subseteq>\<^sub>m armed l \<and>
        busy l' = busy l \<union> fst ` set xs \<and> (\<forall>(t, c) \<in> set xs. armed l t = Some c)"
    by (elim allE)
  then show ?thesis by (elim exE conjE) (rule that, assumption+, blast)
qed

lemma timers_enterD:
  assumes "timers_documented lib busy armed"
  shows "busy (tl_enter lib t l) = busy l - {t}" "armed (tl_enter lib t l) \<subseteq>\<^sub>m armed l"
    "busy (tl_leave lib t l) = busy l" "armed (tl_leave lib t l) \<subseteq>\<^sub>m armed l"
  using assms by (simp_all add: timers_documented_def)

text \<open>
  The scheduler's bookkeeping, relative to the owners \<open>own\<close> of the timers: the live timers are the
  domain of \<open>own\<close>, the counter counts them, and whatever is armed is a live timer with its owner as
  the context.
\<close>

definition sched_ok ::
  "('l \<Rightarrow> timer \<Rightarrow> 'c option) \<Rightarrow> (timer \<Rightarrow> 'c option) \<Rightarrow> 'l sched \<Rightarrow> bool" where
  "sched_ok armed own s \<longleftrightarrow>
     finite (dom own) \<and> (\<forall>t \<in> dom own. t < next_tmr s) \<and>
     cnt_timers s = of_nat (card (dom own)) \<and> armed (lib_state s) \<subseteq>\<^sub>m own"

lemma sched_ok_new:
  assumes "timers_documented lib busy armed"
  shows "sched_ok armed Map.empty (sched_new lib hz lc)"
  by (simp add: sched_ok_def sched_new_def timers_initD [OF assms])

lemma sched_ok_destroy:
  "sched_ok armed Map.empty s \<Longrightarrow> sched_destroy as_meant s = Inr ()"
  by (simp add: sched_ok_def sched_destroy_def)

lemma sched_ok_count:
  "sched_ok armed own s \<Longrightarrow> card (dom own) < 2 ^ 32 \<Longrightarrow> count_events s = card (dom own)"
  by (simp add: sched_ok_def count_events_def unat_of_nat)

lemma handle_new_ok:
  assumes lib: "timers_documented lib busy armed" and ok: "sched_ok armed own s"
    and new: "handle_new lib s = (h, s')"
  shows "tmr h = Some (next_tmr s)" "has_scheduler h" "next_tmr s \<notin> dom own"
    "sched_ok armed (own(next_tmr s \<mapsto> c)) s'" "busy (lib_state s') = busy (lib_state s)"
proof -
  have h: "h = \<lparr>tmr = Some (next_tmr s), has_scheduler = True\<rparr>"
    "s' = s\<lparr>next_tmr := Suc (next_tmr s), lib_state := tl_init lib (next_tmr s) (lib_state s),
            cnt_timers := cnt_timers s + 1\<rparr>"
    using new by (auto simp: handle_new_def get_timer_def Let_def)
  show "tmr h = Some (next_tmr s)" "has_scheduler h" by (simp_all add: h)
  show fresh: "next_tmr s \<notin> dom own" using ok by (auto simp: sched_ok_def)
  show "busy (lib_state s') = busy (lib_state s)" by (simp add: h timers_initD [OF lib])
  have "armed (tl_init lib (next_tmr s) (lib_state s)) \<subseteq>\<^sub>m own(next_tmr s \<mapsto> c)"
    using ok fresh by (auto simp: sched_ok_def timers_initD [OF lib] map_le_def)
  then show "sched_ok armed (own(next_tmr s \<mapsto> c)) s'"
    using ok fresh by (auto simp: sched_ok_def h less_SucI)
qed

lemma ret_timer_ok:
  assumes lib: "timers_documented lib busy armed" and ok: "sched_ok armed own s"
    and t: "t \<in> dom own" "t \<notin> busy (lib_state s)"
  shows "\<exists>s'. ret_timer as_meant lib t s = Inr s' \<and> sched_ok armed (own(t := None)) s' \<and>
    busy (lib_state s') = busy (lib_state s)"
proof -
  obtain l' where l': "tl_stop lib t (lib_state s) = (0, l')" "busy l' = busy (lib_state s)"
    "armed l' = (armed (lib_state s))(t := None)"
    using timers_stopE [OF lib t(2)] by blast
  have fin: "finite (dom own)" and cnt: "cnt_timers s = of_nat (card (dom own))"
    using ok by (simp_all add: sched_ok_def)
  have "card (dom own) = Suc (card (dom own - {t}))"
    using fin t(1) by (rule card.remove)
  with cnt have "cnt_timers s - 1 = of_nat (card (dom own - {t}))"
    by simp
  moreover have "(armed (lib_state s))(t := None) \<subseteq>\<^sub>m own(t := None)"
    using ok by (simp add: sched_ok_def map_le_def)
  ultimately have
    "sched_ok armed (own(t := None)) (s\<lparr>lib_state := l', cnt_timers := cnt_timers s - 1\<rparr>)"
    using ok by (simp add: sched_ok_def l')
  then show ?thesis by (simp add: ret_timer_def l')
qed

lemma handle_schedule_live:
  "has_scheduler h \<Longrightarrow> tmr h = Some t \<Longrightarrow>
     handle_schedule bld lib ty h rel c s = reset_timer bld lib ty (Some t) rel c s"
  by (cases ty) (simp_all add: handle_schedule_def sched_single_def sched_periodic_def)

lemma handle_schedule_ok:
  assumes lib: "timers_documented lib busy armed" and ok: "sched_ok armed own s"
    and h: "has_scheduler h" "tmr h = Some t" and t: "own t = Some c" "t \<notin> busy (lib_state s)"
  shows "\<exists>s'. handle_schedule as_meant lib ty h rel c s = Inr s' \<and> sched_ok armed own s' \<and>
    busy (lib_state s') = busy (lib_state s) \<and> armed (lib_state s') = (armed (lib_state s))(t \<mapsto> c)"
proof -
  have "\<exists>l'. tl_reset lib t (num rel) ty (sched_lcore s) c (lib_state s) = (0, l') \<and>
      busy l' = busy (lib_state s) \<and> armed l' = (armed (lib_state s))(t \<mapsto> c)"
    by (rule timers_resetE [OF lib t(2), of "num rel" ty "sched_lcore s" c]) blast
  then obtain l' where l': "tl_reset lib t (num rel) ty (sched_lcore s) c (lib_state s) = (0, l')"
    "busy l' = busy (lib_state s)" "armed l' = (armed (lib_state s))(t \<mapsto> c)" by blast
  have "(armed (lib_state s))(t \<mapsto> c) \<subseteq>\<^sub>m own"
    using ok t(1) by (auto simp: sched_ok_def map_le_def)
  then have "sched_ok armed own (s\<lparr>lib_state := l'\<rparr>)"
    using ok by (simp add: sched_ok_def l')
  then show ?thesis
    by (simp add: handle_schedule_live [OF h] reset_timer_def l')
qed

subsection \<open>Assigning handles\<close>

lemma handle_assign_Some:
  assumes "handle_assign bld lib rhs this s = Some r"
  shows "handle_swap bld \<noteq> Std_swap"
proof (rule handle_assign.raw_induct [where P = "\<lambda>bld lib rhs this s r. handle_swap bld \<noteq> Std_swap",
      OF _ assms])
  fix f bld lib rhs this s r
  assume IH: "\<And>bld lib rhs this s r. f bld lib rhs this s = Some r \<Longrightarrow> handle_swap bld \<noteq> Std_swap"
    and body: "(case handle_move rhs of (tmp, rhs1) \<Rightarrow>
      case handle_swap bld of
        Std_swap \<Rightarrow>
          (case handle_move tmp of (t, a) \<Rightarrow>
             Option.bind (f bld lib this a s) (\<lambda>r1. case r1 of
               Inl e \<Rightarrow> Some (Inl e)
             | Inr (b1, a1, s1) \<Rightarrow>
                 Option.bind (f bld lib t b1 s1) (\<lambda>r2. case r2 of
                   Inl e \<Rightarrow> Some (Inl e)
                 | Inr (t2, b2, s2) \<Rightarrow>
                     Some (bind_res (handle_destroy bld lib t2 s2) (\<lambda>s3.
                       bind_res (handle_destroy bld lib a1 s3) (\<lambda>s4. Inr (rhs1, b2, s4)))))))
      | Member_swap \<Rightarrow>
          Some (bind_res (handle_destroy bld lib this s) (\<lambda>s'. Inr (rhs1, tmp, s')))) = Some r"
  show "handle_swap bld \<noteq> Std_swap"
  proof
    assume std: "handle_swap bld = Std_swap"
    then obtain r1 where "f bld lib this handle_empty s = Some r1"
      using body by (auto simp: handle_move_def split: bind_splits)
    from IH [OF this] std show False by simp
  qed
qed

lemma handle_assign_meant:
  "assign_handle as_meant lib rhs this s =
     bind_res (handle_destroy as_meant lib this s) (\<lambda>s'. Inr (handle_empty, rhs, s'))"
  by (cases rhs) (simp add: assign_handle_def handle_assign.simps [of as_meant] handle_move_def)

text \<open>Assigning to an empty handle only moves the timer.\<close>

lemma assign_handle_empty:
  "tmr this = None \<Longrightarrow> assign_handle as_meant lib rhs this s = Inr (handle_empty, rhs, s)"
  by (simp add: handle_assign_meant handle_destroy_def)

subsection \<open>Running the expired timers\<close>

text \<open>
  A callback that keeps the bookkeeping, keeps \<open>P\<close> and does not fail for a timer that is not busy
  can be run for every expired timer.
\<close>

definition callback_total ::
  "('l \<Rightarrow> timer set) \<Rightarrow> ('l \<Rightarrow> timer \<Rightarrow> 'c option) \<Rightarrow> (timer \<Rightarrow> 'c option) \<Rightarrow> ('w \<Rightarrow> bool) \<Rightarrow>
   ('c \<Rightarrow> 'l sched \<times> 'w \<Rightarrow> ('l sched \<times> 'w) res) \<Rightarrow> bool" where
  "callback_total busy armed own P run \<longleftrightarrow>
     (\<forall>t c s w. own t = Some c \<longrightarrow> sched_ok armed own s \<longrightarrow> t \<notin> busy (lib_state s) \<longrightarrow> P w \<longrightarrow>
        (\<exists>s' w'. run c (s, w) = Inr (s', w') \<and> sched_ok armed own s' \<and>
           busy (lib_state s') = busy (lib_state s) \<and> P w'))"

lemma callback_totalE:
  assumes "callback_total busy armed own P run" "own t = Some c" "sched_ok armed own s"
    "t \<notin> busy (lib_state s)" "P w"
  obtains s' w' where "run c (s, w) = Inr (s', w')" "sched_ok armed own s'"
    "busy (lib_state s') = busy (lib_state s)" "P w'"
  using assms unfolding callback_total_def by blast

lemma sched_ok_lib:
  "sched_ok armed own s \<Longrightarrow> armed l \<subseteq>\<^sub>m armed (lib_state s) \<Longrightarrow> sched_ok armed own (s\<lparr>lib_state := l\<rparr>)"
  by (auto simp: sched_ok_def intro: map_le_trans)

lemma run_timers_total:
  assumes lib: "timers_documented lib busy armed" and cb: "callback_total busy armed own P run"
  shows "\<lbrakk>sched_ok armed own s; P w; busy (lib_state s) \<subseteq> fst ` set xs;
          \<And>t c. (t, c) \<in> set xs \<Longrightarrow> own t = Some c\<rbrakk> \<Longrightarrow>
    \<exists>s' w'. fold_res (run_timer lib run) xs (s, w) = Inr (s', w') \<and> sched_ok armed own s' \<and>
      busy (lib_state s') = {} \<and> P w'"
proof (induction xs arbitrary: s w)
  case Nil
  then show ?case by simp
next
  case (Cons x xs)
  obtain t c where x: "x = (t, c)" by (cases x)
  define s1 where "s1 = s\<lparr>lib_state := tl_enter lib t (lib_state s)\<rparr>"
  have own: "own t = Some c" using Cons.prems(4) x by simp
  have s1: "sched_ok armed own s1" "busy (lib_state s1) = busy (lib_state s) - {t}"
    using sched_ok_lib [OF Cons.prems(1) timers_enterD(2) [OF lib]]
    by (simp_all add: s1_def timers_enterD(1) [OF lib])
  have "t \<notin> busy (lib_state s1)" by (simp add: s1(2))
  from callback_totalE [OF cb own s1(1) this Cons.prems(2)]
  obtain s2 w2 where run: "run c (s1, w) = Inr (s2, w2)" "sched_ok armed own s2"
    "busy (lib_state s2) = busy (lib_state s1)" "P w2" .
  define s3 where "s3 = s2\<lparr>lib_state := tl_leave lib t (lib_state s2)\<rparr>"
  have s3: "sched_ok armed own s3" "busy (lib_state s3) = busy (lib_state s) - {t}"
    using sched_ok_lib [OF run(2) timers_enterD(4) [OF lib]]
    by (simp_all add: s3_def timers_enterD(3) [OF lib] run(3) s1(2))
  have "busy (lib_state s3) \<subseteq> fst ` set xs"
    using Cons.prems(3) x by (auto simp: s3(2))
  from Cons.IH [OF s3(1) run(4) this] Cons.prems(4)
  obtain s' w' where "fold_res (run_timer lib run) xs (s3, w2) = Inr (s', w')"
    "sched_ok armed own s'" "busy (lib_state s') = {}" "P w'" by auto
  moreover have "run_timer lib run x (s, w) = Inr (s3, w2)"
    using run(1) by (simp add: run_timer_def x s1_def s3_def)
  ultimately show ?case by auto
qed

lemma sched_process_events_total:
  assumes lib: "timers_documented lib busy armed" and cb: "callback_total busy armed own P run"
    and s: "sched_ok armed own s" "busy (lib_state s) = {}" and w: "P w"
  shows "\<exists>s' w'. sched_process_events lib run now (s, w) = Inr (s', w') \<and> sched_ok armed own s' \<and>
    busy (lib_state s') = {} \<and> P w'"
proof (cases "usec_cycles s \<le> now - prev_cycles s")
  case False
  then show ?thesis using s w by (simp add: sched_process_events_def)
next
  case True
  obtain xs l' where ex: "tl_expire lib (lib_state s) = (xs, l')" "armed l' \<subseteq>\<^sub>m armed (lib_state s)"
    "busy l' = busy (lib_state s) \<union> fst ` set xs" "\<And>t c. (t, c) \<in> set xs \<Longrightarrow> armed (lib_state s) t = Some c"
    using timers_expireE [OF lib, of "lib_state s"] by metis
  define s1 where "s1 = s\<lparr>prev_cycles := now, lib_state := l'\<rparr>"
  have "sched_ok armed own (s\<lparr>lib_state := l'\<rparr>)" by (rule sched_ok_lib [OF s(1) ex(2)])
  then have s1: "sched_ok armed own s1" by (simp add: sched_ok_def s1_def)
  have own: "own t = Some c" if "(t, c) \<in> set xs" for t c
    using ex(4) [OF that] s(1) by (auto simp: sched_ok_def map_le_def dom_def) 
  have "busy (lib_state s1) \<subseteq> fst ` set xs" by (simp add: s1_def ex(3) s(2))
  from run_timers_total [OF lib cb s1 w this own] obtain s' w' where
    "fold_res (run_timer lib run) xs (s1, w) = Inr (s', w')" "sched_ok armed own s'"
    "busy (lib_state s') = {}" "P w'" by blast
  then show ?thesis
    using True by (simp add: sched_process_events_def timer_manage_def ex(1) s1_def)
qed

subsection \<open>A timer library that behaves as documented\<close>

text \<open>
  For the witnesses: an association list of the armed timers, newest first, whose timers all expire
  at the next \<open>rte_timer_manage\<close>, and the list of the busy ones.
\<close>

definition sample_timers :: "((timer \<times> 'c) list \<times> timer list, 'c) timer_lib" where
  "sample_timers =
     \<lparr>tl_subsystem_init = ([], []),
      tl_init = (\<lambda>t (a, b). (AList.delete t a, b)),
      tl_reset = (\<lambda>t n ty lc c (a, b).
        if t \<in> set b then (- 1, (a, b)) else (0, ((t, c) # AList.delete t a, b))),
      tl_stop = (\<lambda>t (a, b). if t \<in> set b then (- 1, (a, b)) else (0, (AList.delete t a, b))),
      tl_expire = (\<lambda>(a, b). (AList.clearjunk a, ([], map fst a @ b))),
      tl_enter = (\<lambda>t (a, b). (a, removeAll t b)),
      tl_leave = (\<lambda>t (a, b). (a, b))\<rparr>"

definition sample_busy :: "(timer \<times> 'c) list \<times> timer list \<Rightarrow> timer set" where
  "sample_busy l = set (snd l)"

definition sample_armed :: "(timer \<times> 'c) list \<times> timer list \<Rightarrow> timer \<Rightarrow> 'c option" where
  "sample_armed l = map_of (fst l)"

lemma clearjunk_keys: "fst ` set (AList.clearjunk a) = fst ` set a"
  by (rule dom_clearjunk)

lemma clearjunk_lookup: "(t, c) \<in> set (AList.clearjunk a) \<Longrightarrow> map_of a t = Some c"
  by (metis distinct_clearjunk map_of_clearjunk map_of_is_SomeI)

lemma sample_timers_documented: "timers_documented sample_timers sample_busy sample_armed"
  unfolding timers_documented_def
  by (intro conjI allI)
     (auto simp: sample_timers_def sample_busy_def sample_armed_def map_le_def delete_conv'
        clearjunk_keys clearjunk_lookup split: prod.splits)

subsection \<open>Correctness\<close>

fun handles_new :: "('l, 'c) timer_lib \<Rightarrow> nat \<Rightarrow> 'l sched \<Rightarrow> handle list \<times> 'l sched" where
  "handles_new lib 0 s = ([], s)"
| "handles_new lib (Suc n) s =
     (case handle_new lib s of (h, s1) \<Rightarrow>
      case handles_new lib n s1 of (hs, s2) \<Rightarrow> (h # hs, s2))"

definition destroy_handles ::
  "build \<Rightarrow> ('l, 'c) timer_lib \<Rightarrow> handle list \<Rightarrow> 'l sched \<Rightarrow> 'l sched res" where
  "destroy_handles bld lib = fold_res (handle_destroy bld lib)"

text \<open>The handles of a list that own a timer, and each a different one of the scheduler's.\<close>

definition handles_ok :: "(timer \<Rightarrow> 'c option) \<Rightarrow> handle list \<Rightarrow> bool" where
  "handles_ok own hs \<longleftrightarrow>
     distinct (map tmr hs) \<and> (\<forall>h \<in> set hs. has_scheduler h \<and> (\<exists>t \<in> dom own. tmr h = Some t))"

lemma handles_new_ok:
  assumes lib: "timers_documented lib busy armed"
  shows "\<lbrakk>sched_ok armed own s; handles_new lib n s = (hs, s')\<rbrakk> \<Longrightarrow>
    \<exists>own'. sched_ok armed own' s' \<and> busy (lib_state s') = busy (lib_state s) \<and>
      own \<subseteq>\<^sub>m own' \<and> handles_ok own' hs \<and> length hs = n \<and>
      dom own' = dom own \<union> {t. Some t \<in> tmr ` set hs} \<and>
      (\<forall>h \<in> set hs. tmr h \<notin> Some ` dom own)"
proof (induction n arbitrary: s own hs)
  case 0
  then show ?case by (auto simp: handles_ok_def)
next
  case (Suc n)
  obtain h s1 hs1 where h: "handle_new lib s = (h, s1)"
    and hs1: "handles_new lib n s1 = (hs1, s')" "hs = h # hs1"
    using Suc.prems(2) by (auto split: prod.splits)
  define own1 where "own1 = own(next_tmr s \<mapsto> undefined)"
  note new = handle_new_ok [OF lib Suc.prems(1) h]
  have s1: "sched_ok armed own1 s1" using new(4) by (simp add: own1_def)
  obtain own' where own': "sched_ok armed own' s'" "busy (lib_state s') = busy (lib_state s1)"
      "own1 \<subseteq>\<^sub>m own'" "handles_ok own' hs1" "length hs1 = n"
      "dom own' = dom own1 \<union> {t. Some t \<in> tmr ` set hs1}"
      "\<forall>h \<in> set hs1. tmr h \<notin> Some ` dom own1"
    using Suc.IH [OF s1 hs1(1)] by blast
  have le: "own \<subseteq>\<^sub>m own'"
  proof -
    have "own \<subseteq>\<^sub>m own1" using new(3) by (auto simp: own1_def map_le_def)
    then show ?thesis using own'(3) by (rule map_le_trans)
  qed
  have "tmr h \<notin> tmr ` set hs1"
    using own'(7) new(1) by (auto simp: own1_def)
  moreover have "next_tmr s \<in> dom own'" using own'(6) by (simp add: own1_def)
  ultimately have ok: "handles_ok own' hs"
    using own'(4) new(1,2) by (auto simp: handles_ok_def hs1(2))
  have dom: "dom own' = dom own \<union> {t. Some t \<in> tmr ` set hs}"
    using own'(6) new(1) by (auto simp: own1_def hs1(2))
  have "\<forall>h \<in> set hs. tmr h \<notin> Some ` dom own"
    using own'(7) new(1,3) by (auto simp: own1_def hs1(2))
  with own' new(5) le ok dom show ?case by (auto simp: hs1(2))
qed

lemma destroy_handles_ok:
  assumes lib: "timers_documented lib busy armed"
  shows "\<lbrakk>sched_ok armed own s; handles_ok own hs; busy (lib_state s) = {}\<rbrakk> \<Longrightarrow>
    \<exists>s'. destroy_handles as_meant lib hs s = Inr s' \<and> busy (lib_state s') = {} \<and>
      sched_ok armed (own |` (- {t. Some t \<in> tmr ` set hs})) s'"
proof (induction hs arbitrary: s own)
  case Nil
  then show ?case by (simp add: destroy_handles_def)
next
  case (Cons h hs)
  obtain t where t: "t \<in> dom own" "tmr h = Some t" "has_scheduler h"
    using Cons.prems(2) by (auto simp: handles_ok_def)
  obtain s1 where s1: "ret_timer as_meant lib t s = Inr s1" "sched_ok armed (own(t := None)) s1"
    "busy (lib_state s1) = {}"
    using ret_timer_ok [OF lib Cons.prems(1) t(1)] Cons.prems(3) by auto
  have "handles_ok (own(t := None)) hs"
    using Cons.prems(2) t(2) by (force simp: handles_ok_def)
  from Cons.IH [OF s1(2) this s1(3)] obtain s' where s':
    "destroy_handles as_meant lib hs s1 = Inr s'" "busy (lib_state s') = {}"
    "sched_ok armed ((own(t := None)) |` (- {t. Some t \<in> tmr ` set hs})) s'" by blast
  have "(own(t := None)) |` (- {t. Some t \<in> tmr ` set hs}) =
      own |` (- {u. Some u \<in> tmr ` set (h # hs)})"
    using t(2) by (auto simp: restrict_map_def)
  with s' s1(1) t show ?case
    by (simp add: destroy_handles_def handle_destroy_def)
qed

text \<open>
  Claim C32. The move assignment of event handles never returns: \<open>std::swap\<close> move-assigns, which
  calls the operator again.
\<close>

theorem handle_assign_never_returns:
  "assign_handle as_written lib rhs this s = Inl Diverged"
proof -
  have "handle_assign as_written lib rhs this s = None"
  proof (cases "handle_assign as_written lib rhs this s")
    case (Some r)
    from handle_assign_Some [OF this] show ?thesis by simp
  qed
  then show ?thesis by (simp add: assign_handle_def)
qed



end
