(* ===== verification/Tcap_Loader.thy ===== *)
theory Tcap_Loader
  imports Put_Packet
begin

section \<open>Loading capture files (gen/priv/tcap\_loader.cpp)\<close>

text \<open>
  A capture file is read record by record into packets. The file is the C library's \<open>FILE\<close>, the
  packets are allocated by a callback; the state \<open>'m\<close> the callback works on (the packet pool and
  whatever else) is passed along.
\<close>

subsection \<open>Streams of the C library\<close>

text \<open>
  The bytes not read yet, the error a read meets after them (None is the end of the file), the
  end-of-file indicator and the value of \<open>errno\<close>, which a read that meets the end leaves alone.
  \<open>fread\<close> of one element of \<open>n\<close> bytes returns 1 when it got all of them.
\<close>

record stream =
  st_bytes :: "u8 list"
  st_error :: "int option"
  st_eof :: bool
  st_errno :: int

definition fread :: "nat \<Rightarrow> stream \<Rightarrow> u8 list option \<times> stream" where
  "fread n f =
     (if n = 0 then (None, f)
      else if n \<le> length (st_bytes f)
      then (Some (take n (st_bytes f)), f\<lparr>st_bytes := drop n (st_bytes f)\<rparr>)
      else case st_error f of
             None \<Rightarrow> (None, f\<lparr>st_bytes := [], st_eof := True\<rparr>)
           | Some e \<Rightarrow> (None, f\<lparr>st_bytes := [], st_errno := e\<rparr>))"

lemma fread_Some:
  "fread n f = (Some bs, f') \<longleftrightarrow>
     0 < n \<and> n \<le> length (st_bytes f) \<and> bs = take n (st_bytes f) \<and>
     f' = f\<lparr>st_bytes := drop n (st_bytes f)\<rparr>"
  by (auto simp: fread_def split: option.splits)

lemma fread_positive: "(Some bs, f') = fread n f \<Longrightarrow> 0 < n"
  using fread_Some [of n f bs f'] by simp

lemma fread_short:
  "length (st_bytes f) < n \<Longrightarrow> st_error f = None \<Longrightarrow>
     fread n f = (None, f\<lparr>st_bytes := [], st_eof := True\<rparr>)"
  by (simp add: fread_def)

text \<open>The fields of the structures read, in the byte order of the x86 hosts DPDK runs on.\<close>

definition le16 :: "u8 list \<Rightarrow> nat \<Rightarrow> u16" where
  "le16 d p = of_nat (unat (d ! p) + 2 ^ 8 * unat (d ! (p + 1)))"

definition le32 :: "u8 list \<Rightarrow> nat \<Rightarrow> u32" where
  "le32 d p = of_nat (unat (d ! p) + 2 ^ 8 * unat (d ! (p + 1)) +
     2 ^ 16 * unat (d ! (p + 2)) + 2 ^ 24 * unat (d ! (p + 3)))"

subsection \<open>Opening\<close>

definition EINVAL :: int where "EINVAL = 22"
definition ENOMEM :: int where "ENOMEM = 12"

text \<open>
  \<open>fopen\<close> is a parameter that gives the error number or the stream. The file header is 24 bytes:
  the magic number, two 16 bit version numbers (2 and 4 for the format's only version) and fields
  the loader ignores.
\<close>

definition tcap_open :: "(string \<Rightarrow> int + stream) \<Rightarrow> string \<Rightarrow> stream res" where
  "tcap_open fopen path =
     (case fopen path of
        Inl err \<Rightarrow> throw_system_error err ''Failed to open PCAP file: {}'' [path]
      | Inr f \<Rightarrow>
          (case fread 24 f of
             (None, f') \<Rightarrow>
               throw_system_error (st_errno f') ''Failed to read PCAP file header from: {}'' [path]
           | (Some h, f') \<Rightarrow>
               if le32 h 0 \<noteq> 0xA1B2C3D4 \<or> le16 h 4 \<noteq> 2 \<or> le16 h 6 \<noteq> 4
               then throw_runtime_error ''Read invalid PCAP file header from: {}'' [path]
               else Inr f'))"

definition is_eof :: "stream \<Rightarrow> bool" where
  "is_eof f = st_eof f"

subsection \<open>Loading one packet\<close>

record tcap_pkt =
  tp_tstamp :: u64
  tp_mbuf :: mbuf

text \<open>Setting the data of the last segment of the chain.\<close>

definition set_last_segment :: "u8 list \<Rightarrow> mbuf \<Rightarrow> mbuf" where
  "set_last_segment bs h =
     (if mb_next h = [] then h\<lparr>mb_data := bs\<rparr> else h\<lparr>mb_next := butlast (mb_next h) @ [bs]\<rparr>)"

text \<open>
  The loop over the segments. \<open>rem\<close> is the number of bytes still to read, \<open>head\<close> the packet as far
  as it is built; \<open>first\<close> holds in the first round, in which \<open>prev\<close> is a null pointer. The result
  is the error number, if any, and the packet.
\<close>

function load_segments ::
  "('m \<Rightarrow> mbuf option \<times> 'm) \<Rightarrow> nat \<Rightarrow> bool \<Rightarrow> mbuf \<Rightarrow> stream \<Rightarrow> 'm \<Rightarrow>
   int option \<times> mbuf \<times> stream \<times> 'm" where
  "load_segments alloc rem first head f m =
     (if rem = 0 then (None, head, f, m)
      else case (if first then (Some head, m) else alloc m) of
        (None, m1) \<Rightarrow> (Some (system_error_code ENOMEM), head, f, m1)
      | (Some seg, m1) \<Rightarrow>
          let head1 = (if first then head
                       else head\<lparr>mb_next := mb_next head @ [[]], nb_segs := nb_segs head + 1\<rparr>);
              len = min rem (tailroom seg) in
          case fread len f of
            (None, f1) \<Rightarrow> (Some (system_error_code (st_errno f1)), head1, f1, m1)
          | (Some bs, f1) \<Rightarrow>
              load_segments alloc (rem - len) False
                (set_last_segment bs (head1\<lparr>pkt_len := pkt_len head1 + of_nat len\<rparr>)) f1 m1)"
  by pat_completeness auto
termination
  by (relation "measure (\<lambda>(alloc, rem, first, head, f, m). rem)") (auto dest: fread_positive)

declare load_segments.simps [simp del]

definition load_pkt ::
  "('m \<Rightarrow> mbuf option \<times> 'm) \<Rightarrow> (mbuf \<Rightarrow> 'm \<Rightarrow> 'm) \<Rightarrow> stream \<Rightarrow> 'm \<Rightarrow>
   (int + tcap_pkt) \<times> stream \<times> 'm" where
  "load_pkt alloc free f m =
     (case fread 16 f of
        (None, f1) \<Rightarrow> (Inl (system_error_code (st_errno f1)), f1, m)
      | (Some h, f1) \<Rightarrow>
          let sec = le32 h 0; usec = le32 h 4; caplen = le32 h 8; len = le32 h 12 in
          if caplen \<noteq> len then (Inl (system_error_code EINVAL), f1, m)
          else case alloc m of
            (None, m1) \<Rightarrow> (Inl (system_error_code ENOMEM), f1, m1)
          | (Some head, m1) \<Rightarrow>
              (case load_segments alloc (unat caplen) True head f1 m1 of
                 (Some err, head', f2, m2) \<Rightarrow> (Inl err, f2, free head' m2)
               | (None, head', f2, m2) \<Rightarrow>
                   (Inr \<lparr>tp_tstamp = ucast sec * 1000000 + ucast usec, tp_mbuf = head'\<rparr>, f2, m2)))"

subsection \<open>The bytes of a packet\<close>

definition mbuf_bytes :: "mbuf \<Rightarrow> u8 list" where
  "mbuf_bytes m = mb_data m @ concat (mb_next m)"

definition segments :: "mbuf \<Rightarrow> nat" where
  "segments m = Suc (length (mb_next m))"

definition fresh_mbuf :: "nat \<Rightarrow> mbuf" where
  "fresh_mbuf room =
     \<lparr>mb_data = [], mb_next = [], mb_room = room, pkt_len = 0, nb_segs = 1, ol_flags = 0,
      l2_len = 0, l3_len = 0\<rparr>"

text \<open>The lengths a packet carries agree with its data, and its first segment has room for itself.\<close>

definition mbuf_ok :: "mbuf \<Rightarrow> bool" where
  "mbuf_ok m \<longleftrightarrow>
     pkt_len m = of_nat (length (mbuf_bytes m)) \<and> nb_segs m = of_nat (segments m) \<and>
     length (mb_data m) \<le> mb_room m"

lemma mbuf_ok_fresh: "mbuf_ok (fresh_mbuf room)" "mbuf_bytes (fresh_mbuf room) = []"
  by (simp_all add: mbuf_ok_def mbuf_bytes_def segments_def fresh_mbuf_def)

text \<open>Allocation that never fails, as documented for a pool with packets left.\<close>

definition alloc_fresh :: "nat \<Rightarrow> ('m \<Rightarrow> mbuf option \<times> 'm) \<Rightarrow> bool" where
  "alloc_fresh room alloc \<longleftrightarrow> 0 < room \<and> (\<forall>m. \<exists>m'. alloc m = (Some (fresh_mbuf room), m'))"

lemma alloc_freshE:
  assumes "alloc_fresh room alloc"
  obtains m' where "alloc m = (Some (fresh_mbuf room), m')" "0 < room"
  using assms by (auto simp: alloc_fresh_def)

text \<open>A whole packet is read: one round of the loop after the first.\<close>

lemma load_segments_rest:
  assumes "alloc_fresh room alloc"
  shows "\<lbrakk>mbuf_ok head; rem \<le> length (st_bytes f)\<rbrakk> \<Longrightarrow>
    \<exists>head' m'. load_segments alloc rem False head f m =
        (None, head', f\<lparr>st_bytes := drop rem (st_bytes f)\<rparr>, m') \<and>
      mbuf_ok head' \<and> mb_data head' = mb_data head \<and>
      mbuf_bytes head' = mbuf_bytes head @ take rem (st_bytes f)"
proof (induction rem arbitrary: head f m rule: less_induct)
  case (less rem)
  show ?case
  proof (cases "rem = 0")
    case True
    then show ?thesis using less.prems by (simp add: load_segments.simps)
  next
    case False
    obtain m1 where m1: "alloc m = (Some (fresh_mbuf room), m1)" "0 < room"
      using assms by (rule alloc_freshE)
    define len where "len = min rem room"
    define f1 where "f1 = f\<lparr>st_bytes := drop len (st_bytes f)\<rparr>"
    define bs where "bs = take len (st_bytes f)"
    define head1 where "head1 = set_last_segment bs (head\<lparr>mb_next := mb_next head @ [[]],
        nb_segs := nb_segs head + 1, pkt_len := pkt_len head + of_nat len\<rparr>)"
    have len: "0 < len" "len \<le> rem" "len \<le> length (st_bytes f)"
      using False m1(2) less.prems(2) by (simp_all add: len_def)
    have fread: "fread len f = (Some bs, f1)"
      using len by (simp add: fread_Some bs_def f1_def)
    have lbs: "length bs = len" using len by (simp add: bs_def)
    have head1: "mb_data head1 = mb_data head" "mbuf_bytes head1 = mbuf_bytes head @ bs"
      "mbuf_ok head1"
      using less.prems(1)
      by (simp_all add: head1_def set_last_segment_def mbuf_bytes_def mbuf_ok_def segments_def lbs)
    have step: "load_segments alloc rem False head f m =
        load_segments alloc (rem - len) False head1 f1 m1"
      using False
      by (subst load_segments.simps)
         (simp add: m1(1) fresh_mbuf_def tailroom_def fread head1_def flip: len_def)
    have "rem - len < rem" "rem - len \<le> length (st_bytes f1)"
      using len less.prems(2) by (simp_all add: f1_def)
    from less.IH [OF this(1) head1(3) this(2), of m1] obtain head' m' where
      "load_segments alloc (rem - len) False head1 f1 m1 =
        (None, head', f1\<lparr>st_bytes := drop (rem - len) (st_bytes f1)\<rparr>, m')"
      "mbuf_ok head'" "mb_data head' = mb_data head1"
      "mbuf_bytes head' = mbuf_bytes head1 @ take (rem - len) (st_bytes f1)" by blast
    moreover have "bs @ take (rem - len) (st_bytes f1) = take rem (st_bytes f)"
      using len(2) by (simp add: bs_def f1_def flip: take_add)
    ultimately show ?thesis
      using len(2) by (simp add: step head1 f1_def)
  qed
qed

lemma load_segments_all:
  assumes alloc: "alloc_fresh room alloc" and rem: "rem \<le> length (st_bytes f)"
  shows "\<exists>head' m'. load_segments alloc rem True (fresh_mbuf room) f m =
      (None, head', f\<lparr>st_bytes := drop rem (st_bytes f)\<rparr>, m') \<and>
    mbuf_ok head' \<and> mb_data head' = take (min rem room) (st_bytes f) \<and>
    mbuf_bytes head' = take rem (st_bytes f)"
proof (cases "rem = 0")
  case True
  then show ?thesis by (simp add: load_segments.simps mbuf_ok_fresh) (simp add: fresh_mbuf_def)
next
  case False
  define len where "len = min rem room"
  define f1 where "f1 = f\<lparr>st_bytes := drop len (st_bytes f)\<rparr>"
  define bs where "bs = take len (st_bytes f)"
  define head1 where
    "head1 = set_last_segment bs ((fresh_mbuf room)\<lparr>pkt_len := pkt_len (fresh_mbuf room) + of_nat len\<rparr>)"
  have len: "0 < len" "len \<le> rem" "len \<le> room"
    using False alloc by (simp_all add: len_def alloc_fresh_def)
  have fread: "fread len f = (Some bs, f1)"
    using len rem by (simp add: fread_Some bs_def f1_def)
  have head1: "mb_data head1 = bs" "mbuf_bytes head1 = bs" "mbuf_ok head1"
    using len rem
    by (simp_all add: head1_def set_last_segment_def mbuf_bytes_def mbuf_ok_def segments_def
        fresh_mbuf_def bs_def)
  have step: "load_segments alloc rem True (fresh_mbuf room) f m =
      load_segments alloc (rem - len) False head1 f1 m"
    using False
    by (subst load_segments.simps)
       (simp add: fresh_mbuf_def tailroom_def fread head1_def flip: len_def)
  have "rem - len \<le> length (st_bytes f1)" using rem by (simp add: f1_def)
  from load_segments_rest [OF alloc head1(3) this, of m] obtain head' m' where
    "load_segments alloc (rem - len) False head1 f1 m =
      (None, head', f1\<lparr>st_bytes := drop (rem - len) (st_bytes f1)\<rparr>, m')"
    "mbuf_ok head'" "mb_data head' = mb_data head1"
    "mbuf_bytes head' = mbuf_bytes head1 @ take (rem - len) (st_bytes f1)" by blast
  moreover have "bs @ take (rem - len) (st_bytes f1) = take rem (st_bytes f)"
    using len(2) by (simp add: bs_def f1_def flip: take_add)
  ultimately show ?thesis
    using len(2) by (simp add: step head1 f1_def bs_def flip: len_def)
qed

subsection \<open>Records\<close>

text \<open>The bytes of a record as a capture program writes them.\<close>

definition le32_bytes :: "u32 \<Rightarrow> u8 list" where
  "le32_bytes v =
     [of_nat (unat v), of_nat (unat v div 2 ^ 8), of_nat (unat v div 2 ^ 16), of_nat (unat v div 2 ^ 24)]"

definition record_header :: "u32 \<Rightarrow> u32 \<Rightarrow> u32 \<Rightarrow> u32 \<Rightarrow> u8 list" where
  "record_header sec usec caplen len =
     le32_bytes sec @ le32_bytes usec @ le32_bytes caplen @ le32_bytes len"

lemma length_le32_bytes [simp]: "length (le32_bytes v) = 4"
  by (simp add: le32_bytes_def)

lemma nat_digits_256:
  fixes n :: nat
  assumes "n < 2 ^ 32"
  shows "n mod 256 + 256 * (n div 256 mod 256) + 65536 * (n div 65536 mod 256) +
    16777216 * (n div 16777216 mod 256) = n"
proof -
  define a b c where "a = n div 256" and "b = a div 256" and "c = b div 256"
  have "n = n mod 256 + 256 * a" "a = a mod 256 + 256 * b" "b = b mod 256 + 256 * c"
    by (simp_all add: a_def b_def c_def)
  moreover have "c mod 256 = c"
    using assms by (simp add: a_def b_def c_def flip: div_mult2_eq)
  moreover have "n div 65536 = b" "n div 16777216 = c"
    by (simp_all add: a_def b_def c_def flip: div_mult2_eq)
  ultimately show ?thesis by (simp only: flip: a_def)
qed

lemma unat_byte: "unat (of_nat k :: u8) = k mod 256"
  by (simp add: unat_of_nat)

lemma le32_of_bytes: "le32 (le32_bytes v) 0 = v"
proof -
  have "unat v < 2 ^ LENGTH(32)" by (rule unsigned_less)
  then have "unat v < 2 ^ 32" by simp
  note digits = nat_digits_256 [OF this]
  have "le32 (le32_bytes v) 0 = of_nat (unat (of_nat (unat v) :: u8) +
      2 ^ 8 * unat (of_nat (unat v div 2 ^ 8) :: u8) +
      2 ^ 16 * unat (of_nat (unat v div 2 ^ 16) :: u8) +
      2 ^ 24 * unat (of_nat (unat v div 2 ^ 24) :: u8))"
    unfolding le32_def le32_bytes_def
    by (simp only: nth_Cons_0 One_nat_def add_0 add_0_right nth_Cons_Suc numeral_2_eq_2 numeral_3_eq_3)
  also have "\<dots> = of_nat (unat v)"
  proof -
    have "(2 :: nat) ^ 8 = 256" "(2 :: nat) ^ 16 = 65536" "(2 :: nat) ^ 24 = 16777216" by simp_all
    then show ?thesis by (simp only: unat_byte digits)
  qed
  finally show ?thesis by simp
qed

lemma le32_append:
  "length bs = 4 \<Longrightarrow> le32 (pre @ bs @ post) (length pre) = le32 bs 0"
  by (simp add: le32_def nth_append numeral_2_eq_2 numeral_3_eq_3)

lemma le32_le32_bytes: "le32 (pre @ le32_bytes v @ post) (length pre) = v"
  by (simp only: le32_append [OF length_le32_bytes] le32_of_bytes)

lemma record_header_fields:
  assumes "h = record_header sec usec caplen len"
  shows "length h = 16" "le32 h 0 = sec" "le32 h 4 = usec" "le32 h 8 = caplen" "le32 h 12 = len"
  using le32_le32_bytes [of "[]" sec "le32_bytes usec @ le32_bytes caplen @ le32_bytes len"]
    le32_le32_bytes [of "le32_bytes sec" usec "le32_bytes caplen @ le32_bytes len"]
    le32_le32_bytes [of "le32_bytes sec @ le32_bytes usec" caplen "le32_bytes len"]
    le32_le32_bytes [of "le32_bytes sec @ le32_bytes usec @ le32_bytes caplen" len "[]"]
  by (simp_all add: assms record_header_def)

lemma fread_record_header:
  assumes "st_bytes f = record_header sec usec caplen len @ rest"
  shows "fread 16 f = (Some (record_header sec usec caplen len), f\<lparr>st_bytes := rest\<rparr>)"
  using assms record_header_fields(1) [OF refl, of sec usec caplen len] by (simp add: fread_Some)

lemma tstamp_exact:
  "unat (ucast (sec :: u32) * 1000000 + ucast (usec :: u32) :: u64) = unat sec * 1000000 + unat usec"
proof -
  have "unat sec < 2 ^ LENGTH(32)" "unat usec < 2 ^ LENGTH(32)" by (rule unsigned_less)+
  then have "unat sec < 2 ^ 32" "unat usec < 2 ^ 32" by simp_all
  then show ?thesis by (simp add: unat_word_ariths unsigned_ucast_eq take_bit_nat_eq_self)
qed

lemma load_pkt_record:
  assumes "alloc_fresh room alloc" and "length payload < 2 ^ 32"
    and "st_bytes f = record_header sec usec (of_nat (length payload)) (of_nat (length payload)) @
      payload @ rest"
  shows "\<exists>p m'. load_pkt alloc free f m = (Inr p, f\<lparr>st_bytes := rest\<rparr>, m') \<and>
    mbuf_bytes (tp_mbuf p) = payload \<and> mbuf_ok (tp_mbuf p) \<and>
    mb_data (tp_mbuf p) = take room payload \<and>
    tp_tstamp p = ucast sec * 1000000 + ucast usec"
proof -
  let ?n = "of_nat (length payload) :: u32" and ?f1 = "f\<lparr>st_bytes := payload @ rest\<rparr>"
  note hdr = record_header_fields [OF refl, of sec usec ?n ?n]
  have n: "unat ?n = length payload" by (rule unat_of_nat_less) (use assms(2) in simp)
  obtain m1 where m1: "alloc m = (Some (fresh_mbuf room), m1)"
    using assms(1) by (rule alloc_freshE)
  obtain head m2 where head: "load_segments alloc (length payload) True (fresh_mbuf room) ?f1 m1 =
      (None, head, ?f1\<lparr>st_bytes := rest\<rparr>, m2)" "mbuf_ok head"
    "mb_data head = take (min (length payload) room) (payload @ rest)" "mbuf_bytes head = payload"
    using load_segments_all [OF assms(1), of "length payload" ?f1 m1] by auto
  have "mb_data head = take room payload" using head(3) by (simp add: min_def)
  with head show ?thesis
    by (simp add: load_pkt_def fread_record_header [OF assms(3)] hdr n m1)
qed

text \<open>
  Claim C21. A record written for a payload is loaded as a packet of exactly these bytes, spread over
  as many segments as their size requires, with matching lengths and the exact time stamp; the next
  load continues after the record.
\<close>

theorem load_pkt_roundtrip:
  assumes "alloc_fresh room alloc" and "length payload < 2 ^ 32"
    and "st_bytes f = record_header sec usec (of_nat (length payload)) (of_nat (length payload)) @
      payload @ rest"
  shows "\<exists>p m'. load_pkt alloc free f m = (Inr p, f\<lparr>st_bytes := rest\<rparr>, m') \<and>
    mbuf_bytes (tp_mbuf p) = payload \<and> mbuf_ok (tp_mbuf p) \<and>
    mb_data (tp_mbuf p) = take room payload \<and>
    unat (tp_tstamp p) = unat sec * 1000000 + unat usec"
  using load_pkt_record [OF assms] tstamp_exact by fastforce

definition sample_alloc :: "nat \<Rightarrow> mbuf option \<times> nat" where
  "sample_alloc used = (Some (fresh_mbuf 2), used + 1)"

lemma sample_alloc_fresh: "alloc_fresh 2 sample_alloc"
  by (simp add: alloc_fresh_def sample_alloc_def)

theorem load_pkt_roundtrip_witness:
  "\<exists>p m'. load_pkt sample_alloc (\<lambda>_ m. m)
      \<lparr>st_bytes = record_header 1 5 3 3 @ [10, 20, 30] @ [], st_error = None, st_eof = False, st_errno = 0\<rparr>
      0 = (Inr p, \<lparr>st_bytes = [], st_error = None, st_eof = False, st_errno = 0\<rparr>, m') \<and>
    mbuf_bytes (tp_mbuf p) = [10, 20, 30] \<and> mb_data (tp_mbuf p) = [10, 20]"
  using load_pkt_roundtrip [OF sample_alloc_fresh, of "[10, 20, 30]"
      "\<lparr>st_bytes = record_header 1 5 3 3 @ [10, 20, 30] @ [], st_error = None, st_eof = False, st_errno = 0\<rparr>"
      1 5 "[]" "\<lambda>_ m. m" 0] by fastforce

subsection \<open>Truncated files and failures\<close>

lemma load_segments_short_rest:
  assumes alloc: "alloc_fresh room alloc" and err: "st_error f = None"
  shows "length (st_bytes f) < rem \<Longrightarrow>
    \<exists>e head' f' m'. load_segments alloc rem False head f m = (Some e, head', f', m') \<and> is_eof f'"
  using err
proof (induction rem arbitrary: head f m rule: less_induct)
  case (less rem)
  obtain m1 where m1: "alloc m = (Some (fresh_mbuf room), m1)" "0 < room"
    using alloc by (rule alloc_freshE)
  define len where "len = min rem room"
  have len: "0 < len" "len \<le> rem" using less.prems m1(2) by (auto simp: len_def)
  have room: "min rem (tailroom (fresh_mbuf room)) = len"
    by (simp add: len_def tailroom_def fresh_mbuf_def)
  show ?case
  proof (cases "len \<le> length (st_bytes f)")
    case False
    then have "fread len f = (None, f\<lparr>st_bytes := [], st_eof := True\<rparr>)"
      using less.prems(2) by (simp add: fread_short)
    then show ?thesis
      using less.prems(1) by (subst load_segments.simps) (simp add: m1(1) room is_eof_def)
  next
    case True
    then have fread: "fread len f = (Some (take len (st_bytes f)), f\<lparr>st_bytes := drop len (st_bytes f)\<rparr>)"
      using len by (simp add: fread_Some)
    have "rem - len < rem" "length (st_bytes (f\<lparr>st_bytes := drop len (st_bytes f)\<rparr>)) < rem - len"
      "st_error (f\<lparr>st_bytes := drop len (st_bytes f)\<rparr>) = None"
      using less.prems len True by auto
    from less.IH [OF this] less.prems(1) show ?thesis
      by (subst load_segments.simps) (simp add: m1(1) room fread)
  qed
qed

text \<open>
  A record that is cut short by the end of the file fails to load with the end-of-file
  indicator set, exactly as when there is no further record: the caller cannot tell them apart.
\<close>

lemma load_pkt_truncated_is_eof:
  assumes "alloc_fresh room alloc" and "st_error f = None"
    and "(st_bytes f = record_header sec usec n n @ part \<and> length part < unat n) \<or>
      length (st_bytes f) < 16"
  shows "\<exists>err f' m'. load_pkt alloc free f m = (Inl err, f', m') \<and> is_eof f'"
  using assms(3)
proof
  assume "length (st_bytes f) < 16"
  then show ?thesis using assms(2) by (simp add: load_pkt_def fread_short is_eof_def)
next
  assume f: "st_bytes f = record_header sec usec n n @ part \<and> length part < unat n"
  let ?f1 = "f\<lparr>st_bytes := part\<rparr>"
  note hdr = record_header_fields [OF refl, of sec usec n n]
  obtain m1 where m1: "alloc m = (Some (fresh_mbuf room), m1)"
    using assms(1) by (rule alloc_freshE)
  have "\<exists>e head' f' m'. load_segments alloc (unat n) True (fresh_mbuf room) ?f1 m1 =
      (Some e, head', f', m') \<and> is_eof f'"
  proof -
    obtain len where len: "len = min (unat n) room" "0 < len" "len \<le> unat n"
      using f assms(1) by (auto simp: alloc_fresh_def)
    have room: "min (unat n) (tailroom (fresh_mbuf room)) = len"
      by (simp add: len(1) tailroom_def fresh_mbuf_def)
    show ?thesis
    proof (cases "len \<le> length part")
      case False
      then have "fread len ?f1 = (None, ?f1\<lparr>st_bytes := [], st_eof := True\<rparr>)"
        using assms(2) by (simp add: fread_short)
      then show ?thesis
        using f by (subst load_segments.simps) (simp add: room is_eof_def)
    next
      case True
      then have fread: "fread len ?f1 = (Some (take len part), ?f1\<lparr>st_bytes := drop len part\<rparr>)"
        using len by (simp add: fread_Some)
      have "st_error (?f1\<lparr>st_bytes := drop len part\<rparr>) = None"
        "length (st_bytes (?f1\<lparr>st_bytes := drop len part\<rparr>)) < unat n - len"
        using f len True assms(2) by auto
      from load_segments_short_rest [OF assms(1) this] show ?thesis
        using f by (subst load_segments.simps) (simp add: room fread Let_def)
    qed
  qed
  then obtain e head' f' m' where "load_segments alloc (unat n) True (fresh_mbuf room) ?f1 m1 =
      (Some e, head', f', m')" "is_eof f'" by blast
  then show ?thesis
    by (simp add: load_pkt_def fread_record_header [OF conjunct1 [OF f]] hdr m1)
qed

lemma load_pkt_truncated_is_eof_witness:
  "\<exists>err f' m'. load_pkt sample_alloc (\<lambda>_ m. m)
      \<lparr>st_bytes = record_header 1 5 4 4 @ [10, 20, 30], st_error = None, st_eof = False, st_errno = 0\<rparr>
      0 = (Inl err, f', m') \<and> is_eof f'"
  by (rule load_pkt_truncated_is_eof [OF sample_alloc_fresh, where sec = 1 and usec = 5 and n = 4 and
        part = "[10, 20, 30]"]) simp_all

subsection \<open>No packet is leaked\<close>

text \<open>
  \<open>used\<close> counts the segments taken from the pool. Allocation takes one, if any; freeing a packet
  returns all segments of its chain.
\<close>

definition pool_counts ::
  "('m \<Rightarrow> mbuf option \<times> 'm) \<Rightarrow> (mbuf \<Rightarrow> 'm \<Rightarrow> 'm) \<Rightarrow> ('m \<Rightarrow> nat) \<Rightarrow> bool" where
  "pool_counts alloc free used \<longleftrightarrow>
     (\<forall>m. case alloc m of
        (None, m') \<Rightarrow> used m' = used m
      | (Some b, m') \<Rightarrow> mb_next b = [] \<and> used m' = used m + 1) \<and>
     (\<forall>b m. used (free b m) = used m - segments b)"

lemma pool_counts_alloc:
  assumes "pool_counts alloc free used"
  shows "alloc m = (None, m') \<Longrightarrow> used m' = used m"
    and "alloc m = (Some b, m') \<Longrightarrow> mb_next b = [] \<and> used m' = used m + 1"
proof -
  have "case alloc m of (None, m') \<Rightarrow> used m' = used m
      | (Some b, m') \<Rightarrow> mb_next b = [] \<and> used m' = used m + 1"
    using assms by (simp add: pool_counts_def)
  then show "alloc m = (None, m') \<Longrightarrow> used m' = used m"
    and "alloc m = (Some b, m') \<Longrightarrow> mb_next b = [] \<and> used m' = used m + 1"
    by auto
qed

lemma pool_counts_free: "pool_counts alloc free used \<Longrightarrow> used (free b m) = used m - segments b"
  by (simp add: pool_counts_def)

lemma segments_set_last [simp]: "segments (set_last_segment bs h) = segments h"
  by (simp add: segments_def set_last_segment_def)

lemma segments_pkt_len [simp]: "segments (h\<lparr>pkt_len := n\<rparr>) = segments h"
  by (simp add: segments_def)

lemma load_segments_used:
  assumes pool: "pool_counts alloc free used"
  shows "load_segments alloc rem first head f m = (r, head', f', m') \<Longrightarrow>
    used m' + segments head = used m + segments head'"
proof (induction rem arbitrary: first head f m rule: less_induct)
  case (less rem)
  show ?case
  proof (cases "rem = 0")
    case True
    then show ?thesis using less.prems by (simp add: load_segments.simps)
  next
    case False
    define head1 where "head1 = (if first then head
        else head\<lparr>mb_next := mb_next head @ [[]], nb_segs := nb_segs head + 1\<rparr>)"
    obtain s m1 where s: "(if first then (Some head, m) else alloc m) = (s, m1)" by force
    show ?thesis
    proof (cases s)
      case None
      then have "r \<noteq> None" "head' = head" "m' = m1" "\<not> first"
        using less.prems False s by (auto simp: load_segments.simps split: if_splits)
      then show ?thesis using s None pool_counts_alloc(1) [OF pool, of m m1] by simp
    next
      case (Some seg)
      have head1: "used m1 + segments head = used m + segments head1"
        using s Some pool_counts_alloc(2) [OF pool, of m seg m1]
        by (auto simp: head1_def segments_def split: if_splits)
      define len where "len = min rem (tailroom seg)"
      obtain b f1 where b: "fread len f = (b, f1)" by force
      have eq: "load_segments alloc rem first head f m =
          (case b of None \<Rightarrow> (Some (system_error_code (st_errno f1)), head1, f1, m1)
           | Some bs \<Rightarrow> load_segments alloc (rem - len) False
               (set_last_segment bs (head1\<lparr>pkt_len := pkt_len head1 + of_nat len\<rparr>)) f1 m1)"
        using False
        by (subst load_segments.simps) (simp add: s Some Let_def b flip: len_def head1_def split: option.split)
      show ?thesis
      proof (cases b)
        case None
        then show ?thesis using less.prems head1 by (simp add: eq)
      next
        case (Some bs)
        then have "0 < len" using b fread_positive by metis
        then have "rem - len < rem" using False by simp
        from less.IH [OF this] less.prems head1 show ?thesis
          by (fastforce simp: eq Some)
      qed
    qed
  qed
qed

lemma load_pkt_used:
  assumes "pool_counts alloc free used" and "load_pkt alloc free f m = (r, f', m')"
  shows "used m' = used m + (case r of Inl _ \<Rightarrow> 0 | Inr p \<Rightarrow> segments (tp_mbuf p))"
proof -
  obtain h f1 where h: "fread 16 f = (h, f1)" by force
  show ?thesis
  proof (cases "\<exists>hb b m1. h = Some hb \<and> le32 hb 8 = le32 hb 12 \<and> alloc m = (Some b, m1)")
    case False
    then show ?thesis
      using assms(2) h pool_counts_alloc(1) [OF assms(1), of m]
      by (auto simp: load_pkt_def Let_def split: option.splits if_splits prod.splits)
  next
    case True
    then obtain hb b m1 where hb: "h = Some hb" "le32 hb 8 = le32 hb 12" "alloc m = (Some b, m1)"
      by blast
    obtain e head' f2 m2 where ls: "load_segments alloc (unat (le32 hb 8)) True b f1 m1 = (e, head', f2, m2)"
      by (metis prod_cases4)
    have "used m2 + segments b = used m1 + segments head'"
      by (rule load_segments_used [OF assms(1) ls])
    moreover have "segments b = 1" "used m1 = used m + 1"
      using pool_counts_alloc(2) [OF assms(1) hb(3)] by (simp_all add: segments_def)
    ultimately have used: "used m2 = used m + segments head'" by simp
    show ?thesis
      using assms(2) used pool_counts_free [OF assms(1), of head' m2]
      by (cases e) (auto simp: load_pkt_def h hb ls [unfolded hb(2)] Let_def)
  qed
qed

text \<open>
  Whatever fails, no segment is leaked: a failed load leaves as many segments in use as
  before, and a successful one takes exactly those of the packet it returns.
\<close>

lemma load_pkt_no_leak:
  assumes "pool_counts alloc free used" and "load_pkt alloc free f m = (r, f', m')"
  shows "used m' = used m + (case r of Inl _ \<Rightarrow> 0 | Inr p \<Rightarrow> segments (tp_mbuf p))"
  by (rule load_pkt_used [OF assms])

definition sample_pool_alloc :: "nat \<Rightarrow> mbuf option \<times> nat" where
  "sample_pool_alloc used = (if used < 2 then (Some (fresh_mbuf 2), used + 1) else (None, used))"

definition sample_pool_free :: "mbuf \<Rightarrow> nat \<Rightarrow> nat" where
  "sample_pool_free b used = used - segments b"

lemma sample_pool_counts: "pool_counts sample_pool_alloc sample_pool_free (\<lambda>n. n)"
  by (simp add: pool_counts_def sample_pool_alloc_def sample_pool_free_def fresh_mbuf_def)

lemma load_pkt_no_leak_witness:
  "\<exists>r f' m'. load_pkt sample_pool_alloc sample_pool_free
     \<lparr>st_bytes = record_header 1 5 6 6 @ [1, 2, 3, 4, 5, 6], st_error = None, st_eof = False, st_errno = 0\<rparr> 0
     = (r, f', m') \<and> m' = (case r of Inl _ \<Rightarrow> 0 | Inr p \<Rightarrow> segments (tp_mbuf p))"
proof -
  obtain r f' m' where "load_pkt sample_pool_alloc sample_pool_free
     \<lparr>st_bytes = record_header 1 5 6 6 @ [1, 2, 3, 4, 5, 6], st_error = None, st_eof = False, st_errno = 0\<rparr> 0
     = (r, f', m')" by (metis prod_cases3)
  with load_pkt_no_leak [OF sample_pool_counts this] show ?thesis by simp
qed

end
