(* ===== verification/Gen_Config.thy ===== *)
theory Gen_Config
  imports Put_Num Put_Text
begin

section \<open>The generation configuration (mgmt/gen\_config.cpp)\<close>

text \<open>
  The constructor of \<open>gen_config\<close> turns the body of a start request into a duration, the address of
  the device under test and one \<open>flows_config\<close> per capture. The JSON parser and the parser of
  networks are boost's, parameters in the record \<open>config_libs\<close>; the value the JSON parser delivers
  has boost's kinds, and the accessors throw when the kind is another one.
\<close>

subsection \<open>Double precision numbers\<close>

text \<open>
  A finite double is \<open>m * 2 ^ e\<close>. The code multiplies one by 1000 and truncates the product to a 64
  bit number. The product is rounded to 53 significant bits, ties to even. The bounds of the exponent
  are left out: a product below the normal range truncates to 0 either way, and one above it has no
  64 bit value either way.
\<close>

datatype dbl = Finite int int | Not_finite

fun bit_count :: "nat \<Rightarrow> nat" where
  "bit_count n = (if n = 0 then 0 else Suc (bit_count (n div 2)))"

declare bit_count.simps [simp del]

definition round_half_even :: "nat \<Rightarrow> nat \<Rightarrow> nat" where
  "round_half_even n s =
     (let q = n div 2 ^ s; r = n mod 2 ^ s in
      if 2 * r > 2 ^ s \<or> (2 * r = 2 ^ s \<and> odd q) then q + 1 else q)"

definition round53 :: "int \<Rightarrow> int \<Rightarrow> dbl" where
  "round53 m e =
     (let s = bit_count (nat \<bar>m\<bar>) - 53 in
      Finite (sgn m * int (round_half_even (nat \<bar>m\<bar>) s)) (e + int s))"

fun dbl_times_1000 :: "dbl \<Rightarrow> dbl" where
  "dbl_times_1000 Not_finite = Not_finite"
| "dbl_times_1000 (Finite m e) = round53 (m * 1000) e"

text \<open>The magnitude of a finite double, truncated.\<close>

definition magnitude :: "int \<Rightarrow> int \<Rightarrow> nat" where
  "magnitude m e =
     (if e \<ge> 0 then nat \<bar>m\<bar> * 2 ^ nat e else nat \<bar>m\<bar> div 2 ^ nat (- e))"

text \<open>\<open>static_cast<uint64_t>\<close>: a truncated value out of range is undefined behaviour.\<close>

fun dbl_to_u64 :: "dbl \<Rightarrow> u64 res" where
  "dbl_to_u64 Not_finite = Inl Undefined"
| "dbl_to_u64 (Finite m e) =
     (if magnitude m e = 0 then Inr 0
      else if m < 0 \<or> magnitude m e \<ge> 2 ^ 64 then Inl Undefined
      else Inr (of_nat (magnitude m e)))"

subsection \<open>JSON values\<close>

datatype json =
    JNull
  | JBool bool
  | JInt64 int
  | JUint64 u64
  | JDouble dbl
  | JString string
  | JArray "json list"
  | JObject "(string \<times> json) list"

fun as_object :: "json \<Rightarrow> (string \<times> json) list res" where
  "as_object (JObject kvs) = Inr kvs"
| "as_object _ = Inl (Thrown (Std_exception ''not_object''))"

fun as_array :: "json \<Rightarrow> json list res" where
  "as_array (JArray vs) = Inr vs"
| "as_array _ = Inl (Thrown (Std_exception ''not_array''))"

fun as_string :: "json \<Rightarrow> string res" where
  "as_string (JString s) = Inr s"
| "as_string _ = Inl (Thrown (Std_exception ''not_string''))"

fun as_double :: "json \<Rightarrow> dbl res" where
  "as_double (JDouble d) = Inr d"
| "as_double _ = Inl (Thrown (Std_exception ''not_double''))"

fun as_uint64 :: "json \<Rightarrow> u64 res" where
  "as_uint64 (JUint64 n) = Inr n"
| "as_uint64 _ = Inl (Thrown (Std_exception ''not_uint64''))"

fun if_uint64 :: "json \<Rightarrow> u64 option" where
  "if_uint64 (JUint64 n) = Some n"
| "if_uint64 _ = None"

definition json_at :: "(string \<times> json) list \<Rightarrow> string \<Rightarrow> json res" where
  "json_at obj key =
     (case map_of obj key of
        Some v \<Rightarrow> Inr v
      | None \<Rightarrow> Inl (Thrown (Std_exception ''out_of_range'')))"

subsection \<open>The configuration\<close>

text \<open>A network is an address with the length of its prefix.\<close>

type_synonym net4 = "u32 \<times> nat"

record flows_config =
  fc_name :: string
  fc_burst :: u32
  fc_fps :: u32
  fc_ipg :: "u64 option"
  fc_cln_ips :: net4
  fc_srv_ips :: net4
  fc_cln_port :: "u16 option"

record gen_config =
  gc_duration :: u64
  gc_dut_addr :: ether_addr
  gc_flows :: "flows_config list"

record config_libs =
  parse_json :: "string \<Rightarrow> json res"
  hex_parser :: x3_hex
  make_network_v4 :: "string \<Rightarrow> net4 option"

definition load_opt_u64 :: "(string \<times> json) list \<Rightarrow> string \<Rightarrow> u64 option res" where
  "load_opt_u64 obj nam = bind_res (json_at obj nam) (\<lambda>v. Inr (if_uint64 v))"

definition check :: "bool \<Rightarrow> string \<Rightarrow> string list \<Rightarrow> unit res" where
  "check ok text args = (if ok then Inr () else Inl (Thrown (Runtime_error text args)))"

definition get_network :: "config_libs \<Rightarrow> string \<Rightarrow> string \<Rightarrow> net4 res" where
  "get_network libs text s =
     (case make_network_v4 libs s of
        Some n \<Rightarrow> Inr n
      | None \<Rightarrow> Inl (Thrown (Runtime_error text [s])))"

text \<open>One round of the loop over the captures.\<close>

definition load_capture :: "config_libs \<Rightarrow> json \<Rightarrow> flows_config res" where
  "load_capture libs cap =
     bind_res (as_object cap) (\<lambda>obj.
     bind_res (bind_res (json_at obj ''name'') as_string) (\<lambda>name_str.
     bind_res (bind_res (json_at obj ''burst'') as_uint64) (\<lambda>burst_num.
     bind_res (bind_res (json_at obj ''fps'') as_uint64) (\<lambda>fps_num.
     bind_res (load_opt_u64 obj ''ipg'') (\<lambda>ipg_num.
     bind_res (bind_res (json_at obj ''cln_ips'') as_string) (\<lambda>cln_ips_str.
     bind_res (bind_res (json_at obj ''cln_ips'') as_string) (\<lambda>srv_ips_str.
     bind_res (load_opt_u64 obj ''cln_port'') (\<lambda>cln_port_num.
     bind_res (check (in_range_inclusive burst_num 1 5)
       ''The `burst` value must be between 1 and 5'' []) (\<lambda>_.
     bind_res (check (in_range_inclusive fps_num 1 1000000)
       ''The `flows_per_second (fps)` value must be between 1 and 1'000'000'' []) (\<lambda>_.
     bind_res (check (case ipg_num of None \<Rightarrow> True | Some n \<Rightarrow> in_range_inclusive n 1 1000000)
       ''The `inter_packet_gaps (ipg)` value must be between 1 and 1'000'000'' []) (\<lambda>_.
     bind_res (check (case cln_port_num of None \<Rightarrow> True | Some n \<Rightarrow> in_range_inclusive n 1024 65535)
       ''The `cln_port` value must be between 1024 and 65535'' []) (\<lambda>_.
     bind_res (get_network libs ''Invalid `cln_ips` network: {}'' cln_ips_str) (\<lambda>cln_ips.
     bind_res (get_network libs ''Invalid `srv_ips` network: {}'' srv_ips_str) (\<lambda>srv_ips.
     Inr \<lparr>fc_name = name_str, fc_burst = ucast burst_num, fc_fps = ucast fps_num,
          fc_ipg = ipg_num, fc_cln_ips = cln_ips, fc_srv_ips = srv_ips,
          fc_cln_port = map_option ucast cln_port_num\<rparr>))))))))))))))"

definition load_captures :: "config_libs \<Rightarrow> json list \<Rightarrow> flows_config list res" where
  "load_captures libs caps =
     fold_res (\<lambda>cap cfgs. bind_res (load_capture libs cap) (\<lambda>c. Inr (cfgs @ [c]))) caps []"

definition gen_config_new :: "config_libs \<Rightarrow> string \<Rightarrow> gen_config res" where
  "gen_config_new libs cfg_info =
     bind_res (parse_json libs cfg_info) (\<lambda>json_val.
     bind_res (as_object json_val) (\<lambda>json_obj.
     bind_res (bind_res (json_at json_obj ''duration_secs'') as_double) (\<lambda>dur_num.
     bind_res (bind_res (json_at json_obj ''dut_ether_addr'') as_string) (\<lambda>ether_str.
     bind_res (bind_res (json_at json_obj ''captures'') as_array) (\<lambda>captures.
     bind_res (case parse_ether_addr (hex_parser libs) ether_str of
                 None \<Rightarrow> Inl (Thrown (Runtime_error ''Invalid `dut_ether_addr`: {}'' [''none'']))
               | Some a \<Rightarrow> Inr a) (\<lambda>dut_addr.
     bind_res (load_captures libs captures) (\<lambda>flows_cfgs.
     bind_res (dbl_to_u64 (dbl_times_1000 dur_num)) (\<lambda>duration.
     Inr \<lparr>gc_duration = duration, gc_dut_addr = dut_addr, gc_flows = flows_cfgs\<rparr>))))))))"

subsection \<open>What a configuration that loads satisfies\<close>

lemma check_Inr [simp]: "check ok text args = Inr u \<longleftrightarrow> ok"
  by (simp add: check_def)

lemma get_network_Inr [simp]:
  "get_network libs text s = Inr n \<longleftrightarrow> make_network_v4 libs s = Some n"
  by (simp add: get_network_def split: option.splits)

lemma as_uint64_Inr [simp]: "as_uint64 v = Inr n \<longleftrightarrow> v = JUint64 n"
  by (cases v) auto

lemma in_range_inclusive_u64:
  "in_range_inclusive n 1 5 \<longleftrightarrow> 1 \<le> unat n \<and> unat n \<le> 5"
  "in_range_inclusive n 1 1000000 \<longleftrightarrow> 1 \<le> unat n \<and> unat n \<le> 1000000"
  "in_range_inclusive n 1024 65535 \<longleftrightarrow> 1024 \<le> unat n \<and> unat n \<le> 65535"
  by (simp_all add: in_range_inclusive_def word_le_nat_alt)

lemma unat_ucast_small:
  fixes n :: u64
  assumes "unat n < 2 ^ LENGTH('a)"
  shows "unat (ucast n :: 'a::len word) = unat n"
  using assms by (simp add: unsigned_ucast_eq take_bit_nat_eq_self)

definition flows_config_ok :: "flows_config \<Rightarrow> bool" where
  "flows_config_ok c \<longleftrightarrow>
     1 \<le> unat (fc_burst c) \<and> unat (fc_burst c) \<le> 5 \<and>
     1 \<le> unat (fc_fps c) \<and> unat (fc_fps c) \<le> 1000000 \<and>
     (case fc_ipg c of None \<Rightarrow> True | Some n \<Rightarrow> 1 \<le> unat n \<and> unat n \<le> 1000000) \<and>
     (case fc_cln_port c of None \<Rightarrow> True | Some n \<Rightarrow> 1024 \<le> unat n)"

lemma load_capture_ok:
  assumes "load_capture libs cap = Inr c"
  shows "flows_config_ok c \<and> fc_srv_ips c = fc_cln_ips c"
proof -
  obtain obj burst fps ipg port where c:
    "load_opt_u64 obj ''ipg'' = Inr ipg" "load_opt_u64 obj ''cln_port'' = Inr port"
    "in_range_inclusive burst 1 5" "in_range_inclusive fps 1 1000000"
    "case ipg of None \<Rightarrow> True | Some n \<Rightarrow> in_range_inclusive n 1 1000000"
    "case port of None \<Rightarrow> True | Some n \<Rightarrow> in_range_inclusive n 1024 65535"
    "fc_burst c = ucast burst" "fc_fps c = ucast fps" "fc_ipg c = ipg"
    "fc_cln_port c = map_option ucast port" "fc_srv_ips c = fc_cln_ips c"
    using assms by (auto simp: load_capture_def res_simps)
  then show ?thesis
    by (auto simp: flows_config_ok_def in_range_inclusive_u64 unat_ucast_small split: option.splits)
qed

lemma load_captures_append:
  "fold_res (\<lambda>cap cfgs. bind_res (load_capture libs cap) (\<lambda>c. Inr (cfgs @ [c]))) caps acc = Inr cfgs \<Longrightarrow>
     \<exists>new. cfgs = acc @ new \<and> list_all2 (\<lambda>cap c. load_capture libs cap = Inr c) caps new"
proof (induction caps arbitrary: acc)
  case Nil
  then show ?case by simp
next
  case (Cons cap caps)
  then obtain c where c: "load_capture libs cap = Inr c"
    "fold_res (\<lambda>cap cfgs. bind_res (load_capture libs cap) (\<lambda>c. Inr (cfgs @ [c]))) caps (acc @ [c]) = Inr cfgs"
    by (auto simp: res_simps)
  from Cons.IH [OF c(2)] c(1) show ?case by auto
qed

lemma load_captures_Inr:
  "load_captures libs caps = Inr cfgs \<Longrightarrow> list_all2 (\<lambda>cap c. load_capture libs cap = Inr c) caps cfgs"
  using load_captures_append [of libs caps "[]" cfgs] by (simp add: load_captures_def)

lemma gen_config_new_Inr:
  assumes "gen_config_new libs txt = Inr cfg"
  obtains obj dur captures s where "parse_json libs txt = Inr (JObject obj)"
    "map_of obj ''duration_secs'' = Some (JDouble dur)"
    "map_of obj ''captures'' = Some (JArray captures)"
    "parse_ether_addr (hex_parser libs) s = Some (gc_dut_addr cfg)"
    "load_captures libs captures = Inr (gc_flows cfg)"
    "dbl_to_u64 (dbl_times_1000 dur) = Inr (gc_duration cfg)"
proof -
  have obj: "as_object v = Inr kvs \<longleftrightarrow> v = JObject kvs" for v kvs by (cases v) auto
  have dbl: "as_double v = Inr d \<longleftrightarrow> v = JDouble d" for v d by (cases v) auto
  have arr: "as_array v = Inr vs \<longleftrightarrow> v = JArray vs" for v vs by (cases v) auto
  have at: "json_at kvs k = Inr v \<longleftrightarrow> map_of kvs k = Some v" for kvs k v
    by (simp add: json_at_def split: option.splits)
  show ?thesis
    using assms that by (auto simp: gen_config_new_def res_simps obj dbl arr at split: option.splits)
qed


text \<open>
  What the generation manager relies on. The length of a parsed array is bounded by that of the text,
  which the HTTP library limits.
\<close>

definition gen_config_ok :: "gen_config \<Rightarrow> bool" where
  "gen_config_ok cfg \<longleftrightarrow>
     length (gc_dut_addr cfg) = 6 \<and> (\<forall>c \<in> set (gc_flows cfg). flows_config_ok c) \<and>
     length (gc_flows cfg) < 2 ^ 32"

definition arrays_bounded :: "config_libs \<Rightarrow> bool" where
  "arrays_bounded libs \<longleftrightarrow>
     (\<forall>txt kvs k vs. parse_json libs txt = Inr (JObject kvs) \<longrightarrow> map_of kvs k = Some (JArray vs) \<longrightarrow>
        length vs < 2 ^ 32)"

lemma gen_config_new_ok:
  assumes "gen_config_new libs txt = Inr cfg" and "arrays_bounded libs"
  shows "gen_config_ok cfg"
proof -
  obtain obj captures s where obj: "parse_json libs txt = Inr (JObject obj)"
    "map_of obj ''captures'' = Some (JArray captures)"
    and s: "parse_ether_addr (hex_parser libs) s = Some (gc_dut_addr cfg)"
    and caps: "load_captures libs captures = Inr (gc_flows cfg)"
    using gen_config_new_Inr [OF assms(1)] by metis
  have "length captures < 2 ^ 32"
    using assms(2) obj unfolding arrays_bounded_def by blast
  moreover have "flows_config_ok c" if "c \<in> set (gc_flows cfg)" for c
    using load_captures_Inr [OF caps] that load_capture_ok
    by (auto simp: list_all2_conv_all_nth in_set_conv_nth)
  ultimately show ?thesis
    using parse_ether_addr_six [OF s] list_all2_lengthD [OF load_captures_Inr [OF caps]]
    by (simp add: gen_config_ok_def)
qed

subsection \<open>Libraries for the examples\<close>

text \<open>
  A parser that knows one text, a network parser that knows one network, and a hexadecimal parser
  that knows one number.
\<close>

definition sample_libs :: "json \<Rightarrow> config_libs" where
  "sample_libs v =
     \<lparr>parse_json = (\<lambda>_. Inr v), hex_parser = (\<lambda>s. if take 2 s = ''01'' then Some (1, drop 2 s) else None),
      make_network_v4 = (\<lambda>s. if s = ''16.0.0.1/29'' then Some (0x10000001, 29) else None)\<rparr>"

definition sample_capture :: json where
  "sample_capture =
     JObject [(''name'', JString ''test.pcap''), (''burst'', JUint64 1), (''fps'', JUint64 10),
       (''ipg'', JUint64 10000), (''cln_ips'', JString ''16.0.0.1/29''),
       (''srv_ips'', JString ''48.0.0.1/29''), (''cln_port'', JNull)]"

definition sample_config :: "json list \<Rightarrow> json" where
  "sample_config caps =
     JObject [(''duration_secs'', JDouble (Finite 5 1)),
       (''dut_ether_addr'', JString ''01:01:01:01:01:01''), (''captures'', JArray caps)]"

lemma sample_address:
  "parse_ether_addr (hex_parser (sample_libs v)) ''01:01:01:01:01:01'' =
     Some [1, 1, 1, 1, 1, 1]"
proof -
  have five: "5 = Suc (Suc (Suc (Suc (Suc 0))))" by simp
  show ?thesis by (simp add: parse_ether_addr_def sample_libs_def hex_fill_def five)
qed

lemma parse_sample: "parse_json (sample_libs v) txt = Inr v"
  by (simp add: sample_libs_def)

lemma sample_duration: "dbl_to_u64 (dbl_times_1000 (Finite 5 1)) = Inr 10000"
  by (simp add: round53_def bit_count.simps round_half_even_def magnitude_def)


subsection \<open>Which texts are rejected\<close>

text \<open>
  The parser of boost documents which kind a number gets: an integer is unsigned only when it does
  not fit into a signed 64 bit one.
\<close>

fun boost_kinds :: "json \<Rightarrow> bool" where
  "boost_kinds (JUint64 n) \<longleftrightarrow> 2 ^ 63 \<le> unat n"
| "boost_kinds (JArray vs) \<longleftrightarrow> (\<forall>v \<in> set vs. boost_kinds v)"
| "boost_kinds (JObject kvs) \<longleftrightarrow> (\<forall>kv \<in> set kvs. boost_kinds (snd kv))"
| "boost_kinds _ \<longleftrightarrow> True"

lemma boost_kinds_at: "boost_kinds (JObject kvs) \<Longrightarrow> map_of kvs k = Some v \<Longrightarrow> boost_kinds v"
  using map_of_SomeD [of kvs k v] by force

lemma load_capture_rejects:
  assumes "boost_kinds cap"
  shows "load_capture libs cap \<noteq> Inr c"
proof
  assume "load_capture libs cap = Inr c"
  then obtain obj burst where obj: "as_object cap = Inr obj"
    "bind_res (json_at obj ''burst'') as_uint64 = Inr burst" "in_range_inclusive burst 1 5"
    by (auto simp: load_capture_def res_simps)
  have cap: "cap = JObject obj" using obj(1) by (cases cap) auto
  have "map_of obj ''burst'' = Some (JUint64 burst)"
    using obj(2) by (auto simp: json_at_def split: option.splits)
  then have "2 ^ 63 \<le> unat burst" using boost_kinds_at assms cap by fastforce
  then show False using obj(3) by (simp add: in_range_inclusive_u64)
qed



subsection \<open>The duration\<close>

lemma bit_count_le: "x < 2 ^ b \<Longrightarrow> bit_count x \<le> b"
proof (induction b arbitrary: x)
  case 0
  then show ?case by (simp add: bit_count.simps)
next
  case (Suc b)
  have "x div 2 < 2 ^ b" using Suc.prems by auto
  from Suc.IH [OF this] show ?case by (subst bit_count.simps) simp
qed

lemma round_half_even_exact: "round_half_even (q * 2 ^ s) s = q"
  by (simp add: round_half_even_def)



end
