(* ===== verification/Generation_Ops.thy ===== *)
theory Generation_Ops
  imports Event_Scheduler Tcap_Loader Gen_Config
begin

section \<open>What the flow generators call (gen/priv/generation\_ops.h)\<close>

text \<open>
  The virtual interface \<open>generation_ops\<close> as a record of functions on the state \<open>'m\<close> of whoever
  implements it (the generation manager). The generators also use the packet pool, the clock, the
  event handles and a few constants directly; \<open>gen_env\<close> adds these.

  The context of an event is the flow it is for, here the position of its generator among the
  generators and its position among the generator's flows.
\<close>

type_synonym ctx = "nat \<times> nat"

record priv_report =
  pr_tstamp :: cycles
  pr_gen_idx :: u32
  pr_flow_idx :: u32
  pr_pkt_idx :: u32
  pr_pkt_len :: u32
  pr_src_addr :: "u8 list"
  pr_dst_addr :: "u8 list"
  pr_from_cln :: bool
  pr_ok :: bool

record 'm gen_ops =
  alloc_mbuf :: "'m \<Rightarrow> mbuf option \<times> 'm"
  copy_pkt :: "mbuf \<Rightarrow> 'm \<Rightarrow> mbuf option \<times> 'm"
  send_pkt :: "mbuf \<Rightarrow> 'm \<Rightarrow> 'm"
  create_event :: "'m \<Rightarrow> handle \<times> 'm"
  do_report :: "priv_report \<Rightarrow> 'm \<Rightarrow> 'm"

text \<open>
  \<open>free_mbuf\<close> is \<open>rte_pktmbuf_free\<close>, \<open>current_cycles\<close> is \<open>put::cycles::current\<close>; \<open>assign_event\<close>,
  \<open>destroy_event\<close> and \<open>schedule_event\<close> are the operations of event handles on the manager's
  scheduler. \<open>open_file\<close> is the C library's, \<open>hosts\<close> and \<open>next_addr\<close> are asio's ranges of host
  addresses: the first address, the end, and the step of the iterator. The last four are the
  offload flags of DPDK's packets.
\<close>

record 'm gen_env = "'m gen_ops" +
  free_mbuf :: "mbuf \<Rightarrow> 'm \<Rightarrow> 'm"
  current_cycles :: "'m \<Rightarrow> cycles \<times> 'm"
  assign_event :: "handle \<Rightarrow> handle \<Rightarrow> 'm \<Rightarrow> (handle \<times> handle \<times> 'm) res"
  destroy_event :: "handle \<Rightarrow> 'm \<Rightarrow> 'm res"
  schedule_event :: "handle \<Rightarrow> cycles \<Rightarrow> ctx \<Rightarrow> 'm \<Rightarrow> 'm res"
  timer_hz :: u64
  open_file :: "string \<Rightarrow> int + stream"
  hosts :: "net4 \<Rightarrow> u32 \<times> u32"
  next_addr :: "u32 \<Rightarrow> u32"
  flag_ipv4 :: u64
  flag_ip_cksum :: u64
  flag_tcp_cksum :: u64
  flag_udp_cksum :: u64

text \<open>The configuration of one generator.\<close>

record fgen_config =
  fgc_idx :: u32
  fgc_cap_fpath :: string
  fgc_cln_ether :: ether_addr
  fgc_srv_ether :: ether_addr
  fgc_burst :: u32
  fgc_fps :: u32
  fgc_ipg :: "u64 option"
  fgc_cln_ips :: net4
  fgc_srv_ips :: net4
  fgc_cln_port :: "u16 option"

subsection \<open>The contract of the interface\<close>

text \<open>
  What the flow generators rely on. \<open>inv own m\<close> says that the implementer's state is sound and that
  \<open>own\<close> gives, for every live timer, the context it may be scheduled with; \<open>busy m\<close> are the timers
  whose callbacks are about to run. Constructing and destroying a generator allocates and frees
  packets and uses timers: creating an event hands out a fresh timer, which the caller dedicates to a
  context; a live timer that is not busy can be scheduled with its context and can be destroyed;
  assigning to an empty handle moves; no other operation touches timers.
\<close>

locale setup_ops =
  fixes env :: "'m gen_env"
    and inv :: "(timer \<Rightarrow> ctx option) \<Rightarrow> 'm \<Rightarrow> bool"
    and busy :: "'m \<Rightarrow> timer set"
  assumes alloc_law: "inv own m \<Longrightarrow> alloc_mbuf env m = (r, m') \<Longrightarrow> inv own m' \<and> busy m' = busy m"
    and free_law: "inv own m \<Longrightarrow> inv own (free_mbuf env b m) \<and> busy (free_mbuf env b m) = busy m"
    and create_law: "inv own m \<Longrightarrow> \<exists>t m'.
      create_event env m = (\<lparr>tmr = Some t, has_scheduler = True\<rparr>, m') \<and> t \<notin> dom own \<and>
      (\<forall>c. inv (own(t \<mapsto> c)) m') \<and> busy m' = busy m"
    and assign_law: "inv own m \<Longrightarrow> tmr this = None \<Longrightarrow>
      assign_event env rhs this m = Inr (handle_empty, rhs, m)"
    and destroy_empty_law: "inv own m \<Longrightarrow> tmr h = None \<Longrightarrow> destroy_event env h m = Inr m"
    and destroy_law: "\<lbrakk>inv own m; tmr h = Some t; has_scheduler h; t \<in> dom own; t \<notin> busy m\<rbrakk> \<Longrightarrow>
      \<exists>m'. destroy_event env h m = Inr m' \<and> inv (own(t := None)) m' \<and> busy m' = busy m"
    and schedule_law: "\<lbrakk>inv own m; tmr h = Some t; has_scheduler h; own t = Some c; t \<notin> busy m\<rbrakk> \<Longrightarrow>
      \<exists>m'. schedule_event env h rel c m = Inr m' \<and> inv own m' \<and> busy m' = busy m"

text \<open>
  An event of a flow also reads the clock, copies, sends and reports; a copy of a packet whose first
  segment holds the headers holds them in its first segment.
\<close>

locale generation_ops = setup_ops +
  assumes copy_law: "inv own m \<Longrightarrow> copy_pkt env b m = (r, m') \<Longrightarrow> inv own m' \<and> busy m' = busy m \<and>
      (case r of None \<Rightarrow> True | Some c \<Rightarrow> 34 \<le> length (mb_data b) \<longrightarrow> 34 \<le> length (mb_data c))"
    and send_law: "inv own m \<Longrightarrow> inv own (send_pkt env b m) \<and> busy (send_pkt env b m) = busy m"
    and report_law: "inv own m \<Longrightarrow> inv own (do_report env rep m) \<and> busy (do_report env rep m) = busy m"
    and now_law: "inv own m \<Longrightarrow> current_cycles env m = (ts, m') \<Longrightarrow> inv own m' \<and> busy m' = busy m"

end
