(* ===== verification/Load_Pkts.thy ===== *)
theory Load_Pkts
  imports Generation_Ops
begin

section \<open>Preparing the packets of a capture (gen/priv/flows\_generator.cpp, load\_pkts)\<close>

text \<open>
  The packets of a capture file are loaded, get their relative time stamps, and then their headers
  are checked and the fields that stay the same for all flows are rewritten. When anything throws,
  the packets loaded so far are freed; the pool's state \<open>'m\<close> is therefore part of the result of a
  failure too.
\<close>

record pkt =
  rel_tsc :: cycles
  pkt_mbuf :: mbuf
  from_cln :: bool

subsection \<open>Loading\<close>

lemma fread_le: "fread n f = (b, f') \<Longrightarrow> length (st_bytes f') \<le> length (st_bytes f)"
  by (auto simp: fread_def split: if_splits option.splits)

lemma load_segments_le:
  "load_segments alloc rem first head f m = (r, head', f', m') \<Longrightarrow>
     length (st_bytes f') \<le> length (st_bytes f)"
proof (induction rem arbitrary: first head f m rule: less_induct)
  case (less rem)
  obtain s m1 where s: "(if first then (Some head, m) else alloc m) = (s, m1)" by force
  show ?case
  proof (cases "rem = 0 \<or> s = None")
    case True
    then show ?thesis using less.prems
      by (subst (asm) load_segments.simps) (auto simp: s split: if_splits)
  next
    case False
    then obtain seg where seg: "s = Some seg" "rem \<noteq> 0" by auto
    obtain b f1 where b: "fread (min rem (tailroom seg)) f = (b, f1)" by force
    note f1 = fread_le [OF b]
    show ?thesis
    proof (cases b)
      case None
      then show ?thesis using less.prems f1
        by (subst (asm) load_segments.simps) (simp add: s seg b Let_def)
    next
      case (Some bs)
      then have "0 < min rem (tailroom seg)" using b fread_positive by metis
      then have "rem - min rem (tailroom seg) < rem" using seg(2) by linarith
      from less.IH [OF this] less.prems have "length (st_bytes f') \<le> length (st_bytes f1)"
        by (subst (asm) (2) load_segments.simps) (simp add: s seg b Some Let_def)
      with f1 show ?thesis by linarith
    qed
  qed
qed

lemma load_pkt_consumes:
  assumes "load_pkt alloc free f m = (Inr p, f', m')"
  shows "length (st_bytes f') < length (st_bytes f)"
proof -
  obtain h f1 where h: "fread 16 f = (Some h, f1)"
    using assms by (auto simp: load_pkt_def split: option.splits prod.splits)
  then have "length (st_bytes f1) < length (st_bytes f)" by (auto simp: fread_Some)
  moreover have "length (st_bytes f') \<le> length (st_bytes f1)"
    using assms h
    by (auto simp: load_pkt_def Let_def split: option.splits prod.splits if_splits dest!: load_segments_le)
  ultimately show ?thesis by linarith
qed

lemma load_pkt_consumes_sym:
  "(Inr p, f', m') = load_pkt alloc free f m \<Longrightarrow> length (st_bytes f') < length (st_bytes f)"
  by (rule load_pkt_consumes) (rule sym)

definition free_pkts :: "'m gen_env \<Rightarrow> pkt list \<Rightarrow> 'm \<Rightarrow> 'm" where
  "free_pkts env pkts m = fold (\<lambda>p. free_mbuf env (pkt_mbuf p)) pkts m"

text \<open>
  The gap between two runs of a flow is 100 milliseconds. The time stamps are microseconds;
  \<open>prev_tstamp\<close> is set by the first packet and never again.
\<close>

definition if_gap_usec :: u64 where "if_gap_usec = 100000"

function load_loop ::
  "'m gen_env \<Rightarrow> string \<Rightarrow> u64 option \<Rightarrow> u64 option \<Rightarrow> u64 option \<Rightarrow> stream \<Rightarrow> pkt list \<Rightarrow> 'm \<Rightarrow>
   pkt list res \<times> 'm" where
  "load_loop env path ipg ipg_tstamp prev_tstamp f ret m =
     (case load_pkt (alloc_mbuf env) (free_mbuf env) f m of
        (Inl err, f1, m1) \<Rightarrow>
          if is_eof f1 then (Inr ret, m1)
          else (throw_system_error err ''Failed to load packet from {}'' [path], free_pkts env ret m1)
      | (Inr pk, f1, m1) \<Rightarrow>
          let tstamp = (case ipg_tstamp of None \<Rightarrow> tp_tstamp pk | Some t \<Rightarrow> t);
              ipg_tstamp1 = (case (ipg_tstamp, ipg) of (Some t, Some g) \<Rightarrow> Some (t + g) | _ \<Rightarrow> ipg_tstamp);
              prev = (case prev_tstamp of None \<Rightarrow> tstamp | Some t \<Rightarrow> t);
              rel = from_duration (timer_hz env) (Microseconds (if_gap_usec + tstamp - prev)) in
          load_loop env path ipg ipg_tstamp1 (Some prev) f1
            (ret @ [\<lparr>rel_tsc = rel, pkt_mbuf = tp_mbuf pk, from_cln = False\<rparr>]) m1)"
  by pat_completeness auto
termination
  by (relation "measure (\<lambda>(env, path, ipg, it, pt, f, ret, m). length (st_bytes f))")
     (auto dest: load_pkt_consumes_sym)

declare load_loop.simps [simp del]

subsection \<open>Checking and rewriting the headers\<close>

definition RTE_ETHER_TYPE_IPV4 :: u16 where "RTE_ETHER_TYPE_IPV4 = 0x0800"
definition IPPROTO_TCP :: u8 where "IPPROTO_TCP = 6"
definition IPPROTO_UDP :: u8 where "IPPROTO_UDP = 17"

definition too_short :: "string \<Rightarrow> 'a res" where
  "too_short path = throw_runtime_error ''Detected too short/fragmented packet from {}'' [path]"

text \<open>The ports are the first two fields of both the TCP and the UDP header.\<close>

definition set_cport :: "bool \<Rightarrow> u16 \<Rightarrow> nat \<Rightarrow> u8 list \<Rightarrow> u8 list" where
  "set_cport fc po hdr d = (if fc then poke hdr (big16 po) d else poke (hdr + 2) (big16 po) d)"

definition prepare_port :: "fgen_config \<Rightarrow> pkt \<Rightarrow> nat \<Rightarrow> nat \<Rightarrow> pkt res" where
  "prepare_port cfg p ih offs =
     (case fgc_cln_port cfg of
        None \<Rightarrow> Inr p
      | Some po \<Rightarrow>
          let mb = pkt_mbuf p; d = mb_data mb; proto = d ! (ih + 9);
              hdr = (if proto = IPPROTO_TCP then Some Tcp_hdr
                     else if proto = IPPROTO_UDP then Some Udp_hdr else None) in
          case hdr of
            None \<Rightarrow> Inr p
          | Some h \<Rightarrow>
              (case read_hdr h mb offs of
                 None \<Rightarrow> too_short (fgc_cap_fpath cfg)
               | Some th \<Rightarrow>
                   Inr (p\<lparr>pkt_mbuf := mb\<lparr>mb_data := set_cport (from_cln p) po th d\<rparr>\<rparr>)))"

text \<open>
  One round of the loop; \<open>cln\<close> is the client's address, the source of the first packet. The
  destination address, the source address and the type are at the offsets 0, 6 and 12 of the
  Ethernet header.
\<close>

definition prepare_pkt :: "fgen_config \<Rightarrow> ether_addr option \<Rightarrow> pkt \<Rightarrow> (ether_addr option \<times> pkt) res" where
  "prepare_pkt cfg cln p =
     (let mb = pkt_mbuf p; d = mb_data mb in
      case read_hdr_advance Ether_hdr mb 0 of
        (None, offs) \<Rightarrow> too_short (fgc_cap_fpath cfg)
      | (Some eh, offs) \<Rightarrow>
          let proto = get_big16 d (eh + 12) in
          if proto \<noteq> RTE_ETHER_TYPE_IPV4
          then throw_runtime_error ''Detected non IPv4 packet (proto: {}) from {}''
                 [dec_string (unat proto), fgc_cap_fpath cfg]
          else case read_hdr_advance Ipv4_hdr mb offs of
            (None, offs1) \<Rightarrow> too_short (fgc_cap_fpath cfg)
          | (Some ih, offs1) \<Rightarrow>
              let src = peek (eh + 6) 6 d;
                  cln1 = (case cln of None \<Rightarrow> src | Some a \<Rightarrow> a);
                  fc = (cln1 = src);
                  d1 = poke (eh + 6) (if fc then fgc_cln_ether cfg else fgc_srv_ether cfg) d;
                  d2 = poke eh (if fc then fgc_srv_ether cfg else fgc_cln_ether cfg) d1 in
              bind_res (prepare_port cfg (p\<lparr>from_cln := fc, pkt_mbuf := mb\<lparr>mb_data := d2\<rparr>\<rparr>) ih offs1)
                (\<lambda>p'. Inr (Some cln1, p')))"

fun prepare_pkts :: "fgen_config \<Rightarrow> ether_addr option \<Rightarrow> pkt list \<Rightarrow> pkt list res" where
  "prepare_pkts cfg cln [] = Inr []"
| "prepare_pkts cfg cln (p # ps) =
     bind_res (prepare_pkt cfg cln p) (\<lambda>(cln1, p').
       bind_res (prepare_pkts cfg cln1 ps) (\<lambda>ps'. Inr (p' # ps')))"

definition load_pkts :: "'m gen_env \<Rightarrow> fgen_config \<Rightarrow> 'm \<Rightarrow> pkt list res \<times> 'm" where
  "load_pkts env cfg m =
     (case tcap_open (open_file env) (fgc_cap_fpath cfg) of
        Inl e \<Rightarrow> (Inl e, m)
      | Inr f \<Rightarrow>
          (case load_loop env (fgc_cap_fpath cfg) (fgc_ipg cfg) (map_option (\<lambda>_. 0) (fgc_ipg cfg)) None f [] m of
             (Inl e, m1) \<Rightarrow> (Inl e, m1)
           | (Inr ret, m1) \<Rightarrow>
               (case prepare_pkts cfg None ret of
                  Inl e \<Rightarrow> (Inl e, free_pkts env ret m1)
                | Inr ret' \<Rightarrow>
                    if ret' = [] then (throw_runtime_error ''Loaded no packets from {}'' [fgc_cap_fpath cfg], m1)
                    else (Inr ret', m1))))"

subsection \<open>What preparing a packet does\<close>

definition port_offset :: "bool \<Rightarrow> u8 list \<Rightarrow> nat" where
  "port_offset fc d = 14 + hdr_len Ipv4_hdr d 14 + (if fc then 0 else 2)"

definition has_ports :: "u8 list \<Rightarrow> bool" where
  "has_ports d \<longleftrightarrow> d ! 23 = IPPROTO_TCP \<or> d ! 23 = IPPROTO_UDP"

text \<open>
  The bytes of the first segment before and after: the Ethernet addresses are the configured ones,
  the client's port is the configured one if there is one and the packet has ports, and no other
  byte changes. Nothing of the rest of the packet changes either.
\<close>

definition prepared :: "fgen_config \<Rightarrow> bool \<Rightarrow> mbuf \<Rightarrow> mbuf \<Rightarrow> bool" where
  "prepared cfg fc mb mb' \<longleftrightarrow>
     (let d = mb_data mb; d' = mb_data mb'; q = port_offset fc d in
      mb' = mb\<lparr>mb_data := d'\<rparr> \<and> length d' = length d \<and> 34 \<le> length d \<and>
      get_big16 d 12 = RTE_ETHER_TYPE_IPV4 \<and>
      peek 6 6 d' = (if fc then fgc_cln_ether cfg else fgc_srv_ether cfg) \<and>
      peek 0 6 d' = (if fc then fgc_srv_ether cfg else fgc_cln_ether cfg) \<and>
      (case fgc_cln_port cfg of
         Some po \<Rightarrow> has_ports d \<longrightarrow> q + 2 \<le> length d \<and> get_big16 d' q = po
       | None \<Rightarrow> True) \<and>
      (\<forall>i < length d. 12 \<le> i \<longrightarrow> d' ! i \<noteq> d ! i \<longrightarrow>
         fgc_cln_port cfg \<noteq> None \<and> has_ports d \<and> (i = q \<or> i = q + 1)))"

lemma set_cport_spec:
  assumes "hdr + 8 \<le> length d" and q_def: "q = hdr + (if fc then 0 else 2)"
  shows "set_cport fc po hdr d = poke q (big16 po) d" "q + 2 \<le> length d"
  using assms by (simp_all add: set_cport_def q_def)

lemma prepare_port_Inr:
  assumes "prepare_port cfg p 14 offs = Inr p'" and "d = mb_data (pkt_mbuf p)"
  shows "p' = p \<and> (fgc_cln_port cfg = None \<or> \<not> has_ports d) \<or>
    (\<exists>po. fgc_cln_port cfg = Some po \<and> has_ports d \<and> offs + 8 \<le> length d \<and>
      p' = p\<lparr>pkt_mbuf := (pkt_mbuf p)\<lparr>mb_data := set_cport (from_cln p) po offs d\<rparr>\<rparr>)"
  using assms
  by (auto simp: prepare_port_def has_ports_def Let_def too_short_def read_hdr_Some data_len_def
      res_simps split: option.splits if_splits)

definition rewrite_macs :: "fgen_config \<Rightarrow> bool \<Rightarrow> u8 list \<Rightarrow> u8 list" where
  "rewrite_macs cfg fc d =
     poke 0 (if fc then fgc_srv_ether cfg else fgc_cln_ether cfg)
       (poke 6 (if fc then fgc_cln_ether cfg else fgc_srv_ether cfg) d)"

lemma rewrite_macs:
  assumes "length (fgc_cln_ether cfg) = 6" "length (fgc_srv_ether cfg) = 6" "12 \<le> length d"
  shows "length (rewrite_macs cfg fc d) = length d"
    "peek 6 6 (rewrite_macs cfg fc d) = (if fc then fgc_cln_ether cfg else fgc_srv_ether cfg)"
    "peek 0 6 (rewrite_macs cfg fc d) = (if fc then fgc_srv_ether cfg else fgc_cln_ether cfg)"
    "i < length d \<Longrightarrow> 12 \<le> i \<Longrightarrow> rewrite_macs cfg fc d ! i = d ! i"
proof -
  define a where "a = (if fc then fgc_cln_ether cfg else fgc_srv_ether cfg)"
  define b where "b = (if fc then fgc_srv_ether cfg else fgc_cln_ether cfg)"
  have len: "length a = 6" "length b = 6" using assms(1,2) by (simp_all add: a_def b_def)
  have r: "rewrite_macs cfg fc d = poke 0 b (poke 6 a d)"
    by (simp add: rewrite_macs_def a_def b_def)
  show "length (rewrite_macs cfg fc d) = length d" using len assms(3) by (simp add: r)
  have "peek 6 6 (rewrite_macs cfg fc d) = peek 6 6 (poke 6 a d)"
    unfolding r by (rule peek_poke_other) (use len assms(3) in simp_all)
  also have "\<dots> = a" using peek_poke_same [of 6 a d] len assms(3) by simp
  finally show "peek 6 6 (rewrite_macs cfg fc d) = (if fc then fgc_cln_ether cfg else fgc_srv_ether cfg)"
    by (simp add: a_def)
  have "peek 0 6 (rewrite_macs cfg fc d) = b"
    using peek_poke_same [of 0 b "poke 6 a d"] len assms(3) by (simp add: r)
  then show "peek 0 6 (rewrite_macs cfg fc d) = (if fc then fgc_srv_ether cfg else fgc_cln_ether cfg)"
    by (simp only: b_def)
  show "i < length d \<Longrightarrow> 12 \<le> i \<Longrightarrow> rewrite_macs cfg fc d ! i = d ! i"
    using len assms(3) by (simp add: r poke_nth)
qed

lemma prepare_pkt_Inr:
  assumes "prepare_pkt cfg cln p = Inr (cln', p')"
    and "d = mb_data (pkt_mbuf p)"
  obtains fc where "34 \<le> length d" "get_big16 d 12 = RTE_ETHER_TYPE_IPV4"
    "cln' = Some (case cln of None \<Rightarrow> peek 6 6 d | Some a \<Rightarrow> a)" "fc = (cln' = Some (peek 6 6 d))"
    "prepare_port cfg (p\<lparr>from_cln := fc,
        pkt_mbuf := (pkt_mbuf p)\<lparr>mb_data := rewrite_macs cfg fc d\<rparr>\<rparr>) 14
      (14 + hdr_len Ipv4_hdr d 14) = Inr p'"
  using assms that
  by (auto simp: prepare_pkt_def Let_def too_short_def read_hdr_advance_def read_hdr_def data_len_def
      res_simps rewrite_macs_def simp del: hdr_len.simps(2) split: option.splits if_splits)

lemma prepare_pkt_prepared:
  assumes "prepare_pkt cfg cln p = Inr (cln', p')"
    and "length (fgc_cln_ether cfg) = 6" and "length (fgc_srv_ether cfg) = 6"
  shows "prepared cfg (from_cln p') (pkt_mbuf p) (pkt_mbuf p') \<and> rel_tsc p' = rel_tsc p \<and>
    cln' = Some (case cln of None \<Rightarrow> peek 6 6 (mb_data (pkt_mbuf p)) | Some a \<Rightarrow> a) \<and>
    (from_cln p' \<longleftrightarrow> cln' = Some (peek 6 6 (mb_data (pkt_mbuf p))))"
proof -
  define d where "d = mb_data (pkt_mbuf p)"
  obtain fc where len: "34 \<le> length d" and ty: "get_big16 d 12 = RTE_ETHER_TYPE_IPV4"
    and cln: "cln' = Some (case cln of None \<Rightarrow> peek 6 6 d | Some a \<Rightarrow> a)"
      "fc = (cln' = Some (peek 6 6 d))"
    and port: "prepare_port cfg (p\<lparr>from_cln := fc,
        pkt_mbuf := (pkt_mbuf p)\<lparr>mb_data := rewrite_macs cfg fc d\<rparr>\<rparr>) 14
      (14 + hdr_len Ipv4_hdr d 14) = Inr p'"
    using prepare_pkt_Inr [OF assms(1) d_def] .
  define d1 where "d1 = rewrite_macs cfg fc d"
  have twelve: "12 \<le> length d" using len by simp
  note macs = rewrite_macs [OF assms(2,3) twelve, where fc = fc, folded d1_def]
  have proto: "has_ports d1 \<longleftrightarrow> has_ports d"
    using macs(4) [of 23] len by (simp add: has_ports_def)
  define offs where "offs = 14 + hdr_len Ipv4_hdr d 14"
  define q where "q = port_offset fc d"
  have q: "q = offs + (if fc then 0 else 2)" by (simp add: q_def offs_def port_offset_def)
  consider "fgc_cln_port cfg = None \<or> \<not> has_ports d"
      "p' = p\<lparr>from_cln := fc, pkt_mbuf := (pkt_mbuf p)\<lparr>mb_data := d1\<rparr>\<rparr>"
    | po where "fgc_cln_port cfg = Some po" "has_ports d" "offs + 8 \<le> length d1"
      "p' = p\<lparr>from_cln := fc, pkt_mbuf := (pkt_mbuf p)\<lparr>mb_data := set_cport fc po offs d1\<rparr>\<rparr>"
    using prepare_port_Inr [OF port [folded offs_def d1_def] refl] by (auto simp: proto)
  then show ?thesis
  proof cases
    case 1
    then show ?thesis
      using len ty cln macs
      by (auto simp: prepared_def Let_def simp flip: d_def split: option.splits)
  next
    case 2
    define d2 where "d2 = poke q (big16 po) d1"
    have cport: "set_cport fc po offs d1 = d2" and fits: "q + 2 \<le> length d1"
      using set_cport_spec [OF 2(3) q] by (simp_all add: d2_def)
    have qge: "14 \<le> q" by (simp add: q offs_def)
    have "length d2 = length d" using fits macs(1) by (simp add: d2_def)
    moreover have "peek 6 6 d2 = peek 6 6 d1" "peek 0 6 d2 = peek 0 6 d1"
      unfolding d2_def using fits qge len macs(1) by (intro peek_poke_other; simp)+
    moreover have "get_big16 d2 q = po" unfolding d2_def by (rule get_big16_poke [OF fits])
    moreover have "d2 ! i = d ! i" if "i < length d" "12 \<le> i" "i \<noteq> q" "i \<noteq> q + 1" for i
      using that macs(1) macs(4) [of i] fits by (auto simp: d2_def poke_nth)
    moreover have "p' = p\<lparr>from_cln := fc, pkt_mbuf := (pkt_mbuf p)\<lparr>mb_data := d2\<rparr>\<rparr>"
      using 2(4) by (simp only: cport)
    moreover have "q + 2 \<le> length d" using fits macs(1) by simp
    ultimately show ?thesis
      using 2(1,2) len ty cln macs(2,3)
      unfolding d_def q_def by (auto simp: prepared_def Let_def)
  qed
qed

text \<open>
  Claim C23. A packet that is accepted is IPv4, has its first two headers in the first segment, and
  comes out with exactly the configured Ethernet addresses and the configured client's port; every
  other byte is the captured one. The client is the source of the first packet.
\<close>

theorem prepare_pkt_exact:
  assumes "prepare_pkt cfg cln p = Inr (cln', p')"
    and "length (fgc_cln_ether cfg) = 6" and "length (fgc_srv_ether cfg) = 6"
  shows "prepared cfg (from_cln p') (pkt_mbuf p) (pkt_mbuf p') \<and> rel_tsc p' = rel_tsc p \<and>
    cln' = Some (case cln of None \<Rightarrow> peek 6 6 (mb_data (pkt_mbuf p)) | Some a \<Rightarrow> a) \<and>
    (from_cln p' \<longleftrightarrow> cln' = Some (peek 6 6 (mb_data (pkt_mbuf p))))"
  by (rule prepare_pkt_prepared [OF assms])

definition sample_fgen_config :: fgen_config where
  "sample_fgen_config =
     \<lparr>fgc_idx = 0, fgc_cap_fpath = ''test.pcap'', fgc_cln_ether = [10, 11, 12, 13, 14, 15],
      fgc_srv_ether = [20, 21, 22, 23, 24, 25], fgc_burst = 1, fgc_fps = 2, fgc_ipg = None,
      fgc_cln_ips = (0x10000001, 29), fgc_srv_ips = (0x30000001, 29), fgc_cln_port = Some 1024\<rparr>"

text \<open>A frame with the smallest IPv4 and UDP headers and no payload.\<close>

definition sample_frame :: "u8 list" where
  "sample_frame =
     [1, 1, 1, 1, 1, 1, 2, 2, 2, 2, 2, 2, 8, 0,
      0x45, 0, 0, 28, 0, 0, 0, 0, 64, 17, 0, 0, 9, 9, 9, 1, 9, 9, 9, 2,
      4, 1, 0, 53, 0, 8, 0, 0]"

definition sample_pkt :: pkt where
  "sample_pkt = \<lparr>rel_tsc = Cycles 0, pkt_mbuf = (fresh_mbuf 100)\<lparr>mb_data := sample_frame\<rparr>, from_cln = False\<rparr>"

lemma sample_prepare:
  assumes "mb_data (pkt_mbuf p) = sample_frame"
  shows "\<exists>p'. prepare_pkt sample_fgen_config None p = Inr (Some [2, 2, 2, 2, 2, 2], p')"
  using assms
  by (simp add: prepare_pkt_def sample_fgen_config_def sample_frame_def Let_def
      read_hdr_advance_def read_hdr_def data_len_def get_big16_def
      RTE_ETHER_TYPE_IPV4_def prepare_port_def poke_def peek_def IPPROTO_TCP_def IPPROTO_UDP_def)

theorem prepare_pkt_exact_witness:
  "\<exists>p'. prepare_pkt sample_fgen_config None sample_pkt = Inr (Some [2, 2, 2, 2, 2, 2], p') \<and>
     prepared sample_fgen_config (from_cln p') (pkt_mbuf sample_pkt) (pkt_mbuf p')"
proof -
  obtain p' where p': "prepare_pkt sample_fgen_config None sample_pkt = Inr (Some [2, 2, 2, 2, 2, 2], p')"
    using sample_prepare [of sample_pkt] by (auto simp: sample_pkt_def)
  have "length (fgc_cln_ether sample_fgen_config) = 6" "length (fgc_srv_ether sample_fgen_config) = 6"
    by (simp_all add: sample_fgen_config_def)
  from prepare_pkt_exact [OF p' this] p' show ?thesis by blast
qed

subsection \<open>Loading a whole capture\<close>

text \<open>A capture is a list of records: seconds, microseconds and the bytes of the packet.\<close>

type_synonym capture_record = "u32 \<times> u32 \<times> u8 list"

fun record_bytes :: "capture_record \<Rightarrow> u8 list" where
  "record_bytes (sec, usec, payload) =
     record_header sec usec (of_nat (length payload)) (of_nat (length payload)) @ payload"

fun record_payload :: "capture_record \<Rightarrow> u8 list" where
  "record_payload (sec, usec, payload) = payload"

text \<open>The time stamp of the record at position \<open>k\<close>: its own, or a multiple of the configured gap.\<close>

fun record_tstamp :: "u64 option \<Rightarrow> nat \<Rightarrow> capture_record \<Rightarrow> u64" where
  "record_tstamp None k (sec, usec, payload) = ucast sec * 1000000 + ucast usec"
| "record_tstamp (Some g) k (sec, usec, payload) = of_nat k * g"

definition loaded :: "u64 \<Rightarrow> nat \<Rightarrow> u64 option \<Rightarrow> u64 \<Rightarrow> nat \<Rightarrow> capture_record \<Rightarrow> pkt \<Rightarrow> bool" where
  "loaded hz room ipg base k r p \<longleftrightarrow>
     mbuf_bytes (pkt_mbuf p) = record_payload r \<and> mbuf_ok (pkt_mbuf p) \<and>
     mb_data (pkt_mbuf p) = take room (record_payload r) \<and>
     rel_tsc p = from_duration hz (Microseconds (if_gap_usec + record_tstamp ipg k r - base))"

lemma load_loop_end:
  assumes "st_bytes f = []" "st_error f = None"
  shows "load_loop env path ipg it pt f ret m = (Inr ret, m)"
  using assms by (simp add: load_loop.simps load_pkt_def fread_short is_eof_def)

lemma load_loop_records:
  assumes alloc: "alloc_fresh room (alloc_mbuf env)"
  shows "\<lbrakk>st_bytes f = concat (map record_bytes rs); st_error f = None;
      \<forall>r \<in> set rs. length (record_payload r) < 2 ^ 32; rs \<noteq> [] \<longrightarrow> base =
        (case prev of None \<Rightarrow> record_tstamp ipg k (hd rs) | Some t \<Rightarrow> t)\<rbrakk> \<Longrightarrow>
    \<exists>ps m'. load_loop env path ipg (map_option (\<lambda>g. of_nat k * g) ipg) prev f ret m = (Inr (ret @ ps), m') \<and>
      length ps = length rs \<and>
      (\<forall>i < length rs. loaded (timer_hz env) room ipg base (k + i) (rs ! i) (ps ! i))"
proof (induction rs arbitrary: k prev f ret m)
  case Nil
  then show ?case by (simp add: load_loop_end)
next
  case (Cons r rs)
  obtain sec usec payload where r: "r = (sec, usec, payload)" by (cases r)
  obtain p m1 where p: "load_pkt (alloc_mbuf env) (free_mbuf env) f m =
      (Inr p, f\<lparr>st_bytes := concat (map record_bytes rs)\<rparr>, m1)"
    "mbuf_bytes (tp_mbuf p) = payload" "mbuf_ok (tp_mbuf p)" "mb_data (tp_mbuf p) = take room payload"
    "tp_tstamp p = ucast sec * 1000000 + ucast usec"
    using load_pkt_record [OF alloc, of payload f sec usec "concat (map record_bytes rs)"
        "free_mbuf env" m] Cons.prems(1,3)
    by (auto simp: r)
  define ts where "ts = record_tstamp ipg k r"
  have ts: "(case map_option (\<lambda>g. of_nat k * g) ipg of None \<Rightarrow> tp_tstamp p | Some t \<Rightarrow> t) = ts"
    by (simp add: ts_def r p(5) split: option.split)
  have base: "base = (case prev of None \<Rightarrow> ts | Some t \<Rightarrow> t)"
    using Cons.prems(4) by (simp add: ts_def split: option.split)
  define p1 where "p1 = \<lparr>rel_tsc = from_duration (timer_hz env) (Microseconds (if_gap_usec + ts - base)),
      pkt_mbuf = tp_mbuf p, from_cln = False\<rparr>"
  have next_it: "(case map_option (\<lambda>g. of_nat k * g) ipg of
        None \<Rightarrow> map_option (\<lambda>g. of_nat k * g) ipg
      | Some t \<Rightarrow> (case ipg of None \<Rightarrow> map_option (\<lambda>g. of_nat k * g) ipg | Some g \<Rightarrow> Some (t + g))) =
      map_option (\<lambda>g. of_nat (Suc k) * g) ipg"
    by (cases ipg) (simp_all add: algebra_simps)
  have step: "load_loop env path ipg (map_option (\<lambda>g. of_nat k * g) ipg) prev f ret m =
      load_loop env path ipg (map_option (\<lambda>g. of_nat (Suc k) * g) ipg) (Some base)
        (f\<lparr>st_bytes := concat (map record_bytes rs)\<rparr>) (ret @ [p1]) m1"
    by (subst load_loop.simps) (simp only: p(1) prod.case sum.case Let_def ts next_it p1_def flip: base)
  obtain ps m' where ps: "load_loop env path ipg (map_option (\<lambda>g. of_nat (Suc k) * g) ipg) (Some base)
        (f\<lparr>st_bytes := concat (map record_bytes rs)\<rparr>) (ret @ [p1]) m1 = (Inr ((ret @ [p1]) @ ps), m')"
      "length ps = length rs"
      "\<forall>i < length rs. loaded (timer_hz env) room ipg base (Suc k + i) (rs ! i) (ps ! i)"
    using Cons.IH [of "f\<lparr>st_bytes := concat (map record_bytes rs)\<rparr>" "Suc k" "Some base" "ret @ [p1]" m1]
      Cons.prems(2,3) by auto
  have "loaded (timer_hz env) room ipg base k r p1"
    using p(2-4) by (simp add: loaded_def p1_def r ts_def)
  then have "\<forall>i < length (r # rs). loaded (timer_hz env) room ipg base (k + i) ((r # rs) ! i) ((p1 # ps) ! i)"
    using ps(3) by (auto simp: nth_Cons split: nat.split)
  then show ?case using ps(1,2) by (intro exI [of _ "p1 # ps"] exI [of _ m']) (simp add: step)
qed

definition source_addr :: "pkt \<Rightarrow> u8 list" where
  "source_addr p = peek 6 6 (mb_data (pkt_mbuf p))"

lemma prepare_pkts_Inr:
  assumes len: "length (fgc_cln_ether cfg) = 6" "length (fgc_srv_ether cfg) = 6"
  shows "prepare_pkts cfg cln ps = Inr ps' \<Longrightarrow> length ps' = length ps \<and>
    (\<forall>i < length ps. prepared cfg (from_cln (ps' ! i)) (pkt_mbuf (ps ! i)) (pkt_mbuf (ps' ! i)) \<and>
      rel_tsc (ps' ! i) = rel_tsc (ps ! i) \<and>
      (from_cln (ps' ! i) \<longleftrightarrow>
         source_addr (ps ! i) = (case cln of None \<Rightarrow> source_addr (hd ps) | Some a \<Rightarrow> a)))"
proof (induction ps arbitrary: cln ps')
  case Nil
  then show ?case by simp
next
  case (Cons p ps)
  obtain cln1 p' ps1 where p': "prepare_pkt cfg cln p = Inr (cln1, p')"
    "prepare_pkts cfg cln1 ps = Inr ps1" "ps' = p' # ps1"
    using Cons.prems by (auto simp: res_simps)
  define c where "c = (case cln of None \<Rightarrow> source_addr p | Some a \<Rightarrow> a)"
  have c: "(case cln of None \<Rightarrow> peek 6 6 (mb_data (pkt_mbuf p)) | Some a \<Rightarrow> a) = c"
    by (simp add: c_def source_addr_def split: option.split)
  have pp: "prepared cfg (from_cln p') (pkt_mbuf p) (pkt_mbuf p')" "rel_tsc p' = rel_tsc p"
    "cln1 = Some c" "from_cln p' \<longleftrightarrow> cln1 = Some (source_addr p)"
    using prepare_pkt_prepared [OF p'(1) len] unfolding c source_addr_def by blast+
  then have head: "prepared cfg (from_cln p') (pkt_mbuf p) (pkt_mbuf p')" "rel_tsc p' = rel_tsc p"
    "cln1 = Some c" "from_cln p' \<longleftrightarrow> source_addr p = c"
    by auto
  have "length ps1 = length ps \<and>
    (\<forall>i < length ps. prepared cfg (from_cln (ps1 ! i)) (pkt_mbuf (ps ! i)) (pkt_mbuf (ps1 ! i)) \<and>
      rel_tsc (ps1 ! i) = rel_tsc (ps ! i) \<and> (from_cln (ps1 ! i) \<longleftrightarrow> source_addr (ps ! i) = c))"
    using Cons.IH [OF p'(2)] unfolding head(3) option.case .
  moreover have cc: "(case cln of None \<Rightarrow> source_addr (hd (p # ps)) | Some a \<Rightarrow> a) = c"
    by (simp add: c_def split: option.split)
  ultimately show ?case
    using head unfolding cc by (auto simp: p'(3) nth_Cons split: nat.split)
qed

definition pcap_file_header :: "u8 list \<Rightarrow> bool" where
  "pcap_file_header h \<longleftrightarrow>
     length h = 24 \<and> le32 h 0 = 0xA1B2C3D4 \<and> le16 h 4 = 2 \<and> le16 h 6 = 4"

lemma load_pkts_file:
  assumes "alloc_fresh room (alloc_mbuf env)"
    and "open_file env (fgc_cap_fpath cfg) = Inr f" and "st_error f = None"
    and "st_bytes f = h @ concat (map record_bytes rs)" and "pcap_file_header h"
    and "\<forall>r \<in> set rs. length (record_payload r) < 2 ^ 32"
  shows "\<exists>ps m1. length ps = length rs \<and> (\<forall>i < length rs.
      loaded (timer_hz env) room (fgc_ipg cfg) (record_tstamp (fgc_ipg cfg) 0 (hd rs)) i (rs ! i) (ps ! i)) \<and>
    load_pkts env cfg m =
      (case prepare_pkts cfg None ps of
         Inl e \<Rightarrow> (Inl e, free_pkts env ps m1)
       | Inr ps' \<Rightarrow>
           if ps' = [] then (throw_runtime_error ''Loaded no packets from {}'' [fgc_cap_fpath cfg], m1)
           else (Inr ps', m1))"
proof -
  define f1 where "f1 = f\<lparr>st_bytes := concat (map record_bytes rs)\<rparr>"
  have open_ok: "tcap_open (open_file env) (fgc_cap_fpath cfg) = Inr f1"
    using assms(2,4,5) by (simp add: tcap_open_def fread_def pcap_file_header_def f1_def)
  have "st_bytes f1 = concat (map record_bytes rs)" "st_error f1 = None"
    using assms(3) by (simp_all add: f1_def)
  from load_loop_records [OF assms(1) this assms(6), where k = 0 and prev = None
      and ipg = "fgc_ipg cfg" and ret = "[]" and m = m and path = "fgc_cap_fpath cfg"
      and base = "record_tstamp (fgc_ipg cfg) 0 (hd rs)"]
  obtain ps m1 where ps:
    "load_loop env (fgc_cap_fpath cfg) (fgc_ipg cfg) (map_option (\<lambda>_. 0) (fgc_ipg cfg)) None f1 [] m =
      (Inr ps, m1)" "length ps = length rs"
    "\<forall>i < length rs. loaded (timer_hz env) room (fgc_ipg cfg)
       (record_tstamp (fgc_ipg cfg) 0 (hd rs)) i (rs ! i) (ps ! i)"
    by auto
  then show ?thesis by (intro exI [of _ ps] exI [of _ m1]) (simp add: load_pkts_def open_ok)
qed

text \<open>
  Claim C8. Loading a capture file reads one packet per record, in order: packet \<open>i\<close> has the bytes of
  record \<open>i\<close>, and its relative time stamp is 100 milliseconds plus its distance to the first record
  (not to the previous one). The load succeeds exactly when there is a record and the preparation
  of no packet fails, and fails with the error of the first that does; then every packet has been
  given back. When it succeeds the packets are the records' in order, with only the Ethernet
  addresses and the port rewritten, and each is from the client exactly when its source is the
  source of the first.
\<close>

theorem load_pkts_capture:
  assumes "alloc_fresh room (alloc_mbuf env)"
    and "open_file env (fgc_cap_fpath cfg) = Inr f" and "st_error f = None"
    and "st_bytes f = h @ concat (map record_bytes rs)" and "pcap_file_header h"
    and "\<forall>r \<in> set rs. length (record_payload r) < 2 ^ 32"
    and "length (fgc_cln_ether cfg) = 6" and "length (fgc_srv_ether cfg) = 6"
  shows "\<exists>ps m1. length ps = length rs \<and> (\<forall>i < length rs.
      loaded (timer_hz env) room (fgc_ipg cfg) (record_tstamp (fgc_ipg cfg) 0 (hd rs)) i (rs ! i) (ps ! i)) \<and>
    (case prepare_pkts cfg None ps of
       Inl e \<Rightarrow> load_pkts env cfg m = (Inl e, free_pkts env ps m1)
     | Inr pkts \<Rightarrow>
         load_pkts env cfg m =
           (if rs = [] then throw_runtime_error ''Loaded no packets from {}'' [fgc_cap_fpath cfg] else Inr pkts, m1) \<and>
         length pkts = length rs \<and> (\<forall>i < length rs.
           prepared cfg (from_cln (pkts ! i)) (pkt_mbuf (ps ! i)) (pkt_mbuf (pkts ! i)) \<and>
           rel_tsc (pkts ! i) = rel_tsc (ps ! i) \<and>
           (from_cln (pkts ! i) \<longleftrightarrow> source_addr (ps ! i) = source_addr (hd ps))))"
proof -
  obtain ps m1 where ps: "length ps = length rs" "\<forall>i < length rs. loaded (timer_hz env) room (fgc_ipg cfg)
       (record_tstamp (fgc_ipg cfg) 0 (hd rs)) i (rs ! i) (ps ! i)"
    and eq: "load_pkts env cfg m =
      (case prepare_pkts cfg None ps of
         Inl e \<Rightarrow> (Inl e, free_pkts env ps m1)
       | Inr ps' \<Rightarrow>
           if ps' = [] then (throw_runtime_error ''Loaded no packets from {}'' [fgc_cap_fpath cfg], m1)
           else (Inr ps', m1))"
    using load_pkts_file [OF assms(1-6), of m] by blast
  show ?thesis
  proof (cases "prepare_pkts cfg None ps")
    case (Inl e)
    then show ?thesis using ps eq by (intro exI [of _ ps] exI [of _ m1]) simp
  next
    case (Inr pkts)
    note prep = prepare_pkts_Inr [OF assms(7,8) Inr, unfolded option.case]
    have "length pkts = length rs" using prep ps(1) by metis
    moreover from this have "pkts = [] \<longleftrightarrow> rs = []" by auto
    moreover have "\<forall>i < length rs. prepared cfg (from_cln (pkts ! i)) (pkt_mbuf (ps ! i)) (pkt_mbuf (pkts ! i)) \<and>
        rel_tsc (pkts ! i) = rel_tsc (ps ! i) \<and>
        (from_cln (pkts ! i) \<longleftrightarrow> source_addr (ps ! i) = source_addr (hd ps))"
      using prep ps(1) by metis
    moreover have "load_pkts env cfg m =
        (if rs = [] then throw_runtime_error ''Loaded no packets from {}'' [fgc_cap_fpath cfg] else Inr pkts, m1)"
      using eq Inr \<open>pkts = [] \<longleftrightarrow> rs = []\<close> by simp
    ultimately show ?thesis
      by (intro exI [of _ ps] exI [of _ m1] conjI ps) (unfold Inr sum.case, blast)
  qed
qed

text \<open>
  For the witnesses: an environment whose pool is a counter, with one capture file of one record.
\<close>

definition sample_file :: "capture_record list \<Rightarrow> stream" where
  "sample_file rs =
     \<lparr>st_bytes = (le32_bytes 0xA1B2C3D4 @ [2, 0, 4, 0] @ replicate 16 0) @ concat (map record_bytes rs),
      st_error = None, st_eof = False, st_errno = 0\<rparr>"

definition sample_env :: "nat gen_env" where
  "sample_env =
     \<lparr>alloc_mbuf = (\<lambda>n. (Some (fresh_mbuf 100), n + 1)), copy_pkt = (\<lambda>b n. (Some b, n + segments b)),
      send_pkt = (\<lambda>b n. n - segments b), create_event = (\<lambda>n. (\<lparr>tmr = Some 0, has_scheduler = True\<rparr>, n)),
      do_report = (\<lambda>r n. n), free_mbuf = (\<lambda>b n. n - segments b), current_cycles = (\<lambda>n. (Cycles 7, n)),
      assign_event = (\<lambda>rhs this n. Inr (handle_empty, rhs, n)), destroy_event = (\<lambda>h n. Inr n),
      schedule_event = (\<lambda>h t c n. Inr n), timer_hz = 1000000000,
      open_file = (\<lambda>path. Inr (sample_file [(1, 5, sample_frame)])),
      hosts = (\<lambda>(a, l). (a, a + 2)), next_addr = (\<lambda>a. a + 1),
      flag_ipv4 = 1, flag_ip_cksum = 2, flag_tcp_cksum = 4, flag_udp_cksum = 8\<rparr>"

lemma sample_file_header: "pcap_file_header (le32_bytes 0xA1B2C3D4 @ [2, 0, 4, 0] @ replicate 16 0)"
  using le32_le32_bytes [of "[]" "0xA1B2C3D4" "[2, 0, 4, 0] @ replicate 16 0"]
  by (simp add: pcap_file_header_def le16_def nth_append)

lemma sample_env_alloc: "alloc_fresh 100 (alloc_mbuf sample_env)"
  by (simp add: alloc_fresh_def sample_env_def)

lemma sample_env_file:
  "open_file sample_env p = Inr (sample_file [(1, 5, sample_frame)])"
  "st_error (sample_file rs) = None"
  "st_bytes (sample_file rs) =
     (le32_bytes 0xA1B2C3D4 @ [2, 0, 4, 0] @ replicate 16 0) @ concat (map record_bytes rs)"
  by (simp_all add: sample_env_def sample_file_def)

lemma sample_frame_fits: "\<forall>r \<in> set [(1, 5, sample_frame)]. length (record_payload r) < 2 ^ 32"
  by (simp add: sample_frame_def)

lemma sample_addresses:
  "length (fgc_cln_ether sample_fgen_config) = 6" "length (fgc_srv_ether sample_fgen_config) = 6"
  by (simp_all add: sample_fgen_config_def)

lemma sample_load:
  obtains p m' where "load_pkts sample_env sample_fgen_config m = (Inr [p], m')"
proof -
  obtain ps m1 where ps: "length ps = 1" "loaded 1000000000 100 None
       (record_tstamp None 0 (1, 5, sample_frame)) 0 (1, 5, sample_frame) (ps ! 0)"
    and eq: "load_pkts sample_env sample_fgen_config m =
      (case prepare_pkts sample_fgen_config None ps of
         Inl e \<Rightarrow> (Inl e, free_pkts sample_env ps m1)
       | Inr ps' \<Rightarrow>
           if ps' = [] then (throw_runtime_error ''Loaded no packets from {}'' [fgc_cap_fpath sample_fgen_config], m1)
           else (Inr ps', m1))"
    using load_pkts_file [OF sample_env_alloc sample_env_file sample_file_header sample_frame_fits,
        of sample_fgen_config m]
    by (auto simp: sample_fgen_config_def sample_env_def)
  obtain p where p: "ps = [p]" using ps(1) by (auto simp: length_Suc_conv)
  have "mb_data (pkt_mbuf p) = sample_frame"
    using ps(2) by (simp add: p loaded_def sample_frame_def)
  then obtain p' where "prepare_pkt sample_fgen_config None p = Inr (Some [2, 2, 2, 2, 2, 2], p')"
    using sample_prepare by blast
  then have "load_pkts sample_env sample_fgen_config m = (Inr [p'], m1)" by (simp add: eq p)
  then show ?thesis by (rule that)
qed

theorem load_pkts_capture_witness:
  "\<exists>pkts m'. load_pkts sample_env sample_fgen_config 0 = (Inr pkts, m') \<and> length pkts = 1 \<and> from_cln (pkts ! 0)"
proof -
  let ?rs = "[(1, 5, sample_frame)] :: capture_record list" and ?cfg = sample_fgen_config
  obtain p m' where p: "load_pkts sample_env ?cfg 0 = (Inr [p], m')"
    by (rule sample_load)
  from load_pkts_capture [OF sample_env_alloc sample_env_file sample_file_header sample_frame_fits
      sample_addresses, of 0]
  obtain ps m1 where ps: "length ps = length ?rs" and out: "case prepare_pkts ?cfg None ps of
      Inl e \<Rightarrow> load_pkts sample_env ?cfg 0 = (Inl e, free_pkts sample_env ps m1)
    | Inr pkts \<Rightarrow> load_pkts sample_env ?cfg 0 =
        (if ?rs = [] then throw_runtime_error ''Loaded no packets from {}'' [fgc_cap_fpath ?cfg] else Inr pkts, m1) \<and>
        length pkts = length ?rs \<and> (\<forall>i < length ?rs.
          prepared ?cfg (from_cln (pkts ! i)) (pkt_mbuf (ps ! i)) (pkt_mbuf (pkts ! i)) \<and>
          rel_tsc (pkts ! i) = rel_tsc (ps ! i) \<and>
          (from_cln (pkts ! i) \<longleftrightarrow> source_addr (ps ! i) = source_addr (hd ps)))"
    by blast
  have "source_addr (ps ! 0) = source_addr (hd ps)" using ps by (cases ps) simp_all
  then show ?thesis using out p by (cases "prepare_pkts ?cfg None ps") auto
qed

subsection \<open>What loading keeps\<close>

text \<open>Whatever allocating and freeing packets keep, loading a capture keeps.\<close>

definition pool_keeps ::
  "('m \<Rightarrow> mbuf option \<times> 'm) \<Rightarrow> (mbuf \<Rightarrow> 'm \<Rightarrow> 'm) \<Rightarrow> ('m \<Rightarrow> bool) \<Rightarrow> bool" where
  "pool_keeps alloc free P \<longleftrightarrow>
     (\<forall>m. P m \<longrightarrow> P (snd (alloc m))) \<and> (\<forall>b m. P m \<longrightarrow> P (free b m))"

lemma pool_keepsD:
  assumes "pool_keeps alloc free P" and "P m"
  shows "alloc m = (r, m') \<Longrightarrow> P m'" and "P (free b m)"
  using assms unfolding pool_keeps_def by (metis snd_conv, blast)

lemma load_segments_keeps:
  assumes keeps: "pool_keeps alloc free P"
  shows "\<lbrakk>load_segments alloc rem first head f m = (r, head', f', m'); P m\<rbrakk> \<Longrightarrow> P m'"
proof (induction rem arbitrary: first head f m rule: less_induct)
  case (less rem)
  obtain s m1 where s: "(if first then (Some head, m) else alloc m) = (s, m1)" by force
  have m1: "P m1" using s pool_keepsD(1) [OF keeps less.prems(2)] less.prems(2) by (auto split: if_splits)
  show ?case
  proof (cases "rem = 0 \<or> s = None")
    case True
    then show ?thesis using less.prems m1
      by (subst (asm) load_segments.simps) (auto simp: s split: if_splits)
  next
    case False
    then obtain seg where seg: "s = Some seg" "rem \<noteq> 0" by auto
    obtain b f1 where b: "fread (min rem (tailroom seg)) f = (b, f1)" by force
    show ?thesis
    proof (cases b)
      case None
      then show ?thesis using less.prems m1
        by (subst (asm) load_segments.simps) (simp add: s seg b Let_def)
    next
      case (Some bs)
      then have "0 < min rem (tailroom seg)" using b fread_positive by metis
      then have "rem - min rem (tailroom seg) < rem" using seg(2) by linarith
      from less.IH [OF this _ m1] less.prems show ?thesis
        by (subst (asm) (2) load_segments.simps) (simp add: s seg b Some Let_def)
    qed
  qed
qed

lemma load_pkt_keeps:
  assumes "pool_keeps alloc free P" "load_pkt alloc free f m = (r, f', m')" "P m"
  shows "P m'"
proof -
  obtain h f1 where h: "fread 16 f = (h, f1)" by force
  show ?thesis
  proof (cases "\<exists>hb. h = Some hb \<and> le32 hb 8 = le32 hb 12")
    case False
    then show ?thesis using assms(2,3) h by (auto simp: load_pkt_def Let_def split: option.splits if_splits)
  next
    case True
    then obtain hb where hb: "h = Some hb" "le32 hb 8 = le32 hb 12" by blast
    obtain b m1 where b: "alloc m = (b, m1)" by force
    note m1 = pool_keepsD(1) [OF assms(1,3) b]
    show ?thesis
    proof (cases b)
      case None
      then show ?thesis using assms(2) m1 by (simp add: load_pkt_def h hb b)
    next
      case (Some head)
      obtain e head' f2 m2 where ls: "load_segments alloc (unat (le32 hb 12)) True head f1 m1 = (e, head', f2, m2)"
        by (metis prod_cases4)
      note m2 = load_segments_keeps [OF assms(1) ls m1]
      show ?thesis
        using assms(2) m2 pool_keepsD(2) [OF assms(1) m2, of head']
        by (cases e) (simp_all add: load_pkt_def h hb b Some ls Let_def)
    qed
  qed
qed

lemma free_pkts_keeps:
  assumes "pool_keeps (alloc_mbuf env) (free_mbuf env) P"
  shows "P m \<Longrightarrow> P (free_pkts env ps m)"
  unfolding free_pkts_def by (induction ps arbitrary: m) (simp_all add: pool_keepsD(2) [OF assms])

lemma load_loop_keeps:
  assumes keeps: "pool_keeps (alloc_mbuf env) (free_mbuf env) P"
  shows "\<lbrakk>load_loop env path ipg it prev f ret m = (r, m'); P m\<rbrakk> \<Longrightarrow> P m'"
proof (induction "length (st_bytes f)" arbitrary: it prev f ret m rule: less_induct)
  case less
  obtain x f1 m1 where x: "load_pkt (alloc_mbuf env) (free_mbuf env) f m = (x, f1, m1)"
    by (metis prod_cases3)
  note m1 = load_pkt_keeps [OF keeps x less.prems(2)]
  show ?case
  proof (cases x)
    case (Inl e)
    then show ?thesis
      using less.prems x m1 free_pkts_keeps [OF keeps m1, of ret]
      by (subst (asm) load_loop.simps) (auto split: if_splits)
  next
    case (Inr pk)
    have "length (st_bytes f1) < length (st_bytes f)"
      using load_pkt_consumes x Inr by metis
    from less.hyps [OF this _ m1] less.prems x Inr show ?thesis
      by (subst (asm) (2) load_loop.simps) (simp add: Let_def)
  qed
qed

lemma load_pkts_keeps:
  assumes keeps: "pool_keeps (alloc_mbuf env) (free_mbuf env) P"
    and "load_pkts env cfg m = (r, m')" "P m"
  shows "P m'"
proof (cases "tcap_open (open_file env) (fgc_cap_fpath cfg)")
  case (Inl e)
  then show ?thesis using assms(2,3) by (auto simp: load_pkts_def)
next
  case (Inr f)
  obtain r1 m1 where r1: "load_loop env (fgc_cap_fpath cfg) (fgc_ipg cfg)
      (map_option (\<lambda>_. 0) (fgc_ipg cfg)) None f [] m = (r1, m1)" by force
  have m1: "P m1" by (rule load_loop_keeps [OF keeps r1 assms(3)])
  then show ?thesis
    using assms(2) free_pkts_keeps [OF keeps m1]
    by (auto simp: load_pkts_def Inr r1 split: sum.splits if_splits)
qed

subsection \<open>Failures\<close>

lemma load_pkts_nonempty:
  assumes "load_pkts env cfg m = (Inr pkts, m')"
    and "length (fgc_cln_ether cfg) = 6" "length (fgc_srv_ether cfg) = 6"
  shows "pkts \<noteq> []" and "p \<in> set pkts \<Longrightarrow> 34 \<le> length (mb_data (pkt_mbuf p))"
proof -
  obtain ps where ps: "prepare_pkts cfg None ps = Inr pkts" "pkts \<noteq> []"
    using assms(1)
    by (auto simp: load_pkts_def throw_runtime_error_def split: sum.splits if_splits prod.splits)
  then show "pkts \<noteq> []" by blast
  show "34 \<le> length (mb_data (pkt_mbuf p))" if "p \<in> set pkts"
    using prepare_pkts_Inr [OF assms(2,3) ps(1)] that
    by (auto simp: in_set_conv_nth prepared_def Let_def)
qed

text \<open>Whatever goes wrong is reported as an exception.\<close>

definition only_throws :: "'a res \<Rightarrow> bool" where
  "only_throws r \<longleftrightarrow> (case r of Inl e \<Rightarrow> (\<exists>x. e = Thrown x) | Inr _ \<Rightarrow> True)"

lemma only_throws_simps [simp]:
  "only_throws (Inr x)" "only_throws (Inl (Thrown e))" "only_throws (throw_runtime_error text args)"
  "only_throws (throw_system_error err text args)" "only_throws (too_short path)"
  by (simp_all add: only_throws_def throw_runtime_error_def throw_system_error_def too_short_def)

lemma only_throws_bind:
  "only_throws m \<Longrightarrow> (\<And>x. m = Inr x \<Longrightarrow> only_throws (f x)) \<Longrightarrow> only_throws (bind_res m f)"
  by (cases m) (auto simp: only_throws_def)

lemma prepare_port_throws: "only_throws (prepare_port cfg p ih offs)"
  by (auto simp: prepare_port_def Let_def split: option.split)

lemma prepare_pkt_throws: "only_throws (prepare_pkt cfg cln p)"
  by (auto simp: prepare_pkt_def Let_def intro: only_throws_bind prepare_port_throws
      split: option.split prod.split)

lemma prepare_pkts_throws: "only_throws (prepare_pkts cfg cln ps)"
  by (induction cfg cln ps rule: prepare_pkts.induct)
     (auto intro!: only_throws_bind prepare_pkt_throws split: prod.split)

lemma load_loop_throws: "only_throws (fst (load_loop env path ipg it prev f ret m))"
proof (induction "length (st_bytes f)" arbitrary: it prev f ret m rule: less_induct)
  case less
  obtain x f1 m1 where x: "load_pkt (alloc_mbuf env) (free_mbuf env) f m = (x, f1, m1)"
    by (metis prod_cases3)
  show ?case
  proof (cases x)
    case (Inl e)
    then show ?thesis using x by (subst load_loop.simps) simp
  next
    case (Inr pk)
    have "length (st_bytes f1) < length (st_bytes f)"
      using load_pkt_consumes x Inr by metis
    from less.hyps [OF this] show ?thesis using x Inr by (subst load_loop.simps) (simp add: Let_def)
  qed
qed

lemma load_pkts_thrown:
  assumes "load_pkts env cfg m = (Inl e, m')"
  shows "\<exists>x. e = Thrown x"
proof -
  have "only_throws (fst (load_pkts env cfg m))"
  proof (cases "tcap_open (open_file env) (fgc_cap_fpath cfg)")
    case (Inl e)
    have "only_throws (tcap_open (open_file env) (fgc_cap_fpath cfg))"
      by (auto simp: tcap_open_def split: sum.split option.split prod.split)
    then show ?thesis by (simp add: load_pkts_def Inl only_throws_def)
  next
    case (Inr f)
    obtain r1 m1 where r1: "load_loop env (fgc_cap_fpath cfg) (fgc_ipg cfg)
        (map_option (\<lambda>_. 0) (fgc_ipg cfg)) None f [] m = (r1, m1)" by force
    then have "only_throws r1" using load_loop_throws by (metis fst_conv)
    moreover have "\<exists>x. e = Thrown x" if "prepare_pkts cfg None ps = Inl e" for ps e
      using prepare_pkts_throws [of cfg None ps] by (simp add: that only_throws_def)
    ultimately show ?thesis
      by (simp add: load_pkts_def Inr r1 only_throws_def throw_runtime_error_def split: sum.splits)
  qed
  then show ?thesis by (simp add: assms only_throws_def)
qed

definition pkts_segments :: "pkt list \<Rightarrow> nat" where
  "pkts_segments ps = sum_list (map (\<lambda>p. segments (pkt_mbuf p)) ps)"

lemma free_pkts_used:
  assumes "pool_counts (alloc_mbuf env) (free_mbuf env) used"
  shows "used (free_pkts env ps m) = used m - pkts_segments ps"
  unfolding free_pkts_def pkts_segments_def
proof (induction ps arbitrary: m)
  case (Cons p ps)
  then show ?case using pool_counts_free [OF assms, of "pkt_mbuf p" m] by simp
qed simp

lemma load_loop_used:
  assumes pool: "pool_counts (alloc_mbuf env) (free_mbuf env) used"
  shows "\<lbrakk>load_loop env path ipg it prev f ret m = (r, m'); used m = n + pkts_segments ret\<rbrakk> \<Longrightarrow>
    used m' = n + (case r of Inl _ \<Rightarrow> 0 | Inr ps \<Rightarrow> pkts_segments ps)"
proof (induction "length (st_bytes f)" arbitrary: it prev f ret m rule: less_induct)
  case less
  obtain x f1 m1 where x: "load_pkt (alloc_mbuf env) (free_mbuf env) f m = (x, f1, m1)"
    by (metis prod_cases3)
  note used = load_pkt_used [OF pool x]
  show ?case
  proof (cases x)
    case (Inl e)
    then show ?thesis
      using less.prems x used free_pkts_used [OF pool, of ret m1]
      by (subst (asm) load_loop.simps) (auto simp: throw_system_error_def split: if_splits)
  next
    case (Inr pk)
    have "length (st_bytes f1) < length (st_bytes f)"
      using load_pkt_consumes x Inr by metis
    from less.hyps [OF this] less.prems x used Inr show ?thesis
      by (subst (asm) (2) load_loop.simps) (simp add: Let_def pkts_segments_def)
  qed
qed

lemma prepare_pkt_segments:
  assumes "prepare_pkt cfg cln p = Inr (cln', p')"
  shows "segments (pkt_mbuf p') = segments (pkt_mbuf p)"
proof -
  obtain fc where "prepare_port cfg (p\<lparr>from_cln := fc,
        pkt_mbuf := (pkt_mbuf p)\<lparr>mb_data := rewrite_macs cfg fc (mb_data (pkt_mbuf p))\<rparr>\<rparr>) 14
      (14 + hdr_len Ipv4_hdr (mb_data (pkt_mbuf p)) 14) = Inr p'"
    using prepare_pkt_Inr [OF assms refl] .
  from prepare_port_Inr [OF this refl] show ?thesis
    by (elim disjE exE conjE) (simp_all add: segments_def)
qed

lemma prepare_pkts_segments:
  "prepare_pkts cfg cln ps = Inr ps' \<Longrightarrow> pkts_segments ps' = pkts_segments ps"
proof (induction ps arbitrary: cln ps')
  case (Cons p ps)
  then show ?case by (auto simp: res_simps pkts_segments_def prepare_pkt_segments)
qed simp

text \<open>
  Claim C22. Loading a capture never leaks a segment: when it throws, for whatever reason, everything
  it had taken from the pool has been returned, and when it succeeds exactly the segments of the
  packets it returns are in use.
\<close>

theorem load_pkts_no_leak:
  assumes "pool_counts (alloc_mbuf env) (free_mbuf env) used"
    and "load_pkts env cfg m = (r, m')"
  shows "used m' = used m + (case r of Inl _ \<Rightarrow> 0 | Inr ps \<Rightarrow> pkts_segments ps)"
proof (cases "tcap_open (open_file env) (fgc_cap_fpath cfg)")
  case (Inl e)
  then show ?thesis using assms(2) by (auto simp: load_pkts_def)
next
  case (Inr f)
  obtain r1 m1 where r1: "load_loop env (fgc_cap_fpath cfg) (fgc_ipg cfg)
      (map_option (\<lambda>_. 0) (fgc_ipg cfg)) None f [] m = (r1, m1)" by force
  have used: "used m1 = used m + (case r1 of Inl _ \<Rightarrow> 0 | Inr ps \<Rightarrow> pkts_segments ps)"
    by (rule load_loop_used [OF assms(1) r1]) (simp add: pkts_segments_def)
  show ?thesis
  proof (cases r1)
    case (Inl e)
    then show ?thesis using assms(2) used by (auto simp: load_pkts_def Inr r1)
  next
    case (Inr ps)
    then show ?thesis
      using assms(2) used free_pkts_used [OF assms(1), of ps m1] prepare_pkts_segments [of cfg None ps]
      by (auto simp: load_pkts_def \<open>tcap_open _ _ = Inr f\<close> r1 pkts_segments_def throw_runtime_error_def
          split: sum.splits if_splits)
  qed
qed

lemma sample_env_counts: "pool_counts (alloc_mbuf sample_env) (free_mbuf sample_env) (\<lambda>n. n)"
  by (simp add: pool_counts_def sample_env_def fresh_mbuf_def)

theorem load_pkts_no_leak_witness:
  "\<exists>p m'. load_pkts sample_env sample_fgen_config 3 = (Inr [p], m') \<and> m' = 3 + segments (pkt_mbuf p)"
proof -
  obtain p m' where p: "load_pkts sample_env sample_fgen_config 3 = (Inr [p], m')"
    by (rule sample_load)
  from load_pkts_no_leak [OF sample_env_counts p] p show ?thesis by (auto simp: pkts_segments_def)
qed

end
