(* ===== verification/Flows_Generator.thy ===== *)
theory Flows_Generator
  imports Load_Pkts
begin

section \<open>The flows of a capture (gen/priv/flows\_generator.cpp)\<close>

text \<open>
  A generator replays one capture as many flows per second as configured. A flow keeps its position
  in the capture, its pair of addresses and its event; when its event fires, \<open>on_flow_event\<close> sends
  the flow's next packet and schedules the event again. All flows of a burst share a pair of
  addresses, and the next burst takes the next client and the next server, each cyclically.
\<close>

unbundle bit_operations_syntax

record flow =
  fl_idx :: u32
  fl_pkt_idx :: u32
  fl_cln_ip :: u32
  fl_srv_ip :: u32
  fl_event :: handle
  fl_cnt_pkts :: u64
  fl_cnt_bytes :: u64
  fl_tstamp_beg :: cycles
  fl_tstamp_end :: cycles

text \<open>
  The ranges are the first address and the end; an iterator is the address it points to. A flow's
  pointer to its generator is the generator's index, which is its position among the generators.
\<close>

record fgen =
  fg_pkts :: "pkt list"
  fg_flows :: "flow list"
  fg_cln_rng :: "u32 \<times> u32"
  fg_srv_rng :: "u32 \<times> u32"
  fg_idx :: u32
  fg_cln_it :: u32
  fg_srv_it :: u32
  fg_burst_idx :: u32
  fg_burst_cnt :: u32

definition inc_reset :: "('a \<Rightarrow> 'a) \<Rightarrow> 'a \<Rightarrow> 'a \<Rightarrow> 'a \<Rightarrow> bool \<times> 'a" where
  "inc_reset inc val first last_end =
     (let v = inc val in if v = last_end then (True, first) else (False, v))"

text \<open>The iterators and the burst index after one more flow has been started.\<close>

definition advance_burst ::
  "(u32 \<Rightarrow> u32) \<Rightarrow> u32 \<times> u32 \<Rightarrow> u32 \<times> u32 \<Rightarrow> u32 \<Rightarrow> u32 \<times> u32 \<times> u32 \<Rightarrow> u32 \<times> u32 \<times> u32" where
  "advance_burst nxt cln_rng srv_rng burst_cnt st =
     (case st of (cln, srv, burst_idx) \<Rightarrow>
        case inc_reset (\<lambda>b. b + 1) burst_idx 0 burst_cnt of
          (True, b) \<Rightarrow>
            (snd (inc_reset nxt cln (fst cln_rng) (snd cln_rng)),
             snd (inc_reset nxt srv (fst srv_rng) (snd srv_rng)), b)
        | (False, b) \<Rightarrow> (cln, srv, b))"

definition new_flow :: "nat \<Rightarrow> u32 \<Rightarrow> u32 \<Rightarrow> flow" where
  "new_flow i cln srv =
     \<lparr>fl_idx = of_nat i, fl_pkt_idx = 0, fl_cln_ip = cln, fl_srv_ip = srv, fl_event = handle_empty,
      fl_cnt_pkts = 0, fl_cnt_bytes = 0, fl_tstamp_beg = Cycles 0, fl_tstamp_end = Cycles 0\<rparr>"

fun setup_flows_loop ::
  "(u32 \<Rightarrow> u32) \<Rightarrow> u32 \<times> u32 \<Rightarrow> u32 \<times> u32 \<Rightarrow> u32 \<Rightarrow> nat list \<Rightarrow> flow list \<Rightarrow> u32 \<times> u32 \<times> u32 \<Rightarrow>
   flow list \<times> u32 \<times> u32 \<times> u32" where
  "setup_flows_loop nxt cr sr burst_cnt [] flows st = (flows, st)"
| "setup_flows_loop nxt cr sr burst_cnt (i # is) flows (cln, srv, b) =
     setup_flows_loop nxt cr sr burst_cnt is (flows @ [new_flow i cln srv])
       (advance_burst nxt cr sr burst_cnt (cln, srv, b))"

definition setup_flows ::
  "build \<Rightarrow> (u32 \<Rightarrow> u32) \<Rightarrow> u32 \<times> u32 \<Rightarrow> u32 \<times> u32 \<Rightarrow> u32 \<Rightarrow> u32 \<Rightarrow>
   (flow list \<times> u32 \<times> u32 \<times> u32) res" where
  "setup_flows bld nxt cr sr flows_per_sec burst_cnt =
     bind_res (tg_enforce bld (1 \<le> burst_cnt)) (\<lambda>_.
       Inr (setup_flows_loop nxt cr sr burst_cnt [0..<unat flows_per_sec] [] (fst cr, fst sr, 0)))"

text \<open>
  One round of the loop in \<open>setup_flow_events\<close>: the event is created, move-assigned to the flow (the
  moved-from temporary is destroyed) and scheduled.
\<close>

definition setup_flow_event ::
  "'m gen_env \<Rightarrow> pkt list \<Rightarrow> nat \<Rightarrow> cycles \<Rightarrow> nat \<Rightarrow> cycles \<times> flow list \<times> 'm \<Rightarrow>
   (cycles \<times> flow list \<times> 'm) res" where
  "setup_flow_event env pkts pos tsc_step i st =
     (case st of (flow_tsc, flows, m) \<Rightarrow>
        let fl = flows ! i in
        if length pkts \<le> unat (fl_pkt_idx fl) then Inl Undefined
        else
          let evtm = flow_tsc + rel_tsc (pkts ! unat (fl_pkt_idx fl)) in
          case create_event env m of (h, m1) \<Rightarrow>
          bind_res (assign_event env h (fl_event fl) m1) (\<lambda>(h', ev, m2).
          bind_res (destroy_event env h' m2) (\<lambda>m3.
          bind_res (schedule_event env ev evtm (pos, i) m3) (\<lambda>m4.
            Inr (flow_tsc + tsc_step, flows[i := fl\<lparr>fl_event := ev\<rparr>], m4)))))"

definition flow_tsc_step :: "u64 \<Rightarrow> nat \<Rightarrow> cycles" where
  "flow_tsc_step hz n = from_duration hz (Microseconds (1000000 div of_nat n))"

definition setup_flow_events :: "'m gen_env \<Rightarrow> fgen \<Rightarrow> 'm \<Rightarrow> (fgen \<times> 'm) res" where
  "setup_flow_events env fg m =
     (let n = length (fg_flows fg); tsc_step = flow_tsc_step (timer_hz env) n in
      if n = 0 then Inl Undefined
      else if tsc_step = Cycles 0
      then throw_runtime_error ''Can't work with so many ({}) flows per second'' [dec_string n]
      else bind_res (fold_res (setup_flow_event env (fg_pkts fg) (unat (fg_idx fg)) tsc_step) [0..<n]
                      (Cycles 0, fg_flows fg, m)) (\<lambda>(tsc, flows, m').
             Inr (fg\<lparr>fg_flows := flows\<rparr>, m')))"

text \<open>
  The constructor. When \<open>setup_flow_events\<close> throws, no flow has an event yet, so destroying the
  members only frees the packets.
\<close>

definition fgen_new :: "build \<Rightarrow> 'm gen_env \<Rightarrow> fgen_config \<Rightarrow> 'm \<Rightarrow> fgen res \<times> 'm" where
  "fgen_new bld env cfg m =
     (case load_pkts env cfg m of
        (Inl e, m1) \<Rightarrow> (Inl e, m1)
      | (Inr pkts, m1) \<Rightarrow>
          let cr = hosts env (fgc_cln_ips cfg); sr = hosts env (fgc_srv_ips cfg) in
          case setup_flows bld (next_addr env) cr sr (fgc_fps cfg) (fgc_burst cfg) of
            Inl e \<Rightarrow> (Inl e, m1)
          | Inr (flows, cln, srv, b) \<Rightarrow>
              (case setup_flow_events env
                 \<lparr>fg_pkts = pkts, fg_flows = flows, fg_cln_rng = cr, fg_srv_rng = sr,
                  fg_idx = fgc_idx cfg, fg_cln_it = cln, fg_srv_it = srv, fg_burst_idx = b,
                  fg_burst_cnt = fgc_burst cfg\<rparr> m1 of
                 Inl (Thrown x) \<Rightarrow> (Inl (Thrown x), free_pkts env pkts m1)
               | Inl e \<Rightarrow> (Inl e, m1)
               | Inr (fg, m2) \<Rightarrow> (Inr fg, m2)))"

text \<open>The destructor: the flows with their events first, then the packets.\<close>

definition fgen_destroy :: "'m gen_env \<Rightarrow> fgen \<Rightarrow> 'm \<Rightarrow> 'm res" where
  "fgen_destroy env fg m =
     bind_res (fold_res (\<lambda>fl. destroy_event env (fl_event fl)) (fg_flows fg) m) (\<lambda>m1.
       Inr (free_pkts env (fg_pkts fg) m1))"

subsection \<open>The event of a flow\<close>

text \<open>
  The next packet of the flow; after the last one the flow restarts with the first, with the next
  pair of addresses.
\<close>

definition next_packet :: "(u32 \<Rightarrow> u32) \<Rightarrow> fgen \<Rightarrow> flow \<Rightarrow> fgen \<times> flow" where
  "next_packet nxt fg fl =
     (let k = fl_pkt_idx fl + 1 in
      if unat k = length (fg_pkts fg)
      then (case advance_burst nxt (fg_cln_rng fg) (fg_srv_rng fg) (fg_burst_cnt fg)
                   (fg_cln_it fg, fg_srv_it fg, fg_burst_idx fg) of
              (cln, srv, b) \<Rightarrow>
                (fg\<lparr>fg_cln_it := cln, fg_srv_it := srv, fg_burst_idx := b\<rparr>,
                 fl\<lparr>fl_pkt_idx := 0, fl_cln_ip := fg_cln_it fg, fl_srv_ip := fg_srv_it fg\<rparr>))
      else (fg, fl\<lparr>fl_pkt_idx := k\<rparr>))"

definition count_packet :: "cycles \<Rightarrow> u32 \<Rightarrow> flow \<Rightarrow> flow" where
  "count_packet tstamp len fl =
     (let fl1 = fl\<lparr>fl_cnt_pkts := fl_cnt_pkts fl + 1, fl_cnt_bytes := fl_cnt_bytes fl + ucast len,
                   fl_tstamp_end := tstamp\<rparr> in
      if fl_cnt_pkts fl1 = 1 then fl1\<lparr>fl_tstamp_beg := tstamp\<rparr> else fl1)"

definition flow_report :: "fgen \<Rightarrow> flow \<Rightarrow> pkt \<Rightarrow> cycles \<Rightarrow> bool \<Rightarrow> priv_report" where
  "flow_report fg fl p tstamp ok =
     (let cln = big32 (fl_cln_ip fl); srv = big32 (fl_srv_ip fl) in
      \<lparr>pr_tstamp = tstamp, pr_gen_idx = fg_idx fg, pr_flow_idx = fl_idx fl,
       pr_pkt_idx = fl_pkt_idx fl, pr_pkt_len = pkt_len (pkt_mbuf p),
       pr_src_addr = (if from_cln p then cln else srv),
       pr_dst_addr = (if from_cln p then srv else cln),
       pr_from_cln = from_cln p, pr_ok = ok\<rparr>)"

definition tx_flags :: "'m gen_env \<Rightarrow> u64" where
  "tx_flags env = flag_ipv4 env OR flag_ip_cksum env OR flag_tcp_cksum env OR flag_udp_cksum env"

text \<open>The addresses are at the offsets 12 and 16 of the IPv4 header.\<close>

definition address_packet :: "'m gen_env \<Rightarrow> u8 list \<Rightarrow> u8 list \<Rightarrow> mbuf \<Rightarrow> mbuf res" where
  "address_packet env src dst mb =
     (case read_hdr Ipv4_hdr mb 14 of
        None \<Rightarrow> Inl Undefined
      | Some ih \<Rightarrow>
          let d = poke (ih + 16) dst (poke (ih + 12) src (mb_data mb)) in
          Inr (mb\<lparr>mb_data := d, ol_flags := ol_flags mb OR tx_flags env, l2_len := 14,
                  l3_len := of_nat (hdr_len Ipv4_hdr d ih)\<rparr>))"

definition on_flow_event :: "'m gen_env \<Rightarrow> nat \<Rightarrow> fgen \<Rightarrow> 'm \<Rightarrow> (fgen \<times> 'm) res" where
  "on_flow_event env i fg m =
     (if length (fg_flows fg) \<le> i then Inl Undefined
      else case next_packet (next_addr env) fg (fg_flows fg ! i) of (fg1, fl1) \<Rightarrow>
        if length (fg_pkts fg1) \<le> unat (fl_pkt_idx fl1) then Inl Undefined
        else
          let p = fg_pkts fg1 ! unat (fl_pkt_idx fl1) in
          case current_cycles env m of (tstamp, m1) \<Rightarrow>
          let fl2 = count_packet tstamp (pkt_len (pkt_mbuf p)) fl1;
              fg2 = fg1\<lparr>fg_flows := (fg_flows fg1)[i := fl2]\<rparr>;
              report = flow_report fg2 fl2 p tstamp in
          case copy_pkt env (pkt_mbuf p) m1 of
            (None, m2) \<Rightarrow> Inr (fg2, do_report env (report False) m2)
          | (Some mb, m2) \<Rightarrow>
              bind_res (address_packet env (pr_src_addr (report True)) (pr_dst_addr (report True)) mb)
                (\<lambda>mb'.
                  let m3 = do_report env (report True) (send_pkt env mb' m2) in
                  bind_res (schedule_event env (fl_event fl2) (rel_tsc p) (unat (fg_idx fg2), i) m3)
                    (\<lambda>m4. Inr (fg2, m4))))"

subsection \<open>The rotation of the addresses\<close>

text \<open>
  A range of \<open>n\<close> host addresses: stepping from the first one reaches the end after exactly \<open>n\<close>
  steps. Host \<open>k\<close> of the range, counted cyclically.
\<close>

definition hosts_range :: "(u32 \<Rightarrow> u32) \<Rightarrow> u32 \<times> u32 \<Rightarrow> nat \<Rightarrow> bool" where
  "hosts_range nxt rng n \<longleftrightarrow>
     0 < n \<and> (nxt ^^ n) (fst rng) = snd rng \<and> (\<forall>i. 0 < i \<longrightarrow> i < n \<longrightarrow> (nxt ^^ i) (fst rng) \<noteq> snd rng)"

definition host :: "(u32 \<Rightarrow> u32) \<Rightarrow> u32 \<times> u32 \<Rightarrow> nat \<Rightarrow> nat \<Rightarrow> u32" where
  "host nxt rng n k = (nxt ^^ (k mod n)) (fst rng)"

lemma inc_reset_host:
  assumes "hosts_range nxt rng n"
  shows "snd (inc_reset nxt (host nxt rng n k) (fst rng) (snd rng)) = host nxt rng n (Suc k)"
proof (cases "Suc (k mod n) = n")
  case True
  have "nxt (host nxt rng n k) = (nxt ^^ Suc (k mod n)) (fst rng)" by (simp add: host_def)
  then have "nxt (host nxt rng n k) = snd rng"
    using assms by (simp only: True) (simp add: hosts_range_def)
  then show ?thesis using True by (simp add: inc_reset_def host_def mod_Suc)
next
  case False
  have "k mod n < n" using assms by (simp add: hosts_range_def)
  then have less: "Suc (k mod n) < n" using False by simp
  have "nxt (host nxt rng n k) = (nxt ^^ Suc (k mod n)) (fst rng)" by (simp add: host_def)
  moreover have "(nxt ^^ Suc (k mod n)) (fst rng) \<noteq> snd rng"
    using assms less unfolding hosts_range_def by blast
  ultimately show ?thesis using False by (simp add: inc_reset_def host_def mod_Suc Let_def)
qed

text \<open>
  A network of two addresses has no hosts for asio: the range is empty, its begin is its end. The
  increment happens before the comparison with the end, so such a range is not one of no address
  but of all \<open>2 ^ 32\<close>: the flows leave the network.
\<close>

lemma empty_range_runs_away:
  "hosts_range (\<lambda>a. a + 1) (a, a) (2 ^ 32)" and "host (\<lambda>a. a + 1) (a, a) (2 ^ 32) k = a + of_nat k"
proof -
  have steps: "((\<lambda>a. a + 1) ^^ j) a = a + of_nat j" for j by (induction j) (simp_all add: ac_simps)
  have zero: "(of_nat i :: u32) = 0 \<longleftrightarrow> i mod 2 ^ 32 = 0" for i
    by (simp add: word_unat_eq_iff unat_of_nat)
  show "hosts_range (\<lambda>a. a + 1) (a, a) (2 ^ 32)"
    by (auto simp: hosts_range_def steps zero)
  have "(of_nat (k mod 2 ^ 32) :: u32) = of_nat k" by (simp add: word_unat_eq_iff unat_of_nat)
  then show "host (\<lambda>a. a + 1) (a, a) (2 ^ 32) k = a + of_nat k" by (simp add: host_def steps)
qed

text \<open>The iterators and the burst index when \<open>k\<close> flows have been started.\<close>

definition rotation_at ::
  "(u32 \<Rightarrow> u32) \<Rightarrow> u32 \<times> u32 \<Rightarrow> nat \<Rightarrow> u32 \<times> u32 \<Rightarrow> nat \<Rightarrow> u32 \<Rightarrow> nat \<Rightarrow> u32 \<times> u32 \<times> u32 \<Rightarrow> bool" where
  "rotation_at nxt cr nc sr ns bc k st \<longleftrightarrow>
     (case st of (cln, srv, b) \<Rightarrow>
        cln = host nxt cr nc (k div unat bc) \<and> srv = host nxt sr ns (k div unat bc) \<and>
        unat b = k mod unat bc)"

lemma advance_burst_rotation:
  assumes cr: "hosts_range nxt cr nc" and sr: "hosts_range nxt sr ns" and bc: "1 \<le> bc"
    and at: "rotation_at nxt cr nc sr ns bc k st"
  shows "rotation_at nxt cr nc sr ns bc (Suc k) (advance_burst nxt cr sr bc st)"
proof -
  obtain cln srv b where st: "st = (cln, srv, b)" by (cases st)
  have pos: "0 < unat bc" using bc by (simp add: word_le_nat_alt)
  have b: "unat b = k mod unat bc" "cln = host nxt cr nc (k div unat bc)" "srv = host nxt sr ns (k div unat bc)"
    using at by (simp_all add: rotation_at_def st)
  have "unat b < unat bc" using b(1) pos by simp
  moreover have "unat bc < 2 ^ LENGTH(32)" by (rule unsigned_less)
  ultimately have inc: "unat (b + 1) = Suc (unat b)"
    using unat_add_no_wrap [of b 1] by simp
  have wrap: "b + 1 = bc \<longleftrightarrow> Suc (k mod unat bc) = unat bc"
    using inc b(1) by (metis unsigned_word_eqI)
  show ?thesis
  proof (cases "b + 1 = bc")
    case True
    then have "Suc k div unat bc = Suc (k div unat bc)" "Suc k mod unat bc = 0"
      using wrap by (simp_all add: div_Suc mod_Suc)
    then show ?thesis
      using True inc_reset_host [OF cr, of "k div unat bc"] inc_reset_host [OF sr, of "k div unat bc"]
      by (simp add: rotation_at_def st b advance_burst_def inc_reset_def [of _ b] Let_def)
  next
    case False
    then have "Suc k div unat bc = k div unat bc" "Suc k mod unat bc = Suc (k mod unat bc)"
      using wrap by (simp_all add: div_Suc mod_Suc)
    then show ?thesis
      using False b inc by (simp add: rotation_at_def st advance_burst_def inc_reset_def Let_def)
  qed
qed

lemma setup_flows_loop_rotation:
  assumes cr: "hosts_range nxt cr nc" and sr: "hosts_range nxt sr ns" and bc: "1 \<le> bc"
  shows "rotation_at nxt cr nc sr ns bc j st \<Longrightarrow>
    \<exists>st'. setup_flows_loop nxt cr sr bc [j..<j + n] flows st =
        (flows @ map (\<lambda>i. new_flow i (host nxt cr nc (i div unat bc)) (host nxt sr ns (i div unat bc)))
                   [j..<j + n], st') \<and>
      rotation_at nxt cr nc sr ns bc (j + n) st'"
proof (induction n arbitrary: j flows st)
  case 0
  then show ?case by simp
next
  case (Suc n)
  obtain cln srv b where st: "st = (cln, srv, b)" by (cases st)
  have first: "cln = host nxt cr nc (j div unat bc)" "srv = host nxt sr ns (j div unat bc)"
    using Suc.prems by (simp_all add: rotation_at_def st)
  have "[j..<j + Suc n] = j # [Suc j..<Suc j + n]" by (simp add: upt_conv_Cons del: upt_Suc)
  moreover note Suc.IH [OF advance_burst_rotation [OF cr sr bc Suc.prems], of "flows @ [new_flow j cln srv]"]
  ultimately show ?case by (auto simp: st first simp del: upt_Suc)
qed

lemma setup_flows_rotation:
  assumes cr: "hosts_range nxt cr nc" and sr: "hosts_range nxt sr ns" and bc: "1 \<le> bc"
  obtains st where "setup_flows as_meant nxt cr sr fps bc =
      Inr (map (\<lambda>i. new_flow i (host nxt cr nc (i div unat bc)) (host nxt sr ns (i div unat bc)))
             [0..<unat fps], st)"
    "rotation_at nxt cr nc sr ns bc (unat fps) st"
proof -
  have "rotation_at nxt cr nc sr ns bc 0 (fst cr, fst sr, 0)"
    by (simp add: rotation_at_def host_def)
  from setup_flows_loop_rotation [OF cr sr bc this, of "unat fps" "[]"] show ?thesis
    using bc that by (auto simp: setup_flows_def)
qed

definition fgen_rotation :: "(u32 \<Rightarrow> u32) \<Rightarrow> nat \<Rightarrow> nat \<Rightarrow> nat \<Rightarrow> fgen \<Rightarrow> bool" where
  "fgen_rotation nxt nc ns k fg \<longleftrightarrow>
     hosts_range nxt (fg_cln_rng fg) nc \<and> hosts_range nxt (fg_srv_rng fg) ns \<and> 1 \<le> fg_burst_cnt fg \<and>
     rotation_at nxt (fg_cln_rng fg) nc (fg_srv_rng fg) ns (fg_burst_cnt fg) k
       (fg_cln_it fg, fg_srv_it fg, fg_burst_idx fg)"

text \<open>The pair of addresses of the flow started as number \<open>j\<close>.\<close>

definition pair_of :: "(u32 \<Rightarrow> u32) \<Rightarrow> nat \<Rightarrow> nat \<Rightarrow> fgen \<Rightarrow> nat \<Rightarrow> u32 \<times> u32" where
  "pair_of nxt nc ns fg j =
     (host nxt (fg_cln_rng fg) nc (j div unat (fg_burst_cnt fg)),
      host nxt (fg_srv_rng fg) ns (j div unat (fg_burst_cnt fg)))"

definition flow_pair :: "flow \<Rightarrow> u32 \<times> u32" where
  "flow_pair fl = (fl_cln_ip fl, fl_srv_ip fl)"

definition restarts :: "fgen \<Rightarrow> flow \<Rightarrow> bool" where
  "restarts fg fl \<longleftrightarrow> unat (fl_pkt_idx fl + 1) = length (fg_pkts fg)"

text \<open>What never changes once a generator is constructed.\<close>

definition same_setup :: "fgen \<Rightarrow> fgen \<Rightarrow> bool" where
  "same_setup fg fg' \<longleftrightarrow>
     fg_pkts fg' = fg_pkts fg \<and> length (fg_flows fg') = length (fg_flows fg) \<and>
     fg_cln_rng fg' = fg_cln_rng fg \<and> fg_srv_rng fg' = fg_srv_rng fg \<and> fg_idx fg' = fg_idx fg \<and>
     fg_burst_cnt fg' = fg_burst_cnt fg"

lemma same_setup_pair: "same_setup fg fg' \<Longrightarrow> pair_of nxt nc ns fg' = pair_of nxt nc ns fg"
  by (simp add: same_setup_def pair_of_def fun_eq_iff)

lemma count_packet_fields [simp]:
  "fl_idx (count_packet ts len fl) = fl_idx fl" "fl_pkt_idx (count_packet ts len fl) = fl_pkt_idx fl"
  "fl_event (count_packet ts len fl) = fl_event fl" "flow_pair (count_packet ts len fl) = flow_pair fl"
  "fl_cnt_pkts (count_packet ts len fl) = fl_cnt_pkts fl + 1"
  "fl_cnt_bytes (count_packet ts len fl) = fl_cnt_bytes fl + ucast len"
  by (simp_all add: count_packet_def Let_def flow_pair_def)

lemma next_packet_fields:
  assumes "next_packet nxt fg fl = (fg1, fl1)"
  shows "fg_flows fg1 = fg_flows fg" "same_setup fg fg1" "fl_event fl1 = fl_event fl"
    "fl_idx fl1 = fl_idx fl" "fl_cnt_pkts fl1 = fl_cnt_pkts fl" "fl_cnt_bytes fl1 = fl_cnt_bytes fl"
    "fl_pkt_idx fl1 = (if restarts fg fl then 0 else fl_pkt_idx fl + 1)"
  using assms
  by (auto simp: next_packet_def Let_def same_setup_def restarts_def split: if_splits prod.splits)

lemma next_packet_rotation:
  assumes "next_packet nxt fg fl = (fg1, fl1)" and "fgen_rotation nxt nc ns k fg"
  shows "fgen_rotation nxt nc ns (if restarts fg fl then Suc k else k) fg1"
    and "flow_pair fl1 = (if restarts fg fl then pair_of nxt nc ns fg k else flow_pair fl)"
proof -
  let ?st = "(fg_cln_it fg, fg_srv_it fg, fg_burst_idx fg)"
  have adv: "rotation_at nxt (fg_cln_rng fg) nc (fg_srv_rng fg) ns (fg_burst_cnt fg) (Suc k)
      (advance_burst nxt (fg_cln_rng fg) (fg_srv_rng fg) (fg_burst_cnt fg) ?st)"
    using assms(2) by (intro advance_burst_rotation) (simp_all add: fgen_rotation_def)
  show "fgen_rotation nxt nc ns (if restarts fg fl then Suc k else k) fg1"
    using assms adv
    by (auto simp: next_packet_def Let_def restarts_def fgen_rotation_def split: if_splits prod.splits)
  show "flow_pair fl1 = (if restarts fg fl then pair_of nxt nc ns fg k else flow_pair fl)"
    using assms
    by (auto simp: next_packet_def Let_def restarts_def fgen_rotation_def rotation_at_def flow_pair_def
        pair_of_def split: if_splits prod.splits)
qed

text \<open>\<open>on_flow_event\<close> in terms of the flow, the packet and the report it computes first.\<close>

lemma on_flow_event_eq:
  assumes np: "next_packet (next_addr env) fg (fg_flows fg ! i) = (fg1, fl1)"
    and now: "current_cycles env m = (tstamp, m1)"
    and p: "p = fg_pkts fg ! unat (fl_pkt_idx fl1)"
    and fl2: "fl2 = count_packet tstamp (pkt_len (pkt_mbuf p)) fl1"
    and fg2: "fg2 = fg1\<lparr>fg_flows := (fg_flows fg)[i := fl2]\<rparr>"
    and rep: "rep = flow_report fg2 fl2 p tstamp"
  shows "on_flow_event env i fg m =
    (if length (fg_flows fg) \<le> i \<or> length (fg_pkts fg) \<le> unat (fl_pkt_idx fl1) then Inl Undefined
     else case copy_pkt env (pkt_mbuf p) m1 of
       (None, m2) \<Rightarrow> Inr (fg2, do_report env (rep False) m2)
     | (Some mb, m2) \<Rightarrow>
         bind_res (address_packet env (pr_src_addr (rep True)) (pr_dst_addr (rep True)) mb) (\<lambda>mb'.
           bind_res (schedule_event env (fl_event fl1) (rel_tsc p) (unat (fg_idx fg), i)
               (do_report env (rep True) (send_pkt env mb' m2)))
             (\<lambda>m4. Inr (fg2, m4))))"
proof -
  have same: "fg_flows fg1 = fg_flows fg" "fg_pkts fg1 = fg_pkts fg" "fg_idx fg1 = fg_idx fg"
    using next_packet_fields(1,2) [OF np] by (simp_all add: same_setup_def)
  have "fg_idx fg2 = fg_idx fg" "fl_event fl2 = fl_event fl1" by (simp_all add: fg2 fl2 same)
  then show ?thesis
    by (simp only: on_flow_event_def np now prod.case Let_def same rep flip: p fl2 fg2) simp
qed

lemma on_flow_event_Inr:
  assumes "on_flow_event env i fg m = Inr (fg', m')"
  obtains fg1 fl1 tstamp where "i < length (fg_flows fg)"
    "next_packet (next_addr env) fg (fg_flows fg ! i) = (fg1, fl1)"
    "unat (fl_pkt_idx fl1) < length (fg_pkts fg)"
    "fg' = fg1\<lparr>fg_flows := (fg_flows fg)[i := count_packet tstamp
        (pkt_len (pkt_mbuf (fg_pkts fg ! unat (fl_pkt_idx fl1)))) fl1]\<rparr>"
proof -
  obtain fg1 fl1 where np: "next_packet (next_addr env) fg (fg_flows fg ! i) = (fg1, fl1)" by force
  obtain tstamp m1 where now: "current_cycles env m = (tstamp, m1)" by force
  obtain c m2 where c: "copy_pkt env (pkt_mbuf (fg_pkts fg ! unat (fl_pkt_idx fl1))) m1 = (c, m2)" by force
  note eq = on_flow_event_eq [OF np now refl refl refl refl]
  have ok: "i < length (fg_flows fg)" "unat (fl_pkt_idx fl1) < length (fg_pkts fg)"
    using assms by (auto simp: eq split: if_splits)
  have "fg' = fg1\<lparr>fg_flows := (fg_flows fg)[i := count_packet tstamp
        (pkt_len (pkt_mbuf (fg_pkts fg ! unat (fl_pkt_idx fl1)))) fl1]\<rparr>"
    using assms ok by (cases c) (auto simp: eq c res_simps)
  with ok np show ?thesis by (intro that)
qed

lemma on_flow_event_same_setup:
  assumes "on_flow_event env i fg m = Inr (fg', m')"
  shows "same_setup fg fg'"
proof -
  obtain fg1 fl1 flows where "next_packet (next_addr env) fg (fg_flows fg ! i) = (fg1, fl1)"
    "fg' = fg1\<lparr>fg_flows := (fg_flows fg)[i := flows]\<rparr>"
    using on_flow_event_Inr [OF assms] by metis
  then show ?thesis using next_packet_fields(1,2) by (fastforce simp: same_setup_def)
qed

subsection \<open>The starts of the flows\<close>

text \<open>
  The events of a list of flows, one after the other; the log collects the pair of addresses of
  every flow that restarts.
\<close>

fun run_events ::
  "'m gen_env \<Rightarrow> nat list \<Rightarrow> fgen \<Rightarrow> 'm \<Rightarrow> ((u32 \<times> u32) list \<times> fgen \<times> 'm) res" where
  "run_events env [] fg m = Inr ([], fg, m)"
| "run_events env (i # is) fg m =
     bind_res (on_flow_event env i fg m) (\<lambda>(fg1, m1).
       bind_res (run_events env is fg1 m1) (\<lambda>(log, fg2, m2).
         Inr ((if restarts fg (fg_flows fg ! i) then [flow_pair (fg_flows fg1 ! i)] else []) @ log,
              fg2, m2)))"

lemma on_flow_event_rotation:
  assumes "on_flow_event env i fg m = Inr (fg', m')" and "fgen_rotation (next_addr env) nc ns k fg"
  shows "fgen_rotation (next_addr env) nc ns (if restarts fg (fg_flows fg ! i) then Suc k else k) fg'"
    and "flow_pair (fg_flows fg' ! i) = (if restarts fg (fg_flows fg ! i)
      then pair_of (next_addr env) nc ns fg k else flow_pair (fg_flows fg ! i))"
proof -
  obtain fg1 fl1 ts where i: "i < length (fg_flows fg)"
    and np: "next_packet (next_addr env) fg (fg_flows fg ! i) = (fg1, fl1)"
    and fg': "fg' = fg1\<lparr>fg_flows := (fg_flows fg)[i := count_packet ts
        (pkt_len (pkt_mbuf (fg_pkts fg ! unat (fl_pkt_idx fl1)))) fl1]\<rparr>"
    using on_flow_event_Inr [OF assms(1)] by metis
  note rot = next_packet_rotation [OF np assms(2)]
  show "fgen_rotation (next_addr env) nc ns (if restarts fg (fg_flows fg ! i) then Suc k else k) fg'"
    using rot(1) by (simp add: fg' fgen_rotation_def)
  show "flow_pair (fg_flows fg' ! i) = (if restarts fg (fg_flows fg ! i)
      then pair_of (next_addr env) nc ns fg k else flow_pair (fg_flows fg ! i))"
    using rot(2) i by (simp add: fg')
qed

lemma run_events_rotation:
  "\<lbrakk>run_events env is fg m = Inr (log, fg', m'); fgen_rotation (next_addr env) nc ns k fg\<rbrakk> \<Longrightarrow>
     log = map (pair_of (next_addr env) nc ns fg) [k..<k + length log] \<and>
     fgen_rotation (next_addr env) nc ns (k + length log) fg'"
proof (induction "is" arbitrary: k fg m log)
  case Nil
  then show ?case by simp
next
  case (Cons i "is")
  obtain fg1 m1 log1 where ev: "on_flow_event env i fg m = Inr (fg1, m1)"
    and rest: "run_events env is fg1 m1 = Inr (log1, fg', m')"
    and log: "log = (if restarts fg (fg_flows fg ! i) then [flow_pair (fg_flows fg1 ! i)] else []) @ log1"
    using Cons.prems(1) by (auto simp: res_simps)
  note rot = on_flow_event_rotation [OF ev Cons.prems(2)]
  have same: "pair_of (next_addr env) nc ns fg1 = pair_of (next_addr env) nc ns fg"
    by (rule same_setup_pair [OF on_flow_event_same_setup [OF ev]])
  show ?case
  proof (cases "restarts fg (fg_flows fg ! i)")
    case True
    with Cons.IH [OF rest, of "Suc k"] rot show ?thesis
      by (simp add: log same upt_conv_Cons del: upt_Suc)
  next
    case False
    with Cons.IH [OF rest, of k] rot show ?thesis by (simp add: log same)
  qed
qed

lemma setup_flow_event_pairs:
  assumes "setup_flow_event env pkts pos d i (t, flows, m) = Inr (t', flows', m')"
  shows "map flow_pair flows' = map flow_pair flows"
proof -
  obtain ev where "flows' = flows[i := (flows ! i)\<lparr>fl_event := ev\<rparr>]"
    using assms by (auto simp: setup_flow_event_def Let_def res_simps split: if_splits prod.splits)
  then show ?thesis
    by (cases "i < length flows") (simp_all add: map_update flow_pair_def list_update_beyond
        list_update_same_conv)
qed

lemma setup_flow_events_same:
  assumes "setup_flow_events env fg m = Inr (fg', m')"
  shows "map flow_pair (fg_flows fg') = map flow_pair (fg_flows fg)"
    and "\<exists>flows. fg' = fg\<lparr>fg_flows := flows\<rparr>"
proof -
  define d where "d = flow_tsc_step (timer_hz env) (length (fg_flows fg))"
  obtain t flows where run: "fold_res (setup_flow_event env (fg_pkts fg) (unat (fg_idx fg)) d)
      [0..<length (fg_flows fg)] (Cycles 0, fg_flows fg, m) = Inr (t, flows, m')"
    and fg': "fg' = fg\<lparr>fg_flows := flows\<rparr>"
    using assms
    by (auto simp: setup_flow_events_def Let_def d_def throw_runtime_error_def res_simps split: if_splits)
  have "(\<lambda>(t, flows, m). map flow_pair flows = map flow_pair (fg_flows fg)) (t, flows, m')"
    by (rule fold_res_invariant [OF run]) (auto dest: setup_flow_event_pairs)
  then show "map flow_pair (fg_flows fg') = map flow_pair (fg_flows fg)" by (simp add: fg')
  show "\<exists>flows. fg' = fg\<lparr>fg_flows := flows\<rparr>" using fg' by blast
qed

lemma fgen_new_Inr:
  assumes "fgen_new bld env cfg m = (Inr fg, m')"
  obtains pkts m1 flows cln srv b fg0 where "load_pkts env cfg m = (Inr pkts, m1)"
    "setup_flows bld (next_addr env) (hosts env (fgc_cln_ips cfg)) (hosts env (fgc_srv_ips cfg))
       (fgc_fps cfg) (fgc_burst cfg) = Inr (flows, cln, srv, b)"
    "fg0 = \<lparr>fg_pkts = pkts, fg_flows = flows, fg_cln_rng = hosts env (fgc_cln_ips cfg),
       fg_srv_rng = hosts env (fgc_srv_ips cfg), fg_idx = fgc_idx cfg, fg_cln_it = cln,
       fg_srv_it = srv, fg_burst_idx = b, fg_burst_cnt = fgc_burst cfg\<rparr>"
    "setup_flow_events env fg0 m1 = Inr (fg, m')"
  using assms that
  by (auto simp: fgen_new_def Let_def split: prod.splits sum.splits fault.splits)

text \<open>
  Claim C9. The addresses rotate as specified through the whole life of a generator: listing the
  pairs of the initial flows and then the pair of every flow that restarts, whatever the order of
  the events, the \<open>j\<close>-th flow started gets client and server number \<open>j div burst\<close>, cyclically.
\<close>

theorem flow_starts_rotate:
  assumes "fgen_new as_meant env cfg m = (Inr fg, m1)"
    and "hosts_range (next_addr env) (hosts env (fgc_cln_ips cfg)) nc"
    and "hosts_range (next_addr env) (hosts env (fgc_srv_ips cfg)) ns"
    and "run_events env is fg m1 = Inr (log, fg', m2)"
  shows "map flow_pair (fg_flows fg) @ log =
    map (pair_of (next_addr env) nc ns fg) [0..<unat (fgc_fps cfg) + length log]"
proof -
  obtain pkts m0 flows cln srv b fg0 where
    flows_set: "setup_flows as_meant (next_addr env) (hosts env (fgc_cln_ips cfg))
      (hosts env (fgc_srv_ips cfg)) (fgc_fps cfg) (fgc_burst cfg) = Inr (flows, cln, srv, b)"
    and fg0: "fg0 = \<lparr>fg_pkts = pkts, fg_flows = flows, fg_cln_rng = hosts env (fgc_cln_ips cfg),
       fg_srv_rng = hosts env (fgc_srv_ips cfg), fg_idx = fgc_idx cfg, fg_cln_it = cln,
       fg_srv_it = srv, fg_burst_idx = b, fg_burst_cnt = fgc_burst cfg\<rparr>"
    and ev: "setup_flow_events env fg0 m0 = Inr (fg, m1)"
    using fgen_new_Inr [OF assms(1)] by metis
  have bc: "1 \<le> fgc_burst cfg" using flows_set by (auto simp: setup_flows_def split: if_splits)
  define P where "P = pair_of (next_addr env) nc ns fg0"
  have flows: "flows = map (\<lambda>i. new_flow i (fst (P i)) (snd (P i))) [0..<unat (fgc_fps cfg)]"
    and rot: "rotation_at (next_addr env) (hosts env (fgc_cln_ips cfg)) nc (hosts env (fgc_srv_ips cfg)) ns
      (fgc_burst cfg) (unat (fgc_fps cfg)) (cln, srv, b)"
    using setup_flows_rotation [OF assms(2,3) bc, of "fgc_fps cfg"] flows_set
    by (auto simp: P_def pair_of_def fg0)
  obtain fls where fg: "fg = fg0\<lparr>fg_flows := fls\<rparr>" using setup_flow_events_same(2) [OF ev] by blast
  have "fgen_rotation (next_addr env) nc ns (unat (fgc_fps cfg)) fg"
    using assms(2,3) bc rot by (simp add: fgen_rotation_def fg fg0)
  then have log: "log = map (pair_of (next_addr env) nc ns fg)
      [unat (fgc_fps cfg)..<unat (fgc_fps cfg) + length log]"
    using run_events_rotation [OF assms(4)] by blast
  have P: "pair_of (next_addr env) nc ns fg = P" by (simp add: P_def fg pair_of_def fun_eq_iff)
  have "map flow_pair flows = map P [0..<unat (fgc_fps cfg)]"
    by (simp add: flows flow_pair_def new_flow_def)
  moreover have "fg_flows fg0 = flows" by (simp add: fg0)
  ultimately have first: "map flow_pair (fg_flows fg) =
      map (pair_of (next_addr env) nc ns fg) [0..<unat (fgc_fps cfg)]"
    unfolding P setup_flow_events_same(1) [OF ev] by (simp only:)
  have "map flow_pair (fg_flows fg) @ log = map (pair_of (next_addr env) nc ns fg)
      ([0..<unat (fgc_fps cfg)] @ [unat (fgc_fps cfg)..<unat (fgc_fps cfg) + length log])"
    unfolding map_append by (rule arg_cong2 [of _ _ _ _ "(@)", OF first log])
  then show ?thesis by (simp only: upt_add_eq_append [OF zero_le])
qed

lemma address_packet_ok:
  assumes "34 \<le> length (mb_data mb)"
  shows "\<exists>mb'. address_packet env src dst mb = Inr mb'"
  using assms by (simp add: address_packet_def read_hdr_def data_len_def Let_def)

lemma sample_event:
  assumes "34 \<le> length (mb_data (pkt_mbuf p))" and "fg_pkts fg = [p]" and "i < length (fg_flows fg)"
    and "fl_pkt_idx (fg_flows fg ! i) = 0"
  shows "\<exists>fg' m'. on_flow_event sample_env i fg m = Inr (fg', m') \<and> restarts fg (fg_flows fg ! i)"
proof -
  obtain fg1 fl1 where np: "next_packet (next_addr sample_env) fg (fg_flows fg ! i) = (fg1, fl1)" by force
  have now: "current_cycles sample_env m = (Cycles 7, m)" by (simp add: sample_env_def)
  have re: "restarts fg (fg_flows fg ! i)" using assms(2,4) by (simp add: restarts_def)
  then have "fl_pkt_idx fl1 = 0" using next_packet_fields(7) [OF np] by simp
  moreover have copy: "copy_pkt sample_env b n = (Some b, n + segments b)"
    "schedule_event sample_env h t c n = Inr n" for b n h t c by (simp_all add: sample_env_def)
  ultimately show ?thesis
    using address_packet_ok [OF assms(1), of sample_env] assms(2,3) re
    by (subst on_flow_event_eq [OF np now refl refl refl refl]) (auto simp: copy res_simps)
qed

lemma sample_hosts: "hosts_range (next_addr sample_env) (hosts sample_env n) 2"
proof -
  obtain a l where n: "n = (a, l)" by (cases n)
  have "\<forall>i. 0 < i \<longrightarrow> i < (2 :: nat) \<longrightarrow> i = 1" by auto
  then show ?thesis by (simp add: hosts_range_def sample_env_def n numeral_2_eq_2 less_Suc_eq)
qed

lemma sample_generator:
  obtains fg m1 p where "fgen_new as_meant sample_env sample_fgen_config 0 = (Inr fg, m1)"
    "fg_pkts fg = [p]" "34 \<le> length (mb_data (pkt_mbuf p))" "length (fg_flows fg) = 2"
    "\<forall>i < 2. fl_pkt_idx (fg_flows fg ! i) = 0"
proof -
  obtain p m1 where load: "load_pkts sample_env sample_fgen_config 0 = (Inr [p], m1)"
    by (rule sample_load)
  have p34: "34 \<le> length (mb_data (pkt_mbuf p))"
    using load_pkts_nonempty(2) [OF load sample_addresses, of p] by simp
  have two: "[0..<unat (fgc_fps sample_fgen_config)] = [0, 1]"
    by (simp add: sample_fgen_config_def upt_conv_Cons)
  have env: "create_event sample_env n = (\<lparr>tmr = Some 0, has_scheduler = True\<rparr>, n)"
    "assign_event sample_env h h' n = Inr (handle_empty, h, n)" "destroy_event sample_env h n = Inr n"
    "schedule_event sample_env h t c n = Inr n" "timer_hz sample_env = 1000000000" for n h h' t c
    by (simp_all add: sample_env_def)
  have burst: "1 \<le> fgc_burst sample_fgen_config" by (simp add: sample_fgen_config_def)
  obtain cln1 srv1 cln2 srv2 st where flows: "setup_flows as_meant (next_addr sample_env)
      (hosts sample_env (fgc_cln_ips sample_fgen_config)) (hosts sample_env (fgc_srv_ips sample_fgen_config))
      (fgc_fps sample_fgen_config) (fgc_burst sample_fgen_config) =
      Inr ([new_flow 0 cln1 srv1, new_flow 1 cln2 srv2], st)"
    using setup_flows_rotation [OF sample_hosts sample_hosts burst, of "fgc_cln_ips sample_fgen_config"
        "fgc_srv_ips sample_fgen_config" "fgc_fps sample_fgen_config"]
    unfolding two list.map by metis
  have "\<exists>fg m2. fgen_new as_meant sample_env sample_fgen_config 0 = (Inr fg, m2) \<and>
      fg_pkts fg = [p] \<and> length (fg_flows fg) = 2 \<and> (\<forall>i < 2. fl_pkt_idx (fg_flows fg ! i) = 0)"
    by (cases st)
       (simp add: fgen_new_def load flows setup_flow_events_def flow_tsc_step_def env Let_def
        setup_flow_event_def new_flow_def upt_conv_Cons less_2_cases_iff)
  with p34 show ?thesis by (blast intro: that)
qed

theorem flow_starts_rotate_witness:
  "\<exists>fg m1 log fg' m2. fgen_new as_meant sample_env sample_fgen_config 0 = (Inr fg, m1) \<and>
     run_events sample_env [1] fg m1 = Inr (log, fg', m2) \<and>
     map flow_pair (fg_flows fg) @ log = map (pair_of (next_addr sample_env) 2 2 fg) [0..<3]"
proof -
  obtain fg m1 p where fg: "fgen_new as_meant sample_env sample_fgen_config 0 = (Inr fg, m1)"
    "fg_pkts fg = [p]" "34 \<le> length (mb_data (pkt_mbuf p))" "length (fg_flows fg) = 2"
    "\<forall>i < 2. fl_pkt_idx (fg_flows fg ! i) = 0" by (rule sample_generator)
  obtain fg' m2 where ev: "on_flow_event sample_env 1 fg m1 = Inr (fg', m2)"
    "restarts fg (fg_flows fg ! 1)"
    using sample_event [OF fg(3,2), of 1 m1] fg(4,5) by auto
  then have run: "run_events sample_env [1] fg m1 = Inr ([flow_pair (fg_flows fg' ! 1)], fg', m2)"
    by simp
  have "unat (fgc_fps sample_fgen_config) + length [flow_pair (fg_flows fg' ! 1)] = 3"
    by (simp add: sample_fgen_config_def)
  with flow_starts_rotate [OF fg(1) sample_hosts sample_hosts run] fg(1) run show ?thesis by metis
qed

subsection \<open>Generators over the interface's contract\<close>

text \<open>
  The packets have their headers in the first segment and every flow's position is in the capture;
  every flow owns a timer dedicated to it, and no other timer is dedicated to this generator.
\<close>

definition fgen_ok :: "fgen \<Rightarrow> bool" where
  "fgen_ok fg \<longleftrightarrow>
     (\<forall>p \<in> set (fg_pkts fg). 34 \<le> length (mb_data (pkt_mbuf p))) \<and>
     (\<forall>fl \<in> set (fg_flows fg). unat (fl_pkt_idx fl) < length (fg_pkts fg))"

definition flows_own :: "(timer \<Rightarrow> ctx option) \<Rightarrow> nat \<Rightarrow> flow list \<Rightarrow> bool" where
  "flows_own own pos flows \<longleftrightarrow>
     (\<forall>i < length flows. has_scheduler (fl_event (flows ! i)) \<and>
        (\<exists>t. tmr (fl_event (flows ! i)) = Some t \<and> own t = Some (pos, i))) \<and>
     (\<forall>t i. own t = Some (pos, i) \<longrightarrow> i < length flows \<and> tmr (fl_event (flows ! i)) = Some t)"

lemma flows_ownE:
  assumes "flows_own own pos flows" "i < length flows"
  obtains t where "tmr (fl_event (flows ! i)) = Some t" "own t = Some (pos, i)"
    "has_scheduler (fl_event (flows ! i))"
  using assms unfolding flows_own_def by blast

lemma next_packet_in_range:
  assumes "next_packet nxt fg fl = (fg1, fl1)" and "unat (fl_pkt_idx fl) < length (fg_pkts fg)"
    and "length (fg_pkts fg) < 2 ^ 32"
  shows "unat (fl_pkt_idx fl1) = Suc (unat (fl_pkt_idx fl)) mod length (fg_pkts fg)"
    and "restarts fg fl \<longleftrightarrow> Suc (unat (fl_pkt_idx fl)) = length (fg_pkts fg)"
proof -
  have inc: "unat (fl_pkt_idx fl + 1) = Suc (unat (fl_pkt_idx fl))"
    using unat_add_no_wrap [of "fl_pkt_idx fl" 1] assms(2,3) by simp
  then show re: "restarts fg fl \<longleftrightarrow> Suc (unat (fl_pkt_idx fl)) = length (fg_pkts fg)"
    by (simp add: restarts_def)
  show "unat (fl_pkt_idx fl1) = Suc (unat (fl_pkt_idx fl)) mod length (fg_pkts fg)"
    using next_packet_fields(7) [OF assms(1)] re inc assms(2) by (cases "restarts fg fl") simp_all
qed

lemma next_packet_lt:
  assumes "next_packet nxt fg fl = (fg1, fl1)" and "unat (fl_pkt_idx fl) < length (fg_pkts fg)"
  shows "unat (fl_pkt_idx fl1) < length (fg_pkts fg)"
proof (cases "restarts fg fl \<or> fl_pkt_idx fl + 1 = 0")
  case True
  then show ?thesis using next_packet_fields(7) [OF assms(1)] assms(2) by auto
next
  case False
  then have "unat (fl_pkt_idx fl + 1) = Suc (unat (fl_pkt_idx fl))"
    by (simp add: unatSuc add.commute)
  then show ?thesis
    using False next_packet_fields(7) [OF assms(1)] assms(2) by (simp add: restarts_def)
qed

lemma flows_own_update:
  assumes "fl_event fl = fl_event (flows ! i)"
  shows "flows_own own pos (flows[i := fl]) \<longleftrightarrow> flows_own own pos flows"
proof -
  have "fl_event (flows[i := fl] ! j) = fl_event (flows ! j)" for j
    using assms by (cases "i = j"; cases "i < length flows") (simp_all add: list_update_beyond)
  then show ?thesis by (simp add: flows_own_def)
qed

lemma setup_flows_loop_shape:
  "setup_flows_loop nxt cr sr bc js flows st = (flows', st') \<Longrightarrow>
     length flows' = length flows + length js \<and>
     (\<forall>i < length flows'. length flows \<le> i \<longrightarrow>
        fl_event (flows' ! i) = handle_empty \<and> fl_pkt_idx (flows' ! i) = 0) \<and>
     take (length flows) flows' = flows"
proof (induction js arbitrary: flows st)
  case Nil
  then show ?case by auto
next
  case (Cons j js)
  obtain cln srv b where st: "st = (cln, srv, b)" by (cases st)
  let ?one = "flows @ [new_flow j cln srv]"
  have ih: "length flows' = length ?one + length js"
    "\<forall>i < length flows'. length ?one \<le> i \<longrightarrow>
        fl_event (flows' ! i) = handle_empty \<and> fl_pkt_idx (flows' ! i) = 0"
    "take (length ?one) flows' = ?one"
    using Cons.IH [of ?one "advance_burst nxt cr sr bc st"] Cons.prems by (simp_all add: st)
  have new: "flows' ! length flows = new_flow j cln srv"
    using ih(3) by (metis length_append_singleton lessI nth_append_length nth_take)
  have "take (length flows) (take (length ?one) flows') = flows" by (simp only: ih(3)) simp
  then have "take (length flows) flows' = flows" by (simp add: min_def)
  moreover have "fl_event (flows' ! i) = handle_empty \<and> fl_pkt_idx (flows' ! i) = 0"
    if "i < length flows'" "length flows \<le> i" for i
    using ih(2) that new by (cases "i = length flows") (auto simp: new_flow_def)
  ultimately show ?case using ih(1) by simp
qed

lemma setup_flows_shape:
  assumes "setup_flows bld nxt cr sr fps bc = Inr (flows, st)"
  shows "length flows = unat fps"
    and "i < length flows \<Longrightarrow> fl_event (flows ! i) = handle_empty \<and> fl_pkt_idx (flows ! i) = 0"
  using assms setup_flows_loop_shape [of nxt cr sr bc "[0..<unat fps]" "[]" _ flows st]
  by (auto simp: setup_flows_def res_simps)

context generation_ops
begin

lemma on_flow_event_ok:
  assumes m: "inv own m" and ok: "fgen_ok fg" and owned: "flows_own own (unat (fg_idx fg)) (fg_flows fg)"
    and i: "i < length (fg_flows fg)"
    and idle: "\<And>t. tmr (fl_event (fg_flows fg ! i)) = Some t \<Longrightarrow> t \<notin> busy m"
  shows "\<exists>fg' m'. on_flow_event env i fg m = Inr (fg', m') \<and> inv own m' \<and> busy m' = busy m \<and>
    fgen_ok fg' \<and> same_setup fg fg' \<and> flows_own own (unat (fg_idx fg')) (fg_flows fg')"
proof -
  obtain fg1 fl1 where np: "next_packet (next_addr env) fg (fg_flows fg ! i) = (fg1, fl1)" by force
  obtain ts m1 where now: "current_cycles env m = (ts, m1)" by force
  define p where "p = fg_pkts fg ! unat (fl_pkt_idx fl1)"
  define fl2 where "fl2 = count_packet ts (pkt_len (pkt_mbuf p)) fl1"
  define fg2 where "fg2 = fg1\<lparr>fg_flows := (fg_flows fg)[i := fl2]\<rparr>"
  define rep where "rep = flow_report fg2 fl2 p ts"
  obtain c m2 where c: "copy_pkt env (pkt_mbuf p) m1 = (c, m2)" by force
  note eq = on_flow_event_eq [OF np now p_def fl2_def fg2_def rep_def, unfolded c]
  have "unat (fl_pkt_idx (fg_flows fg ! i)) < length (fg_pkts fg)"
    using ok i by (simp add: fgen_ok_def)
  then have idx: "unat (fl_pkt_idx fl1) < length (fg_pkts fg)" by (rule next_packet_lt [OF np])
  have m1: "inv own m1" "busy m1 = busy m" using now_law [OF m now] by auto
  have m2: "inv own m2" "busy m2 = busy m" using copy_law [OF m1(1) c] m1(2) by auto
  have same: "same_setup fg fg2"
    using next_packet_fields(1,2) [OF np] by (simp add: fg2_def same_setup_def)
  have ev: "fl_event fl2 = fl_event (fg_flows fg ! i)"
    by (simp add: fl2_def next_packet_fields(3) [OF np])
  have owned2: "flows_own own (unat (fg_idx fg2)) (fg_flows fg2)"
    using owned flows_own_update [OF ev] same by (simp add: fg2_def same_setup_def)
  have "set (fg_flows fg2) \<subseteq> insert fl2 (set (fg_flows fg))"
    by (simp add: fg2_def set_update_subset_insert)
  moreover have "fl_pkt_idx fl2 = fl_pkt_idx fl1" by (simp add: fl2_def)
  ultimately have ok2: "fgen_ok fg2"
    using ok same idx by (auto simp: fgen_ok_def same_setup_def)
  show ?thesis
  proof (cases c)
    case None
    have "inv own (do_report env (rep False) m2)" "busy (do_report env (rep False) m2) = busy m"
      using report_law [OF m2(1)] m2(2) by auto
    with ok2 same owned2 i idx show ?thesis by (simp add: eq None)
  next
    case (Some mb)
    have "pkt_mbuf p \<in> pkt_mbuf ` set (fg_pkts fg)" using idx by (simp add: p_def)
    then have "34 \<le> length (mb_data (pkt_mbuf p))" using ok by (auto simp: fgen_ok_def)
    then have "34 \<le> length (mb_data mb)" using copy_law [OF m1(1) c] Some by simp
    then obtain mb' where mb': "address_packet env (pr_src_addr (rep True)) (pr_dst_addr (rep True)) mb = Inr mb'"
      using address_packet_ok by blast
    define m3 where "m3 = do_report env (rep True) (send_pkt env mb' m2)"
    have m3: "inv own m3" "busy m3 = busy m"
      using send_law [OF m2(1), of mb'] report_law [of own "send_pkt env mb' m2"] m2(2)
      by (simp_all add: m3_def)
    obtain t where t: "tmr (fl_event (fg_flows fg ! i)) = Some t" "own t = Some (unat (fg_idx fg), i)"
      "has_scheduler (fl_event (fg_flows fg ! i))" by (rule flows_ownE [OF owned i])
    have "t \<notin> busy m3" using idle [OF t(1)] m3(2) by simp
    from schedule_law [OF m3(1) t(1,3,2) this, of "rel_tsc p"] obtain m4 where
      "schedule_event env (fl_event (fg_flows fg ! i)) (rel_tsc p) (unat (fg_idx fg), i) m3 = Inr m4"
      "inv own m4" "busy m4 = busy m" using m3(2) by auto
    with ok2 same owned2 i idx show ?thesis
      by (simp add: eq Some mb' next_packet_fields(3) [OF np] flip: m3_def)
  qed
qed

end

context setup_ops
begin

text \<open>
  Setting up the events: after \<open>j\<close> rounds exactly the first \<open>j\<close> flows own a timer, the others have
  none yet, and nothing changed for other generators.
\<close>

lemma setup_flow_events_loop:
  assumes pkts: "pkts \<noteq> []"
  shows "\<lbrakk>inv own m; busy m = {}; j \<le> length flows;
      \<forall>i < length flows. fl_pkt_idx (flows ! i) = 0;
      \<forall>i < length flows. j \<le> i \<longrightarrow> tmr (fl_event (flows ! i)) = None;
      flows_own own pos (take j flows)\<rbrakk> \<Longrightarrow>
    \<exists>ts flows' m' own'. fold_res (setup_flow_event env pkts pos d) [j..<length flows] (tsc, flows, m) =
        Inr (ts, flows', m') \<and> inv own' m' \<and> busy m' = {} \<and> flows_own own' pos flows' \<and>
      length flows' = length flows \<and> (\<forall>i < length flows'. fl_pkt_idx (flows' ! i) = 0) \<and>
      (\<forall>t c. fst c \<noteq> pos \<longrightarrow> (own' t = Some c \<longleftrightarrow> own t = Some c))"
proof (induction "length flows - j" arbitrary: j own m tsc flows)
  case 0
  then show ?case by auto
next
  case (Suc n)
  then have j: "j < length flows" by simp
  obtain t m1 where t: "create_event env m = (\<lparr>tmr = Some t, has_scheduler = True\<rparr>, m1)"
    "t \<notin> dom own" "inv (own(t \<mapsto> (pos, j))) m1" "busy m1 = {}"
    using create_law [OF Suc.prems(1)] Suc.prems(2) by metis
  define h where "h = \<lparr>tmr = Some t, has_scheduler = True\<rparr>"
  define own1 where "own1 = own(t \<mapsto> (pos, j))"
  have m1: "inv own1 m1" using t(3) by (simp add: own1_def)
  have empty: "tmr (fl_event (flows ! j)) = None" using Suc.prems(5) j by simp
  have assign: "assign_event env h (fl_event (flows ! j)) m1 = Inr (handle_empty, h, m1)"
    by (rule assign_law [OF m1 empty])
  have destroy: "destroy_event env handle_empty m1 = Inr m1"
    by (rule destroy_empty_law [OF m1]) (simp add: handle_empty_def)
  define evtm where "evtm = tsc + rel_tsc (pkts ! 0)"
  obtain m2 where m2: "schedule_event env h evtm (pos, j) m1 = Inr m2" "inv own1 m2" "busy m2 = {}"
    using schedule_law [OF m1, of h t "(pos, j)" evtm] t(4) by (auto simp: h_def own1_def)
  define flows1 where "flows1 = flows[j := (flows ! j)\<lparr>fl_event := h\<rparr>]"
  have len: "length flows1 = length flows" by (simp add: flows1_def)
  have step: "setup_flow_event env pkts pos d j (tsc, flows, m) = Inr (tsc + d, flows1, m2)"
    using Suc.prems(4) j pkts t(1) assign destroy m2(1)
    by (simp add: setup_flow_event_def Let_def flows1_def flip: h_def evtm_def)
  have idx: "\<forall>i < length flows1. fl_pkt_idx (flows1 ! i) = 0"
    using Suc.prems(4) j by (auto simp: flows1_def nth_list_update)
  have rest: "\<forall>i < length flows1. Suc j \<le> i \<longrightarrow> tmr (fl_event (flows1 ! i)) = None"
    using Suc.prems(5) j by (auto simp: flows1_def nth_list_update)
  have here: "flows1 ! j = (flows ! j)\<lparr>fl_event := h\<rparr>" using j by (simp add: flows1_def)
  have before: "flows1 ! i = flows ! i" if "i < j" for i using that by (simp add: flows1_def)
  have "flows_own own1 pos (take (Suc j) flows1)"
  proof -
    have lens: "length (take (Suc j) flows1) = Suc j" "length (take j flows) = j"
      using j by (simp_all add: len)
    have fresh: "own u = Some c \<Longrightarrow> u \<noteq> t" for u c using t(2) by auto
    have left: "has_scheduler (fl_event (take (Suc j) flows1 ! i)) \<and>
        (\<exists>u. tmr (fl_event (take (Suc j) flows1 ! i)) = Some u \<and> own1 u = Some (pos, i))"
      if "i < Suc j" for i
    proof (cases "i = j")
      case True
      then show ?thesis by (simp add: here h_def own1_def)
    next
      case False
      then have ij: "i < length (take j flows)" using that lens by simp
      from flows_ownE [OF Suc.prems(6) this] obtain u where
        "tmr (fl_event (take j flows ! i)) = Some u" "own u = Some (pos, i)"
        "has_scheduler (fl_event (take j flows ! i))" .
      then show ?thesis using False that fresh by (auto simp: before own1_def)
    qed
    have right: "i < Suc j \<and> tmr (fl_event (take (Suc j) flows1 ! i)) = Some u"
      if "own1 u = Some (pos, i)" for u i
    proof (cases "u = t")
      case True
      then have "i = j" using that by (simp add: own1_def)
      with True show ?thesis by (simp add: here h_def)
    next
      case False
      then have "own u = Some (pos, i)" using that by (simp add: own1_def)
      then have "i < length (take j flows)" "tmr (fl_event (take j flows ! i)) = Some u"
        using Suc.prems(6) unfolding flows_own_def by blast+
      then show ?thesis using lens by (simp add: before)
    qed
    show ?thesis unfolding flows_own_def lens using left right by blast
  qed
  moreover have "n = length flows1 - Suc j" "Suc j \<le> length flows1"
    using Suc.hyps(2) j len by simp_all
  ultimately obtain ts flows' m' own' where ih:
    "fold_res (setup_flow_event env pkts pos d) [Suc j..<length flows1] (tsc + d, flows1, m2) =
        Inr (ts, flows', m')" "inv own' m'" "busy m' = {}" "flows_own own' pos flows'"
    "length flows' = length flows1" "\<forall>i < length flows'. fl_pkt_idx (flows' ! i) = 0"
    "\<forall>t c. fst c \<noteq> pos \<longrightarrow> (own' t = Some c \<longleftrightarrow> own1 t = Some c)"
    using Suc.hyps(1) [OF _ m2(2,3) _ idx rest, of "tsc + d"] by blast
  have "\<forall>u c. fst c \<noteq> pos \<longrightarrow> (own' u = Some c \<longleftrightarrow> own u = Some c)"
    using ih(7) t(2) by (auto simp: own1_def)
  moreover have "[j..<length flows] = j # [Suc j..<length flows]" using j by (rule upt_conv_Cons)
  ultimately show ?case
    using ih(1-6) by (intro exI [of _ ts] exI [of _ flows'] exI [of _ m'] exI [of _ own'])
      (simp add: step len del: upt_Suc)
qed

lemma pool_keeps_inv: "pool_keeps (alloc_mbuf env) (free_mbuf env) (\<lambda>m. inv own m \<and> busy m = {})"
  unfolding pool_keeps_def
  using alloc_law free_law by (metis prod.collapse)

text \<open>Constructing a generator either succeeds or throws; a throw leaves no timer and no ownership.\<close>

lemma fgen_new_ok:
  assumes m: "inv own m" "busy m = {}"
    and cfg: "length (fgc_cln_ether cfg) = 6" "length (fgc_srv_ether cfg) = 6" "1 \<le> fgc_burst cfg"
      "1 \<le> fgc_fps cfg"
    and fresh: "\<And>t i. own t \<noteq> Some (unat (fgc_idx cfg), i)"
    and new: "fgen_new as_meant env cfg m = (r, m')"
  shows "(\<exists>x. r = Inl (Thrown x) \<and> inv own m' \<and> busy m' = {}) \<or>
    (\<exists>fg own'. r = Inr fg \<and> inv own' m' \<and> busy m' = {} \<and> fgen_ok fg \<and> fg_idx fg = fgc_idx cfg \<and>
       length (fg_flows fg) = unat (fgc_fps cfg) \<and>
       flows_own own' (unat (fgc_idx cfg)) (fg_flows fg) \<and>
       (\<forall>t c. fst c \<noteq> unat (fgc_idx cfg) \<longrightarrow> (own' t = Some c \<longleftrightarrow> own t = Some c)))"
proof -
  obtain r1 m1 where load: "load_pkts env cfg m = (r1, m1)" by force
  have m1: "inv own m1" "busy m1 = {}"
    using load_pkts_keeps [OF pool_keeps_inv load] m by blast+
  show ?thesis
  proof (cases r1)
    case (Inl e)
    then have e: "r = Inl e" "m' = m1" using new by (simp_all add: fgen_new_def load)
    have "\<exists>x. e = Thrown x" using load_pkts_thrown [OF load [unfolded Inl]] .
    with e m1 show ?thesis by blast
  next
    case (Inr pkts)
    note ne = load_pkts_nonempty [OF load [unfolded Inr] cfg(1,2)]
    define cr sr where "cr = hosts env (fgc_cln_ips cfg)" and "sr = hosts env (fgc_srv_ips cfg)"
    obtain flows cln srv b where flows: "setup_flows as_meant (next_addr env) cr sr (fgc_fps cfg)
        (fgc_burst cfg) = Inr (flows, cln, srv, b)"
      using cfg(3) by (simp add: setup_flows_def) (metis prod_cases4)
    note shape = setup_flows_shape [OF flows]
    have n: "length flows \<noteq> 0" using cfg(4) shape(1) by (auto simp: word_le_nat_alt)
    define fg0 where "fg0 = \<lparr>fg_pkts = pkts, fg_flows = flows, fg_cln_rng = cr, fg_srv_rng = sr,
        fg_idx = fgc_idx cfg, fg_cln_it = cln, fg_srv_it = srv, fg_burst_idx = b,
        fg_burst_cnt = fgc_burst cfg\<rparr>"
    have eq: "fgen_new as_meant env cfg m =
        (case setup_flow_events env fg0 m1 of
           Inl (Thrown x) \<Rightarrow> (Inl (Thrown x), free_pkts env pkts m1)
         | Inl e \<Rightarrow> (Inl e, m1)
         | Inr (fg, m2) \<Rightarrow> (Inr fg, m2))"
      by (simp add: fgen_new_def load Inr flows fg0_def flip: cr_def sr_def)
    define d where "d = flow_tsc_step (timer_hz env) (length flows)"
    show ?thesis
    proof (cases "d = Cycles 0")
      case True
      then have "setup_flow_events env fg0 m1 = Inl (Thrown (Runtime_error
          ''Can't work with so many ({}) flows per second'' [dec_string (length flows)]))"
        using n by (simp add: setup_flow_events_def fg0_def d_def throw_runtime_error_def)
      then have "r = Inl (Thrown (Runtime_error
          ''Can't work with so many ({}) flows per second'' [dec_string (length flows)]))"
        "m' = free_pkts env pkts m1" using new eq by simp_all
      then show ?thesis using free_pkts_keeps [OF pool_keeps_inv, of own m1 pkts] m1 by blast
    next
      case False
      have owned: "flows_own own (unat (fgc_idx cfg)) (take 0 flows)"
        using fresh by (simp add: flows_own_def)
      have idx0: "\<forall>i < length flows. fl_pkt_idx (flows ! i) = 0"
        and none: "\<forall>i < length flows. 0 \<le> i \<longrightarrow> tmr (fl_event (flows ! i)) = None"
        using shape(2) by (simp_all add: handle_empty_def)
      obtain ts flows' m2 own' where loop:
        "fold_res (setup_flow_event env pkts (unat (fgc_idx cfg)) d) [0..<length flows]
           (Cycles 0, flows, m1) = Inr (ts, flows', m2)"
        "inv own' m2" "busy m2 = {}" "flows_own own' (unat (fgc_idx cfg)) flows'"
        "length flows' = length flows" "\<forall>i < length flows'. fl_pkt_idx (flows' ! i) = 0"
        "\<forall>t c. fst c \<noteq> unat (fgc_idx cfg) \<longrightarrow> (own' t = Some c \<longleftrightarrow> own t = Some c)"
        using setup_flow_events_loop [OF ne(1) m1 le0 idx0 none owned, of d "Cycles 0"] by blast
      have ev: "setup_flow_events env fg0 m1 = Inr (fg0\<lparr>fg_flows := flows'\<rparr>, m2)"
        using n False loop(1)
        by (simp add: setup_flow_events_def fg0_def Let_def flip: d_def)
      have "fgen_ok (fg0\<lparr>fg_flows := flows'\<rparr>)"
        using ne loop(6) by (auto simp: fgen_ok_def fg0_def in_set_conv_nth)
      moreover have "r = Inr (fg0\<lparr>fg_flows := flows'\<rparr>)" "m' = m2" using new eq ev by simp_all
      ultimately show ?thesis using loop shape(1) by (auto simp: fg0_def)
    qed
  qed
qed

text \<open>
  Destroying the generator at position \<open>pos\<close> returns all its timers and no other: \<open>j\<close> flows are
  gone already.
\<close>

definition drop_flows :: "(timer \<Rightarrow> ctx option) \<Rightarrow> nat \<Rightarrow> nat \<Rightarrow> timer \<Rightarrow> ctx option" where
  "drop_flows own pos j t =
     (case own t of None \<Rightarrow> None | Some c \<Rightarrow> if fst c = pos \<and> snd c < j then None else Some c)"

lemma destroy_flows_loop:
  assumes owned: "flows_own own pos flows"
  shows "\<lbrakk>inv (drop_flows own pos j) m; busy m = {}; j \<le> length flows\<rbrakk> \<Longrightarrow>
    \<exists>m'. fold_res (\<lambda>fl. destroy_event env (fl_event fl)) (drop j flows) m = Inr m' \<and>
      inv (drop_flows own pos (length flows)) m' \<and> busy m' = {}"
proof (induction "length flows - j" arbitrary: j m)
  case 0
  then show ?case by auto
next
  case (Suc n)
  then have j: "j < length flows" by simp
  obtain t where t: "tmr (fl_event (flows ! j)) = Some t" "own t = Some (pos, j)"
    "has_scheduler (fl_event (flows ! j))" by (rule flows_ownE [OF owned j])
  have "t \<in> dom (drop_flows own pos j)" "t \<notin> busy m"
    using t(2) Suc.prems(2) by (auto simp: drop_flows_def)
  from destroy_law [OF Suc.prems(1) t(1,3) this] obtain m1 where m1:
    "destroy_event env (fl_event (flows ! j)) m = Inr m1" "inv ((drop_flows own pos j)(t := None)) m1"
    "busy m1 = {}" using Suc.prems(2) by auto
  have only: "u = t" if "own u = Some (pos, j)" for u
    using owned that t(1) unfolding flows_own_def by fastforce
  have "(drop_flows own pos j)(t := None) = drop_flows own pos (Suc j)"
  proof
    fix u
    show "((drop_flows own pos j)(t := None)) u = drop_flows own pos (Suc j) u"
      using only [of u] t(2) by (cases "own u") (auto simp: drop_flows_def less_Suc_eq)
  qed
  then have "inv (drop_flows own pos (Suc j)) m1" using m1(2) by simp
  moreover have "n = length flows - Suc j" "Suc j \<le> length flows" using Suc.hyps(2) j by simp_all
  ultimately obtain m' where "fold_res (\<lambda>fl. destroy_event env (fl_event fl)) (drop (Suc j) flows) m1 = Inr m'"
    "inv (drop_flows own pos (length flows)) m'" "busy m' = {}"
    using Suc.hyps(1) [OF _ _ m1(3)] by blast
  moreover have "drop j flows = flows ! j # drop (Suc j) flows"
    by (rule Cons_nth_drop_Suc [OF j, symmetric])
  ultimately show ?case using m1(1) by simp
qed

lemma fgen_destroy_ok:
  assumes "inv own m" "busy m = {}" and owned: "flows_own own pos (fg_flows fg)"
  shows "\<exists>m'. fgen_destroy env fg m = Inr m' \<and> busy m' = {} \<and>
    inv (\<lambda>t. case own t of None \<Rightarrow> None | Some c \<Rightarrow> if fst c = pos then None else Some c) m'"
proof -
  have "drop_flows own pos 0 = own" by (rule ext) (simp add: drop_flows_def split: option.split)
  then obtain m1 where m1: "fold_res (\<lambda>fl. destroy_event env (fl_event fl)) (fg_flows fg) m = Inr m1"
    "inv (drop_flows own pos (length (fg_flows fg))) m1" "busy m1 = {}"
    using destroy_flows_loop [OF owned, of 0 m] assms(1,2) by auto
  have "drop_flows own pos (length (fg_flows fg)) =
      (\<lambda>t. case own t of None \<Rightarrow> None | Some c \<Rightarrow> if fst c = pos then None else Some c)"
  proof
    fix t
    show "drop_flows own pos (length (fg_flows fg)) t =
        (case own t of None \<Rightarrow> None | Some c \<Rightarrow> if fst c = pos then None else Some c)"
      using owned by (cases "own t") (auto simp: drop_flows_def flows_own_def)
  qed
  with m1 have "inv (\<lambda>t. case own t of None \<Rightarrow> None | Some c \<Rightarrow> if fst c = pos then None else Some c) m1"
    by simp
  then show ?thesis
    using m1(1,3) free_pkts_keeps [OF pool_keeps_inv, of _ m1 "fg_pkts fg"]
    by (simp add: fgen_destroy_def)
qed

end

subsection \<open>What a flow sends\<close>

text \<open>
  The packet a flow sends is the copy with the flow's addresses in its IPv4 header, in the
  direction of the captured packet, and with the offload fields set; no other byte differs.
\<close>

lemma address_packet_exact:
  assumes "34 \<le> length (mb_data mb)"
  shows "\<exists>mb'. address_packet env (big32 src) (big32 dst) mb = Inr mb' \<and>
    get_big32 (mb_data mb') 26 = src \<and> get_big32 (mb_data mb') 30 = dst \<and>
    length (mb_data mb') = length (mb_data mb) \<and>
    (\<forall>i < length (mb_data mb). i < 26 \<or> 34 \<le> i \<longrightarrow> mb_data mb' ! i = mb_data mb ! i) \<and>
    mb_next mb' = mb_next mb \<and> pkt_len mb' = pkt_len mb \<and>
    l2_len mb' = 14 \<and> unat (l3_len mb') = hdr_len Ipv4_hdr (mb_data mb) 14 \<and>
    ol_flags mb' = ol_flags mb OR tx_flags env"
proof -
  define d where "d = poke 30 (big32 dst) (poke 26 (big32 src) (mb_data mb))"
  have "read_hdr Ipv4_hdr mb 14 = Some 14" using assms by (simp add: read_hdr_Some data_len_def)
  then have eq: "address_packet env (big32 src) (big32 dst) mb = Inr (mb\<lparr>mb_data := d,
      ol_flags := ol_flags mb OR tx_flags env, l2_len := 14, l3_len := of_nat (hdr_len Ipv4_hdr d 14)\<rparr>)"
    by (simp add: address_packet_def d_def Let_def del: hdr_len.simps)
  have "get_big32 d 30 = dst" unfolding d_def by (rule get_big32_poke) (use assms in simp)
  moreover have "get_big32 d 26 = get_big32 (poke 26 (big32 src) (mb_data mb)) 26"
    unfolding d_def by (rule get_big32_poke_other) (use assms in simp_all)
  moreover have "get_big32 (poke 26 (big32 src) (mb_data mb)) 26 = src"
    by (rule get_big32_poke) (use assms in simp)
  moreover have "length d = length (mb_data mb)" using assms by (simp add: d_def)
  moreover have same: "d ! i = mb_data mb ! i" if "i < length (mb_data mb)" "i < 26 \<or> 34 \<le> i" for i
    using that assms by (auto simp: d_def poke_nth)
  moreover have "hdr_len Ipv4_hdr d 14 = hdr_len Ipv4_hdr (mb_data mb) 14"
    using same [of 14] assms by simp
  moreover have "unat (of_nat (hdr_len Ipv4_hdr d 14) :: u16) = hdr_len Ipv4_hdr d 14"
    by (rule unat_of_nat_less) (use hdr_len_le_60 [of Ipv4_hdr d 14] in simp)
  ultimately show ?thesis unfolding eq by (simp del: hdr_len.simps)
qed

lemma address_packet_exact_witness:
  "\<exists>mb'. address_packet sample_env (big32 0x10000001) (big32 0x30000001)
      ((fresh_mbuf 100)\<lparr>mb_data := sample_frame\<rparr>) = Inr mb' \<and>
    get_big32 (mb_data mb') 26 = 0x10000001 \<and> get_big32 (mb_data mb') 30 = 0x30000001"
proof -
  have "34 \<le> length (mb_data ((fresh_mbuf 100)\<lparr>mb_data := sample_frame\<rparr>))"
    by (simp add: sample_frame_def)
  from address_packet_exact [OF this] show ?thesis by blast
qed

fun flow_events :: "'m gen_env \<Rightarrow> nat \<Rightarrow> nat \<Rightarrow> fgen \<Rightarrow> 'm \<Rightarrow> (fgen \<times> 'm) res" where
  "flow_events env i 0 fg m = Inr (fg, m)"
| "flow_events env i (Suc k) fg m =
     bind_res (on_flow_event env i fg m) (\<lambda>(fg1, m1). flow_events env i k fg1 m1)"

text \<open>The length of packet \<open>j\<close> of the capture, counted cyclically.\<close>

definition cyclic_len :: "fgen \<Rightarrow> nat \<Rightarrow> u64" where
  "cyclic_len fg j = ucast (pkt_len (pkt_mbuf (fg_pkts fg ! (j mod length (fg_pkts fg)))))"



text \<open>
  Claim C36. When the packet cannot be copied the flow is not scheduled again: what happens does not
  depend on the scheduling function at all, so the flow never sends anything more, although its
  counters say that the packet was sent.
\<close>

theorem failed_copy_stops_flow:
  assumes "i < length (fg_flows fg)" and "\<And>b m. fst (copy_pkt env b m) = None"
    and "unat (fl_pkt_idx (fg_flows fg ! i)) < length (fg_pkts fg)"
  shows "\<exists>fg' rep m2. pr_ok rep = False \<and>
    fl_cnt_pkts (fg_flows fg' ! i) = fl_cnt_pkts (fg_flows fg ! i) + 1 \<and>
    (\<forall>sched. on_flow_event (env\<lparr>schedule_event := sched\<rparr>) i fg m = Inr (fg', do_report env rep m2))"
proof -
  obtain fg1 fl1 where np: "next_packet (next_addr env) fg (fg_flows fg ! i) = (fg1, fl1)" by force
  obtain ts m1 where now: "current_cycles env m = (ts, m1)" by force
  define p where "p = fg_pkts fg ! unat (fl_pkt_idx fl1)"
  define fl2 where "fl2 = count_packet ts (pkt_len (pkt_mbuf p)) fl1"
  define fg2 where "fg2 = fg1\<lparr>fg_flows := (fg_flows fg)[i := fl2]\<rparr>"
  obtain m2 where m2: "copy_pkt env (pkt_mbuf p) m1 = (None, m2)"
    using assms(2) [of "pkt_mbuf p" m1] by (cases "copy_pkt env (pkt_mbuf p) m1") auto
  have idx: "unat (fl_pkt_idx fl1) < length (fg_pkts fg)" by (rule next_packet_lt [OF np assms(3)])
  have "on_flow_event (env\<lparr>schedule_event := sched\<rparr>) i fg m =
      Inr (fg2, do_report env (flow_report fg2 fl2 p ts False) m2)" for sched
  proof -
    let ?env = "env\<lparr>schedule_event := sched\<rparr>"
    have np': "next_packet (next_addr ?env) fg (fg_flows fg ! i) = (fg1, fl1)" using np by simp
    have now': "current_cycles ?env m = (ts, m1)" using now by simp
    show ?thesis
      using on_flow_event_eq [OF np' now' p_def fl2_def fg2_def refl] assms(1) idx by (simp add: m2)
  qed
  moreover have "fl_cnt_pkts (fg_flows fg2 ! i) = fl_cnt_pkts (fg_flows fg ! i) + 1"
    using assms(1) by (simp add: fg2_def fl2_def next_packet_fields(5) [OF np])
  moreover have "pr_ok (flow_report fg2 fl2 p ts False) = False" by (simp add: flow_report_def Let_def)
  ultimately show ?thesis by blast
qed

theorem failed_copy_stops_flow_witness:
  "\<exists>fg fg' rep m2. \<forall>sched. on_flow_event (sample_env\<lparr>copy_pkt := \<lambda>b m. (None, m), schedule_event := sched\<rparr>)
     0 fg 5 = Inr (fg', do_report sample_env rep m2)"
proof -
  obtain fg m1 p where fg: "fgen_new as_meant sample_env sample_fgen_config 0 = (Inr fg, m1)"
    "fg_pkts fg = [p]" "34 \<le> length (mb_data (pkt_mbuf p))" "length (fg_flows fg) = 2"
    "\<forall>i < 2. fl_pkt_idx (fg_flows fg ! i) = 0" by (rule sample_generator)
  define env where "env = sample_env\<lparr>copy_pkt := \<lambda>b m. (None, m)\<rparr>"
  have "fst (copy_pkt env b m) = None" for b m by (simp add: env_def)
  from failed_copy_stops_flow [OF _ this, of 0 fg 5] fg(2,4,5) obtain fg' rep m2 where
    "\<forall>sched. on_flow_event (env\<lparr>schedule_event := sched\<rparr>) 0 fg 5 = Inr (fg', do_report env rep m2)"
    by auto
  then show ?thesis by (auto simp: env_def)
qed

lemma setup_flow_event_tsc:
  "setup_flow_event env pkts pos d i (tsc, flows, m) = Inr (tsc', flows', m') \<Longrightarrow> tsc' = tsc + d"
  by (auto simp: setup_flow_event_def Let_def res_simps split: if_splits prod.splits)

lemma setup_flow_events_tsc:
  "fold_res (setup_flow_event env pkts pos d) js (tsc, flows, m) = Inr (tsc', flows', m') \<Longrightarrow>
     num tsc' = num tsc + of_nat (length js) * num d"
proof (induction js arbitrary: tsc flows m)
  case Nil
  then show ?case by simp
next
  case (Cons j js)
  obtain tsc1 flows1 m1 where step: "setup_flow_event env pkts pos d j (tsc, flows, m) = Inr (tsc1, flows1, m1)"
    and rest: "fold_res (setup_flow_event env pkts pos d) js (tsc1, flows1, m1) = Inr (tsc', flows', m')"
    using Cons.prems by (auto simp: res_simps)
  show ?case
    using Cons.IH [OF rest] setup_flow_event_tsc [OF step]
    by (simp add: cycles_defs algebra_simps)
qed

text \<open>The step between two flows, for a frequency whose product with a million fits in 64 bits.\<close>

definition spread_step :: "u64 \<Rightarrow> nat \<Rightarrow> nat" where
  "spread_step hz n = 1000000 div n * unat hz div 1000000"

lemma flow_tsc_step_exact:
  assumes "0 < n" "n \<le> 1000000" "1000000 * unat hz < 2 ^ 64"
  shows "unat (num (flow_tsc_step hz n)) = spread_step hz n" "n * spread_step hz n \<le> unat hz"
proof -
  have "unat (of_nat n :: u64) = n" by (rule unat_of_nat_less) (use assms(2) in simp)
  then have q: "unat (1000000 div of_nat n :: u64) = 1000000 div n" by (simp add: unat_div)
  have le: "1000000 div n \<le> (1000000 :: nat)" by simp
  have "1000000 div n * unat hz \<le> 1000000 * unat hz" using le by (rule mult_le_mono1)
  then have "unat ((1000000 div of_nat n :: u64) * hz) = 1000000 div n * unat hz"
    using assms(3) unat_mult_small [of "1000000 div of_nat n" hz] by (simp only: q)
  then show "unat (num (flow_tsc_step hz n)) = spread_step hz n"
    by (simp only: flow_tsc_step_def spread_step_def from_duration.simps cycles.sel unat_div) simp
  have "n * spread_step hz n * 1000000 = n * (1000000 div n * unat hz div 1000000 * 1000000)"
    by (simp add: spread_step_def)
  also have "\<dots> \<le> n * (1000000 div n * unat hz)" by (intro mult_le_mono2) simp
  also have "\<dots> = (n * (1000000 div n)) * unat hz" by simp
  also have "\<dots> \<le> 1000000 * unat hz" by (intro mult_le_mono1) simp
  finally show "n * spread_step hz n \<le> unat hz" by simp
qed



end
