(* ===== verification/Eth_Dev.thy ===== *)
theory Eth_Dev
  imports Tg_Assert Put_Packet
begin

section \<open>The network device (gen/priv/eth\_dev.cpp)\<close>

text \<open>
  A device is its port number; everything else is DPDK's, on whose state \<open>'w\<close> the functions of the
  record \<open>nic\<close> work. A constructor that throws still has changed that state, so it is part of the
  result of a failure too. The part of a queue's configuration the code copies without looking at it
  is a number.
\<close>

unbundle bit_operations_syntax

record queue_conf =
  qc_offloads :: u64
  qc_rest :: nat

record dev_info =
  rx_offload_capa :: u64
  tx_offload_capa :: u64
  default_rxconf :: queue_conf
  default_txconf :: queue_conf
  rx_desc_lim :: "u16 \<times> u16"
  tx_desc_lim :: "u16 \<times> u16"

record dev_conf =
  rx_offloads :: u64
  tx_offloads :: u64

record 'w nic =
  dev_info_get :: "u16 \<Rightarrow> 'w \<Rightarrow> int \<times> dev_info \<times> 'w"
  dev_configure :: "u16 \<Rightarrow> u16 \<Rightarrow> u16 \<Rightarrow> dev_conf \<Rightarrow> 'w \<Rightarrow> int \<times> 'w"
  rx_queue_setup :: "u16 \<Rightarrow> u16 \<Rightarrow> u16 \<Rightarrow> u32 \<Rightarrow> queue_conf \<Rightarrow> 'w \<Rightarrow> int \<times> 'w"
  tx_queue_setup :: "u16 \<Rightarrow> u16 \<Rightarrow> u16 \<Rightarrow> u32 \<Rightarrow> queue_conf \<Rightarrow> 'w \<Rightarrow> int \<times> 'w"
  dev_start :: "u16 \<Rightarrow> 'w \<Rightarrow> int \<times> 'w"
  dev_stop :: "u16 \<Rightarrow> 'w \<Rightarrow> 'w"
  dev_close :: "u16 \<Rightarrow> 'w \<Rightarrow> 'w"
  link_get_nowait :: "u16 \<Rightarrow> 'w \<Rightarrow> bool \<times> 'w"
  usleep :: "nat \<Rightarrow> 'w \<Rightarrow> 'w"
  macaddr_get :: "u16 \<Rightarrow> 'w \<Rightarrow> u8 list \<times> 'w"
  rte_errno :: "'w \<Rightarrow> int"
  rx_burst :: "u16 \<Rightarrow> u16 \<Rightarrow> nat \<Rightarrow> 'w \<Rightarrow> mbuf list \<times> 'w"
  tx_burst :: "u16 \<Rightarrow> u16 \<Rightarrow> mbuf list \<Rightarrow> 'w \<Rightarrow> nat \<times> 'w"
  off_rx_checksum :: u64
  off_tx_ipv4_cksum :: u64
  off_tx_tcp_cksum :: u64
  off_tx_udp_cksum :: u64
  off_tx_fast_free :: u64

text \<open>The numbers in the texts of the exceptions are rendered by fmt, a parameter.\<close>

type_synonym render = "nat \<Rightarrow> string"

record eth_config =
  ec_port :: u16
  ec_queue_size :: u16
  ec_socket :: u32

definition invalid_port_id :: u16 where "invalid_port_id = 0xFFFF"
definition queue_id :: u16 where "queue_id = 0"
definition nqueues :: u16 where "nqueues = 1"

definition eth_is_valid :: "u16 \<Rightarrow> bool" where
  "eth_is_valid port \<longleftrightarrow> port \<noteq> invalid_port_id"

definition check_capa :: "u64 \<Rightarrow> u64 \<Rightarrow> bool" where
  "check_capa capa flag \<longleftrightarrow> capa AND flag = flag"

definition set_capabilities ::
  "'w nic \<Rightarrow> render \<Rightarrow> eth_config \<Rightarrow> 'w \<Rightarrow> (dev_info \<times> dev_conf) res \<times> 'w" where
  "set_capabilities n rnd cfg w =
     (case dev_info_get n (ec_port cfg) w of (ret, info, w1) \<Rightarrow>
        let port = rnd (unat (ec_port cfg));
            txcapa = off_tx_tcp_cksum n OR off_tx_udp_cksum n;
            tx1 = 0 OR off_tx_ipv4_cksum n;
            tx2 = tx1 OR txcapa;
            tx3 = (if check_capa (tx_offload_capa info) (off_tx_fast_free n)
                   then tx2 OR off_tx_fast_free n else tx2) in
        ((if ret \<noteq> 0 then throw_dpdk_error (- ret)
             ''Failed to initialize DPDK port {}. Failed to get device info'' [port]
          else if \<not> check_capa (rx_offload_capa info) (off_rx_checksum n) then throw_runtime_error
             ''Failed to initialize DPDK port {}. No support for Rx checksum offload'' [port]
          else if \<not> check_capa (tx_offload_capa info) (off_tx_ipv4_cksum n) then throw_runtime_error
             ''Failed to initialize DPDK port {}. No support for Tx IPv4 checksum offload'' [port]
          else if \<not> check_capa (tx_offload_capa info) txcapa then throw_runtime_error
             ''Failed to initialize DPDK port {}. No support for Tx TCP/UDP checksum offload'' [port]
          else Inr (info, \<lparr>rx_offloads = 0 OR off_rx_checksum n, tx_offloads = tx3\<rparr>)), w1))"

definition eth_configure ::
  "'w nic \<Rightarrow> render \<Rightarrow> eth_config \<Rightarrow> dev_info \<Rightarrow> dev_conf \<Rightarrow> 'w \<Rightarrow> unit res \<times> 'w" where
  "eth_configure n rnd cfg info conf w =
     (let port = rnd (unat (ec_port cfg)); qid = rnd (unat queue_id);
          qsz = rnd (unat (ec_queue_size cfg));
          lim = (\<lambda>l. [rnd (unat (fst l)), rnd (unat (snd l))]) in
      case dev_configure n (ec_port cfg) nqueues nqueues conf w of (r1, w1) \<Rightarrow>
      if r1 \<noteq> 0 then (throw_dpdk_error (rte_errno n w1)
        ''Failed to initialize DPDK port {}. Failed to configure the device'' [port], w1)
      else
        case rx_queue_setup n (ec_port cfg) queue_id (ec_queue_size cfg) (ec_socket cfg)
               ((default_rxconf info)\<lparr>qc_offloads := rx_offloads conf\<rparr>) w1 of (r2, w2) \<Rightarrow>
        if r2 \<noteq> 0 then (throw_dpdk_error (rte_errno n w2)
          ''Failed to initialize DPDK port {}. Failed to setup Rx queue {} with size {}. HW queue size range {}-{}''
          ([port, qid, qsz] @ lim (rx_desc_lim info)), w2)
        else
          case tx_queue_setup n (ec_port cfg) queue_id (ec_queue_size cfg) (ec_socket cfg)
                 ((default_txconf info)\<lparr>qc_offloads := tx_offloads conf\<rparr>) w2 of (r3, w3) \<Rightarrow>
          if r3 \<noteq> 0 then (throw_dpdk_error (rte_errno n w3)
            ''Failed to initialize DPDK port {}. Failed to setup Tx queue {} with size {}. HW queue size range {}-{}''
            ([port, qid, qsz] @ lim (tx_desc_lim info)), w3)
          else (Inr (), w3))"

text \<open>The wait for the link: at most \<open>k\<close> more rounds; the result is the link's status.\<close>

fun wait_link :: "'w nic \<Rightarrow> u16 \<Rightarrow> nat \<Rightarrow> bool \<Rightarrow> 'w \<Rightarrow> bool \<times> 'w" where
  "wait_link n port 0 up w = (up, w)"
| "wait_link n port (Suc k) up w =
     (if up then (up, w)
      else case link_get_nowait n port (usleep n 100000 w) of (up', w') \<Rightarrow> wait_link n port k up' w')"

definition eth_start :: "'w nic \<Rightarrow> render \<Rightarrow> eth_config \<Rightarrow> 'w \<Rightarrow> unit res \<times> 'w" where
  "eth_start n rnd cfg w =
     (let port = rnd (unat (ec_port cfg)) in
      case dev_start n (ec_port cfg) w of (r, w1) \<Rightarrow>
      if r < 0 then (throw_dpdk_error (rte_errno n w1) ''Failed to start DPDK port {}'' [port], w1)
      else case wait_link n (ec_port cfg) 100 False w1 of (up, w2) \<Rightarrow>
        if up then (Inr (), w2)
        else (throw_runtime_error ''Failed to bring up DPDK port {}'' [port], dev_stop n (ec_port cfg) w2))"

text \<open>The constructor; the guard that closes the device is armed after \<open>configure\<close>.\<close>

definition eth_new :: "'w nic \<Rightarrow> render \<Rightarrow> eth_config \<Rightarrow> 'w \<Rightarrow> u16 res \<times> 'w" where
  "eth_new n rnd cfg w =
     (case set_capabilities n rnd cfg w of
        (Inl e, w1) \<Rightarrow> (Inl e, w1)
      | (Inr (info, conf), w1) \<Rightarrow>
          (case eth_configure n rnd cfg info conf w1 of
             (Inl e, w2) \<Rightarrow> (Inl e, w2)
           | (Inr _, w2) \<Rightarrow>
               (case eth_start n rnd cfg w2 of
                  (Inl e, w3) \<Rightarrow> (Inl e, dev_close n (ec_port cfg) w3)
                | (Inr _, w3) \<Rightarrow> (Inr (ec_port cfg), w3))))"

definition eth_destroy :: "'w nic \<Rightarrow> u16 \<Rightarrow> 'w \<Rightarrow> 'w" where
  "eth_destroy n port w =
     (if eth_is_valid port then dev_close n port (dev_stop n port w) else w)"

text \<open>The move constructor and the move assignment give the left and the right hand side back.\<close>

definition eth_move :: "u16 \<Rightarrow> u16 \<times> u16" where
  "eth_move rhs = (rhs, invalid_port_id)"

definition eth_assign :: "'w nic \<Rightarrow> u16 \<Rightarrow> u16 \<Rightarrow> 'w \<Rightarrow> u16 \<times> u16 \<times> 'w" where
  "eth_assign n this rhs w =
     (case eth_move rhs of (tmp, rhs') \<Rightarrow> (tmp, rhs', eth_destroy n this w))"

definition get_mac_addr :: "'w nic \<Rightarrow> u16 \<Rightarrow> 'w \<Rightarrow> (u8 list \<times> 'w) res" where
  "get_mac_addr n port w =
     bind_res (tg_assert (eth_is_valid port)) (\<lambda>_. Inr (macaddr_get n port w))"

definition get_link_info :: "'w nic \<Rightarrow> u16 \<Rightarrow> 'w \<Rightarrow> (bool \<times> 'w) res" where
  "get_link_info n port w =
     bind_res (tg_assert (eth_is_valid port)) (\<lambda>_. Inr (link_get_nowait n port w))"

definition get_dev_info :: "'w nic \<Rightarrow> u16 \<Rightarrow> 'w \<Rightarrow> (dev_info \<times> 'w) res" where
  "get_dev_info n port w =
     bind_res (tg_assert (eth_is_valid port)) (\<lambda>_.
       case dev_info_get n port w of (r, info, w') \<Rightarrow> Inr (info, w'))"

definition receive_pkts :: "'w nic \<Rightarrow> u16 \<Rightarrow> nat \<Rightarrow> 'w \<Rightarrow> mbuf list \<times> 'w" where
  "receive_pkts n port room w = rx_burst n port queue_id room w"

definition transmit_pkts :: "'w nic \<Rightarrow> u16 \<Rightarrow> mbuf list \<Rightarrow> 'w \<Rightarrow> nat \<times> 'w" where
  "transmit_pkts n port pkts w = tx_burst n port queue_id pkts w"

subsection \<open>Correctness\<close>

lemma check_capa_or: "check_capa capa a \<Longrightarrow> check_capa capa b \<Longrightarrow> check_capa capa (a OR b)"
  by (simp add: check_capa_def bit.conj_disj_distrib)

lemma check_capa_Inr:
  assumes "set_capabilities n rnd cfg w = (Inr (info, conf), w')"
  shows "check_capa (rx_offload_capa info) (off_rx_checksum n)"
    "check_capa (tx_offload_capa info) (off_tx_ipv4_cksum n)"
    "check_capa (tx_offload_capa info) (off_tx_tcp_cksum n OR off_tx_udp_cksum n)"
    "conf = \<lparr>rx_offloads = off_rx_checksum n,
       tx_offloads = (if check_capa (tx_offload_capa info) (off_tx_fast_free n)
         then (off_tx_ipv4_cksum n OR (off_tx_tcp_cksum n OR off_tx_udp_cksum n)) OR off_tx_fast_free n
         else off_tx_ipv4_cksum n OR (off_tx_tcp_cksum n OR off_tx_udp_cksum n))\<rparr>"
  using assms
  by (auto simp: set_capabilities_def Let_def throw_dpdk_error_def throw_runtime_error_def
      split: prod.splits if_splits)

text \<open>
  Claim C34. The device is configured with offloads it has: every flag enabled is among the
  capabilities it reported, and the checksum offloads the generator relies on are enabled.
\<close>

theorem capabilities_sound:
  assumes "set_capabilities n rnd cfg w = (Inr (info, conf), w')"
  shows "check_capa (rx_offload_capa info) (rx_offloads conf) \<and>
    check_capa (tx_offload_capa info) (tx_offloads conf) \<and>
    check_capa (rx_offloads conf) (off_rx_checksum n) \<and>
    check_capa (tx_offloads conf)
      (off_tx_ipv4_cksum n OR off_tx_tcp_cksum n OR off_tx_udp_cksum n)"
proof -
  note c = check_capa_Inr [OF assms]
  let ?req = "off_tx_ipv4_cksum n OR (off_tx_tcp_cksum n OR off_tx_udp_cksum n)"
  have req: "check_capa (tx_offload_capa info) ?req" by (rule check_capa_or [OF c(2,3)])
  have sub: "check_capa (x OR y) x" for x y by (simp add: check_capa_def bit_eq_iff bit_simps)
  have self: "check_capa x x" for x by (simp add: check_capa_def)
  show ?thesis
    using c(1) req sub [of ?req] self check_capa_or [OF req] by (simp add: c(4) ac_simps)
qed


text \<open>A card that has what the generator needs, for the concrete cases.\<close>

definition sample_queue_conf :: queue_conf where
  "sample_queue_conf = \<lparr>qc_offloads = 0, qc_rest = 0\<rparr>"

definition sample_dev_info :: dev_info where
  "sample_dev_info = \<lparr>rx_offload_capa = 14, tx_offload_capa = 0xE, default_rxconf = sample_queue_conf,
     default_txconf = sample_queue_conf, rx_desc_lim = (64, 4096), tx_desc_lim = (64, 4096)\<rparr>"

definition sample_nic :: "unit nic" where
  "sample_nic =
     \<lparr>dev_info_get = (\<lambda>p w. (0, sample_dev_info, w)), dev_configure = (\<lambda>p a b c w. (0, w)),
      rx_queue_setup = (\<lambda>p q z k c w. (0, w)), tx_queue_setup = (\<lambda>p q z k c w. (0, w)),
      dev_start = (\<lambda>p w. (0, w)), dev_stop = (\<lambda>p w. w), dev_close = (\<lambda>p w. w),
      link_get_nowait = (\<lambda>p w. (True, w)), usleep = (\<lambda>u w. w),
      macaddr_get = (\<lambda>p w. ([2, 0, 0, 0, 0, 1], w)), rte_errno = (\<lambda>w. 0),
      rx_burst = (\<lambda>p q k w. ([], w)), tx_burst = (\<lambda>p q ms w. (length ms, w)),
      off_rx_checksum = 14, off_tx_ipv4_cksum = 2, off_tx_tcp_cksum = 8, off_tx_udp_cksum = 4,
      off_tx_fast_free = 0x10000\<rparr>"

definition sample_eth_config :: eth_config where
  "sample_eth_config = \<lparr>ec_port = 0, ec_queue_size = 128, ec_socket = 0\<rparr>"

lemma sample_capabilities:
  "set_capabilities sample_nic (\<lambda>_. []) sample_eth_config () =
     (Inr (sample_dev_info, \<lparr>rx_offloads = 14, tx_offloads = 14\<rparr>), ())"
  by (simp add: set_capabilities_def sample_nic_def sample_dev_info_def check_capa_def)

theorem capabilities_sound_witness:
  "check_capa (rx_offload_capa sample_dev_info) 14 \<and> check_capa (tx_offload_capa sample_dev_info) 14 \<and>
   check_capa 14 (off_rx_checksum sample_nic)"
  using capabilities_sound [OF sample_capabilities] by simp

subsection \<open>What the constructor does to the device\<close>

text \<open>
  The calls that change the device are recorded by a card that works like the given one and notes
  each of them in the order they are made.
\<close>

datatype dev_call = Configure | Setup_rx | Setup_tx | Start | Poll bool | Stop | Close

definition note_call :: "dev_call \<Rightarrow> ('r \<times> 'w) \<times> dev_call list \<Rightarrow> 'r \<times> 'w \<times> dev_call list" where
  "note_call c rw = (fst (fst rw), snd (fst rw), snd rw @ [c])"

definition traced :: "'w nic \<Rightarrow> ('w \<times> dev_call list) nic" where
  "traced n =
     \<lparr>dev_info_get = (\<lambda>p (w, log). case dev_info_get n p w of (r, i, w') \<Rightarrow> (r, i, w', log)),
      dev_configure = (\<lambda>p a b c (w, log). note_call Configure (dev_configure n p a b c w, log)),
      rx_queue_setup = (\<lambda>p q z k c (w, log). note_call Setup_rx (rx_queue_setup n p q z k c w, log)),
      tx_queue_setup = (\<lambda>p q z k c (w, log). note_call Setup_tx (tx_queue_setup n p q z k c w, log)),
      dev_start = (\<lambda>p (w, log). note_call Start (dev_start n p w, log)),
      dev_stop = (\<lambda>p (w, log). (dev_stop n p w, log @ [Stop])),
      dev_close = (\<lambda>p (w, log). (dev_close n p w, log @ [Close])),
      link_get_nowait = (\<lambda>p (w, log).
        note_call (Poll (fst (link_get_nowait n p w))) (link_get_nowait n p w, log)),
      usleep = (\<lambda>u (w, log). (usleep n u w, log)),
      macaddr_get = (\<lambda>p (w, log). case macaddr_get n p w of (a, w') \<Rightarrow> (a, w', log)),
      rte_errno = (\<lambda>(w, log). rte_errno n w),
      rx_burst = (\<lambda>p q k (w, log). case rx_burst n p q k w of (ms, w') \<Rightarrow> (ms, w', log)),
      tx_burst = (\<lambda>p q ms (w, log). case tx_burst n p q ms w of (k, w') \<Rightarrow> (k, w', log)),
      off_rx_checksum = off_rx_checksum n, off_tx_ipv4_cksum = off_tx_ipv4_cksum n,
      off_tx_tcp_cksum = off_tx_tcp_cksum n, off_tx_udp_cksum = off_tx_udp_cksum n,
      off_tx_fast_free = off_tx_fast_free n\<rparr>"

lemmas traced_simps = traced_def note_call_def

lemma wait_link_trace:
  assumes "wait_link (traced n) port k False (w, log) = (up, w', log')"
  shows "(up \<longrightarrow> (\<exists>j < k. log' = log @ replicate j (Poll False) @ [Poll True])) \<and>
    (\<not> up \<longrightarrow> log' = log @ replicate k (Poll False))"
  using assms
proof (induction k arbitrary: w log)
  case 0
  then show ?case by simp
next
  case (Suc k)
  obtain up1 w1 where poll: "link_get_nowait n port (usleep n 100000 w) = (up1, w1)"
    by (cases "link_get_nowait n port (usleep n 100000 w)")
  show ?case
  proof (cases up1)
    case True
    then have "up \<and> log' = log @ replicate 0 (Poll False) @ [Poll True]"
      using Suc.prems poll by (cases k) (simp_all add: traced_simps)
    then show ?thesis by (metis zero_less_Suc)
  next
    case False
    then have step: "wait_link (traced n) port k False (w1, log @ [Poll False]) = (up, w', log')"
      using Suc.prems poll by (simp add: traced_simps)
    from Suc.IH [OF step] show ?thesis
      by (auto intro: exI [of _ "Suc j" for j])
  qed
qed

lemma set_capabilities_trace:
  "set_capabilities (traced n) rnd cfg (w, log) =
     (case set_capabilities n rnd cfg w of (r, w') \<Rightarrow> (r, w', log))"
  by (simp add: set_capabilities_def traced_def Let_def split: prod.split)

lemma eth_configure_trace:
  assumes "eth_configure (traced n) rnd cfg info conf (w, log) = (r, w', log')"
  shows "case r of
      Inr _ \<Rightarrow> log' = log @ [Configure, Setup_rx, Setup_tx]
    | Inl e \<Rightarrow> log' \<in> {log @ [Configure], log @ [Configure, Setup_rx], log @ [Configure, Setup_rx, Setup_tx]}"
  using assms
  by (auto simp: eth_configure_def traced_simps Let_def throw_dpdk_error_def split: prod.splits if_splits)

lemma eth_start_trace:
  assumes "eth_start (traced n) rnd cfg (w, log) = (r, w', log')"
  shows "case r of
      Inr _ \<Rightarrow> \<exists>j < 100. log' = log @ Start # replicate j (Poll False) @ [Poll True]
    | Inl e \<Rightarrow> log' = log @ [Start] \<or> log' = log @ Start # replicate 100 (Poll False) @ [Stop]"
proof -
  obtain ret w1 where st: "dev_start n (ec_port cfg) w = (ret, w1)"
    by (cases "dev_start n (ec_port cfg) w")
  obtain up w2 log2 where wl: "wait_link (traced n) (ec_port cfg) 100 False (w1, log @ [Start]) = (up, w2, log2)"
    by (cases "wait_link (traced n) (ec_port cfg) 100 False (w1, log @ [Start])")
  have started: "dev_start (traced n) (ec_port cfg) (w, log) = (ret, w1, log @ [Start])"
    by (simp add: traced_simps st)
  have stopped: "dev_stop (traced n) p (v, l) = (dev_stop n p v, l @ [Stop])" for p v l
    by (simp add: traced_simps)
  note [simp del] = wait_link.simps
  show ?thesis
  proof (cases "ret < 0")
    case True
    then show ?thesis
      using assms by (auto simp: eth_start_def started Let_def throw_dpdk_error_def)
  next
    case False
    then show ?thesis
      using assms wait_link_trace [OF wl]
      by (cases up) (auto simp: eth_start_def started stopped wl Let_def throw_runtime_error_def)
  qed
qed

text \<open>
  Claim C33. What the constructor leaves behind. On success the device has been configured, its
  queues set up, started, and polled until the link was up, at most a hundred times. When starting
  fails, or the link stays down for a hundred polls, the device is closed (and stopped first, if it
  had been started); when the configuration fails the calls end there: the device stays as it was
  left.
\<close>

theorem eth_new_lifecycle:
  assumes "eth_new (traced n) rnd cfg (w, []) = (r, w', log)"
  shows "case r of
      Inr port \<Rightarrow> port = ec_port cfg \<and> (\<exists>j < 100. log = [Configure, Setup_rx, Setup_tx, Start] @
        replicate j (Poll False) @ [Poll True])
    | Inl e \<Rightarrow> log \<in> {[], [Configure], [Configure, Setup_rx], [Configure, Setup_rx, Setup_tx],
        [Configure, Setup_rx, Setup_tx, Start, Close],
        [Configure, Setup_rx, Setup_tx, Start] @ replicate 100 (Poll False) @ [Stop, Close]}"
proof -
  have closed: "dev_close (traced n) p (v, l) = (dev_close n p v, l @ [Close])" for p v l
    by (simp add: traced_simps)
  obtain c w1 where caps: "set_capabilities n rnd cfg w = (c, w1)"
    by (cases "set_capabilities n rnd cfg w")
  show ?thesis
  proof (cases c)
    case (Inl e)
    then show ?thesis
      using assms by (auto simp: eth_new_def set_capabilities_trace caps)
  next
    case (Inr ic)
    obtain info conf where ic: "ic = (info, conf)" by (cases ic)
    obtain c2 w2 log2 where cf: "eth_configure (traced n) rnd cfg info conf (w1, []) = (c2, w2, log2)"
      by (cases "eth_configure (traced n) rnd cfg info conf (w1, [])")
    obtain c3 w3 log3 where st: "eth_start (traced n) rnd cfg (w2, log2) = (c3, w3, log3)"
      by (cases "eth_start (traced n) rnd cfg (w2, log2)")
    show ?thesis
      using assms eth_configure_trace [OF cf] eth_start_trace [OF st]
      by (cases c2; cases c3)
        (auto simp: eth_new_def set_capabilities_trace caps Inr ic cf st closed)
  qed
qed

theorem eth_new_lifecycle_witness:
  "\<exists>w'. eth_new (traced sample_nic) (\<lambda>_. []) sample_eth_config ((), []) =
     (Inr 0, w', [Configure, Setup_rx, Setup_tx, Start, Poll True]) \<and>
   (\<exists>j < 100. [Configure, Setup_rx, Setup_tx, Start, Poll True] =
     [Configure, Setup_rx, Setup_tx, Start] @ replicate j (Poll False) @ [Poll True])"
proof -
  let ?conf = "\<lparr>rx_offloads = 14, tx_offloads = 14\<rparr>"
  have caps: "set_capabilities (traced sample_nic) (\<lambda>_. []) sample_eth_config ((), []) =
      (Inr (sample_dev_info, ?conf), (), [])"
    by (simp add: set_capabilities_trace sample_capabilities)
  have conf: "eth_configure (traced sample_nic) (\<lambda>_. []) sample_eth_config sample_dev_info ?conf ((), []) =
      (Inr (), (), [Configure, Setup_rx, Setup_tx])"
    by (simp add: eth_configure_def traced_simps sample_nic_def Let_def)
  have stay: "wait_link n p k True v = (True, v)" for n :: "(unit \<times> dev_call list) nic" and p k v
    by (cases k) simp_all
  have "wait_link (traced sample_nic) p (Suc 99) False ((), l) = (True, (), l @ [Poll True])" for p l
    by (simp only: wait_link.simps stay) (simp add: traced_simps sample_nic_def stay del: wait_link.simps)
  then have wl: "wait_link (traced sample_nic) p 100 False ((), l) = (True, (), l @ [Poll True])" for p l
    by (simp del: wait_link.simps)
  have start: "eth_start (traced sample_nic) (\<lambda>_. []) sample_eth_config ((), l) =
      (Inr (), (), l @ [Start, Poll True])" for l
    using wl [of "ec_port sample_eth_config" "l @ [Start]"]
    by (simp add: eth_start_def traced_simps sample_nic_def Let_def del: wait_link.simps)
  have run: "eth_new (traced sample_nic) (\<lambda>_. []) sample_eth_config ((), []) =
     (Inr 0, (), [Configure, Setup_rx, Setup_tx, Start, Poll True])"
    by (simp add: eth_new_def caps conf start) (simp add: sample_eth_config_def)
  from eth_new_lifecycle [OF run] run show ?thesis by simp
qed

end
