(* ===== verification/Mbuf_Pool.thy ===== *)
theory Mbuf_Pool
  imports TG_Prelude
begin

section \<open>The packet pool (gen/priv/mbuf\_pool.cpp, put/file\_utils.h)\<close>

text \<open>
  DPDK opens a file descriptor for every huge page of a pool, so the constructor first raises the
  limit on open files. The system calls and DPDK's functions are the record \<open>pool_lib\<close> of functions
  on the state \<open>'w\<close> they share; a pool is named by a number. \<open>get_nofile\<close> and \<open>set_nofile\<close> are
  \<open>getrlimit\<close> and \<open>setrlimit\<close> for \<open>RLIMIT_NOFILE\<close>, a limit is the pair of the soft and the hard one.
  \<open>default_buf_size\<close> and \<open>cache_max_size\<close> are constants of DPDK.
\<close>

type_synonym limits = "u64 \<times> u64"

record 'w pool_lib =
  get_nofile :: "'w \<Rightarrow> int \<times> limits \<times> 'w"
  set_nofile :: "limits \<Rightarrow> 'w \<Rightarrow> int \<times> 'w"
  pl_errno :: "'w \<Rightarrow> int"
  pl_rte_errno :: "'w \<Rightarrow> int"
  pool_create :: "string \<Rightarrow> u32 \<Rightarrow> u64 \<Rightarrow> u64 \<Rightarrow> u64 \<Rightarrow> u32 \<Rightarrow> 'w \<Rightarrow> nat option \<times> 'w"
  pool_free :: "nat \<Rightarrow> 'w \<Rightarrow> 'w"
  default_buf_size :: u64
  cache_max_size :: u64

record pool_config =
  pc_cnt_mbufs :: u32
  pc_socket :: u32

text \<open>The limits \<open>set_max_count_fds\<close> asks for: the hard one is raised only when it is too small.\<close>

definition new_limits :: "u32 \<Rightarrow> limits \<Rightarrow> limits" where
  "new_limits cnt lims =
     (let hard = snd lims in (ucast cnt, if hard < ucast cnt then ucast cnt else hard))"

definition set_max_count_fds :: "'w pool_lib \<Rightarrow> u32 \<Rightarrow> 'w \<Rightarrow> (int + unit) \<times> 'w" where
  "set_max_count_fds lib cnt w =
     (case get_nofile lib w of (ret, cur_lims, w1) \<Rightarrow>
        if ret \<noteq> 0 then (Inl (system_error_code (pl_errno lib w1)), w1)
        else case set_nofile lib (new_limits cnt cur_lims) w1 of (ret', w2) \<Rightarrow>
          if ret' \<noteq> 0 then (Inl (system_error_code (pl_errno lib w2)), w2) else (Inr (), w2))"

text \<open>The huge pages are assumed to have two megabytes.\<close>

definition count_fds :: "u64 \<Rightarrow> u32 \<Rightarrow> u64" where
  "count_fds mbuf_size cnt_mbufs =
     1024 + max 1 ((ucast cnt_mbufs * mbuf_size) div (2 * 1024 * 1024))"

definition mbuf_pool_new ::
  "'w pool_lib \<Rightarrow> (nat \<Rightarrow> string) \<Rightarrow> pool_config \<Rightarrow> 'w \<Rightarrow> nat res \<times> 'w" where
  "mbuf_pool_new lib rnd cfg w =
     (let cnt_fds = count_fds (default_buf_size lib) (pc_cnt_mbufs cfg) in
      case set_max_count_fds lib (ucast cnt_fds) w of
        (Inl err, w1) \<Rightarrow>
          (throw_system_error err ''Failed to set the max count of file descriptors to {}''
             [rnd (unat cnt_fds)], w1)
      | (Inr _, w1) \<Rightarrow>
          (case pool_create lib ''tgn_mbuf_pool'' (pc_cnt_mbufs cfg) (cache_max_size lib) 0
                  (default_buf_size lib) (pc_socket cfg) w1 of
             (None, w2) \<Rightarrow>
               (throw_dpdk_error (pl_rte_errno lib w2)
                  ''Failed to create mbufs memory pool with name:{} and size:{}''
                  [''tgn_mbuf_pool'', rnd (unat (pc_cnt_mbufs cfg))], w2)
           | (Some mp, w2) \<Rightarrow> (Inr mp, w2)))"

definition mbuf_pool_destroy :: "'w pool_lib \<Rightarrow> nat \<Rightarrow> 'w \<Rightarrow> 'w" where
  "mbuf_pool_destroy lib mp w = pool_free lib mp w"

subsection \<open>Correctness\<close>

text \<open>No step of the computation of the count wraps, and the count fits the parameter it is passed as.\<close>

lemma count_fds_exact:
  assumes "unat mbuf_size \<le> 2 ^ 20"
  shows "unat (count_fds mbuf_size n) = 1024 + max 1 (unat n * unat mbuf_size div 2 ^ 21)"
    and "unat (count_fds mbuf_size n) < 2 ^ 32"
proof -
  have n: "unat n < 2 ^ LENGTH(32)" by (rule unsigned_less)
  then have wide: "unat (ucast n :: u64) = unat n"
    by (simp add: unsigned_ucast_eq take_bit_nat_eq_self)
  have prod: "unat n * unat mbuf_size \<le> 2 ^ 32 * 2 ^ 20"
    by (rule mult_le_mono) (use n assms in simp_all)
  then have "unat (ucast n * mbuf_size) = unat n * unat mbuf_size"
    using wide by (simp add: unat_word_ariths)
  then have d: "unat ((ucast n * mbuf_size) div 2097152) = unat n * unat mbuf_size div 2 ^ 21"
    by (simp add: unat_div)
  define x :: u64 where "x = max 1 ((ucast n * mbuf_size) div 2097152)"
  have x: "unat x = max 1 (unat n * unat mbuf_size div 2 ^ 21)"
    using d by (auto simp: x_def max_def word_le_nat_alt)
  have "unat n * unat mbuf_size div 2 ^ 21 \<le> (2 ^ 32 * 2 ^ 20) div 2 ^ 21"
    by (rule div_le_mono [OF prod])
  then have lt: "unat x \<le> 2 ^ 31" using x by simp
  have "count_fds mbuf_size n = x + of_nat 1024"
    by (simp add: count_fds_def x_def add.commute)
  then have sum: "unat (count_fds mbuf_size n) = unat x + 1024"
    using unat_add_no_wrap [of x 1024] lt by simp
  show "unat (count_fds mbuf_size n) = 1024 + max 1 (unat n * unat mbuf_size div 2 ^ 21)"
    using sum x by simp
  show "unat (count_fds mbuf_size n) < 2 ^ 32" unfolding sum using lt by simp
qed

lemma new_limits_sound:
  assumes "unat c < 2 ^ 32"
  shows "fst (new_limits (ucast (c :: u64)) lims) = c"
    and "fst (new_limits (ucast c) lims) \<le> snd (new_limits (ucast c) lims)"
    and "snd lims \<le> snd (new_limits (ucast c) lims)"
proof -
  have "unat (ucast (ucast c :: u32) :: u64) = unat c"
    using assms by (simp add: unsigned_ucast_eq unsigned_take_bit_eq take_bit_nat_eq_self)
  then have "(ucast (ucast c :: u32) :: u64) = c" by (simp add: word_unat_eq_iff)
  then show "fst (new_limits (ucast (c :: u64)) lims) = c"
    "fst (new_limits (ucast c) lims) \<le> snd (new_limits (ucast c) lims)"
    "snd lims \<le> snd (new_limits (ucast c) lims)"
    by (auto simp: new_limits_def Let_def not_less)
qed

text \<open>
  A pool that was created had the limit on open files raised first: the soft limit asked
  for is 1024 plus the number of huge pages the packets fill (at least one), computed without
  wrapping and passed on without truncation, it does not exceed the hard limit asked for, and the
  hard limit is never lowered.
\<close>

lemma pool_raises_file_limit:
  assumes "mbuf_pool_new lib rnd cfg w = (Inr mp, w')" and "unat (default_buf_size lib) \<le> 2 ^ 20"
  shows "\<exists>cur soft hard w1 w2. get_nofile lib w = (0, cur, w1) \<and>
    set_nofile lib (soft, hard) w1 = (0, w2) \<and>
    unat soft = 1024 + max 1 (unat (pc_cnt_mbufs cfg) * unat (default_buf_size lib) div 2 ^ 21) \<and>
    soft \<le> hard \<and> snd cur \<le> hard"
proof -
  define c where "c = count_fds (default_buf_size lib) (pc_cnt_mbufs cfg)"
  obtain cur w1 w2 where calls: "get_nofile lib w = (0, cur, w1)"
    "set_nofile lib (new_limits (ucast c) cur) w1 = (0, w2)"
    using assms(1)
    by (auto simp: mbuf_pool_new_def set_max_count_fds_def c_def Let_def throw_system_error_def
        split: prod.splits if_splits)
  note c = count_fds_exact [OF assms(2), of "pc_cnt_mbufs cfg", folded c_def]
  note l = new_limits_sound [OF c(2), of cur]
  obtain soft hard where nl: "new_limits (ucast c) cur = (soft, hard)"
    by (cases "new_limits (ucast c) cur")
  show ?thesis using calls c(1) l unfolding nl by auto
qed

definition sample_pool_lib :: "unit pool_lib" where
  "sample_pool_lib =
     \<lparr>get_nofile = (\<lambda>w. (0, (1024, 4096), w)), set_nofile = (\<lambda>l w. (0, w)), pl_errno = (\<lambda>w. 0),
      pl_rte_errno = (\<lambda>w. 0), pool_create = (\<lambda>nam n c p b s w. (Some 1, w)), pool_free = (\<lambda>mp w. w),
      default_buf_size = 2176, cache_max_size = 512\<rparr>"

lemma pool_raises_file_limit_witness:
  "\<exists>soft hard. unat soft = 1024 + max 1 (unat (131072 :: u32) * 2176 div 2 ^ 21) \<and>
     soft \<le> hard \<and> (4096 :: u64) \<le> hard"
proof -
  let ?cfg = "\<lparr>pc_cnt_mbufs = 131072, pc_socket = 0\<rparr>"
  have "mbuf_pool_new sample_pool_lib (\<lambda>_. []) ?cfg () = (Inr 1, ())"
    by (simp add: mbuf_pool_new_def set_max_count_fds_def sample_pool_lib_def)
  from pool_raises_file_limit [OF this]
  show ?thesis by (auto simp: sample_pool_lib_def)
qed

end
