(* ===== verification/Messages.thy ===== *)
theory Messages
  imports Spsc_Ring Gen_Config Put_Time
begin

section \<open>Messages between management and generation (mgmt/messages.h, mgmt/stats.h)\<close>

text \<open>
  The management thread and the generation thread talk through two queues of variants over the ring
  of put/spsc\_ring.h. The variants are datatypes with one constructor per alternative;
  \<open>put::visit\<close> with overloaded functions is the case distinction of the handler given to \<open>dequeue\<close>.
\<close>

subsection \<open>What the messages carry\<close>

record stats =
  cnt_rx_pkts :: u64
  cnt_tx_pkts :: u64
  cnt_rx_bytes :: u64
  cnt_tx_bytes :: u64
  cnt_rx_pkts_qfull :: u64
  cnt_rx_pkts_nombuf :: u64
  cnt_tx_pkts_qfull :: u64
  cnt_tx_pkts_nombuf :: u64
  cnt_rx_pkts_err :: u64
  cnt_tx_pkts_err :: u64

text \<open>The names and values \<open>stats::visit\<close> calls its visitor with, in order.\<close>

definition stats_visit :: "stats \<Rightarrow> (string \<times> u64) list" where
  "stats_visit s =
     [(''cnt_rx_pkts'', cnt_rx_pkts s), (''cnt_tx_pkts'', cnt_tx_pkts s),
      (''cnt_rx_bytes'', cnt_rx_bytes s), (''cnt_tx_bytes'', cnt_tx_bytes s),
      (''cnt_rx_pkts_qfull'', cnt_rx_pkts_qfull s), (''cnt_rx_pkts_nombuf'', cnt_rx_pkts_nombuf s),
      (''cnt_tx_pkts_qfull'', cnt_tx_pkts_qfull s), (''cnt_tx_pkts_nombuf'', cnt_tx_pkts_nombuf s),
      (''cnt_rx_pkts_err'', cnt_rx_pkts_err s), (''cnt_tx_pkts_err'', cnt_tx_pkts_err s)]"

record stats_entry =
  se_gen_idx :: u32
  se_flow_idx :: u32
  se_cnt_pkts :: u64
  se_cnt_bytes :: u64
  se_duration :: cycles

record summary_stats =
  summary :: stats
  detailed :: "stats_entry list"

record generation_report =
  gr_tstamp :: cycles
  gr_gen_idx :: u32
  gr_flow_idx :: u32
  gr_pkt_idx :: u32
  gr_pkt_len :: u32
  gr_src_addr :: "u8 list"
  gr_dst_addr :: "u8 list"
  gr_from_cln :: bool
  gr_ok :: bool

text \<open>
  \<open>out_msg\<close> goes from the management to the generation, \<open>inc_msg\<close> back. The result of a start is
  None for success and otherwise the error's text.
\<close>

datatype out_msg =
    Req_start_generation gen_config
  | Req_stop_generation
  | Req_stats_report

datatype inc_msg =
    Res_start_generation "string option"
  | Res_stop_generation summary_stats
  | Res_stats_report stats
  | Generation_report generation_report

text \<open>The requests the generation manager is prepared for.\<close>

fun request_ok :: "out_msg \<Rightarrow> bool" where
  "request_ok (Req_start_generation cfg) = gen_config_ok cfg"
| "request_ok Req_stop_generation = True"
| "request_ok Req_stats_report = True"

subsection \<open>The queues\<close>

definition out_queue_new :: "out_msg ring" where
  "out_queue_new = ring_new 32"

definition inc_queue_new :: "inc_msg ring" where
  "inc_queue_new = ring_new 256"

definition enqueue :: "'m \<Rightarrow> 'm ring \<Rightarrow> bool \<times> 'm ring" where
  "enqueue msg q = try_push msg q"

text \<open>
  \<open>dequeue\<close> moves up to \<open>min(Capacity, 8)\<close> messages into a local array and then visits each; the
  handler works on the rest \<open>'s\<close> of the state. It is \<open>noexcept\<close>.
\<close>

definition dequeue :: "('m \<Rightarrow> 's \<Rightarrow> 's res) \<Rightarrow> 'm ring \<times> 's \<Rightarrow> ('m ring \<times> 's) res" where
  "dequeue handler qs =
     (case qs of (q, s) \<Rightarrow>
        bind_res (try_pop_n (min (ring_capacity q) 8) q) (\<lambda>(cnt, msgs, q').
          bind_res (noexcept (fold_res handler msgs s)) (\<lambda>s'. Inr (q', s'))))"

subsection \<open>Facts for the clients\<close>

lemma queues_new:
  "ring_inv out_queue_new" "contents out_queue_new = []" "length (buff out_queue_new) = 32"
  "ring_inv inc_queue_new" "contents inc_queue_new = []" "length (buff inc_queue_new) = 256"
proof -
  have "valid_size 32" "valid_size 256" by (simp_all add: valid_size_def)
  from ring_new_inv [where 'a = out_msg, OF this(1)] ring_new_inv [where 'a = inc_msg, OF this(2)]
  show "ring_inv out_queue_new" "contents out_queue_new = []" "length (buff out_queue_new) = 32"
    "ring_inv inc_queue_new" "contents inc_queue_new = []" "length (buff inc_queue_new) = 256"
    by (simp_all add: out_queue_new_def inc_queue_new_def)
qed

lemma enqueue_spec:
  assumes "ring_inv q"
  obtains q' where "enqueue m q = (length (contents q) < length (buff q), q')" "ring_inv q'"
    "length (buff q') = length (buff q)"
    "contents q' = (if length (contents q) < length (buff q) then contents q @ [m] else contents q)"
  using ring.push_law [OF assms, of m] by (auto simp: enqueue_def)

text \<open>The messages a \<open>dequeue\<close> takes: a prefix, none only when there is nothing to take.\<close>

lemma dequeue_pop:
  assumes "ring_inv q" "0 < length (buff q)" "length (buff q) < 2 ^ 64"
  obtains cnt msgs q' where "try_pop_n (min (ring_capacity q) 8) q = Inr (cnt, msgs, q')"
    "ring_inv q'" "length (buff q') = length (buff q)" "contents q = msgs @ contents q'"
    "length msgs \<le> 8" "msgs = [] \<longleftrightarrow> contents q = []"
proof -
  have cap: "unat (ring_capacity q) = length (buff q)"
    using assms(3) by (simp add: ring_capacity_def ring_size_def unat_of_nat)
  then have "ring_capacity q \<noteq> 0" using assms(2) by (auto simp: unat_eq_0)
  then have sz: "min (ring_capacity q) 8 \<noteq> 0" by (simp add: min_def)
  have "unat (min (ring_capacity q) 8) \<le> 8"
    by (simp add: min_def word_le_nat_alt)
  then show ?thesis
    using ring.pop_law [OF assms(1), of "min (ring_capacity q) 8"] sz that by fastforce
qed

lemma dequeue_total:
  assumes q: "ring_inv q" "0 < length (buff q)" "length (buff q) < 2 ^ 64" and s: "P s"
    and step: "\<And>m s. m \<in> set (contents q) \<Longrightarrow> P s \<Longrightarrow> \<exists>s'. handler m s = Inr s' \<and> P s'"
  shows "\<exists>msgs q' s'. dequeue handler (q, s) = Inr (q', s') \<and> ring_inv q' \<and>
    length (buff q') = length (buff q) \<and> contents q = msgs @ contents q' \<and> length msgs \<le> 8 \<and>
    (msgs = [] \<longleftrightarrow> contents q = []) \<and> fold_res handler msgs s = Inr s' \<and> P s'"
proof -
  obtain cnt msgs q' where pop: "try_pop_n (min (ring_capacity q) 8) q = Inr (cnt, msgs, q')"
    "ring_inv q'" "length (buff q') = length (buff q)" "contents q = msgs @ contents q'"
    "length msgs \<le> 8" "msgs = [] \<longleftrightarrow> contents q = []"
    using dequeue_pop [OF q] .
  obtain s' where "fold_res handler msgs s = Inr s'" "P s'"
    using fold_res_total [of P s msgs handler] s step pop(4) by auto
  then show ?thesis using pop by (auto simp: dequeue_def)
qed

text \<open>Nothing to take: the handler is not called.\<close>

lemma dequeue_empty:
  assumes "ring_inv q" "0 < length (buff q)" "length (buff q) < 2 ^ 64" "contents q = []"
  obtains q' where "dequeue handler (q, s) = Inr (q', s)" "ring_inv q'" "length (buff q') = length (buff q)"
    "contents q' = []"
proof -
  obtain cnt msgs q' where pop: "try_pop_n (min (ring_capacity q) 8) q = Inr (cnt, msgs, q')"
    "ring_inv q'" "length (buff q') = length (buff q)" "contents q = msgs @ contents q'"
    using dequeue_pop [OF assms(1-3)] .
  then have "msgs = []" "contents q' = []" using assms(4) by simp_all
  with pop show ?thesis by (intro that [of q']) (simp_all add: dequeue_def)
qed

text \<open>
  Each call of \<open>dequeue\<close> on a queue that is not empty takes at least one message, so as
  many calls as there are messages handle all of them, each once and in the order they were
  enqueued.
\<close>

lemma dequeue_drains:
  fixes q :: "'m ring"
  assumes "ring_inv q" "0 < length (buff q)" "length (buff q) < 2 ^ 64"
    and "length (contents q) \<le> k"
  shows "\<exists>q'. fold_res (\<lambda>_. dequeue (\<lambda>m log. Inr (log @ [m]))) [0..<k] (q, []) = Inr (q', contents q) \<and>
    ring_inv q' \<and> contents q' = []"
proof -
  have log: "fold_res (\<lambda>m log. Inr (log @ [m])) ms log = (Inr (log @ ms) :: 'm list res)" for ms log
    by (induction ms arbitrary: log) auto
  have "\<exists>q'. fold_res (\<lambda>_. dequeue (\<lambda>m log. Inr (log @ [m]))) js (q, log) = Inr (q', log @ contents q) \<and>
    ring_inv q' \<and> contents q' = []"
    if "ring_inv q" "0 < length (buff q)" "length (buff q) < 2 ^ 64" "length (contents q) \<le> length js"
    for js :: "nat list" and q :: "'m ring" and log
    using that
  proof (induction js arbitrary: q log)
    case Nil
    then show ?case by simp
  next
    case (Cons j js)
    obtain msgs q1 s1 where q1: "dequeue (\<lambda>m log. Inr (log @ [m])) (q, log) = Inr (q1, s1)"
      "ring_inv q1" "length (buff q1) = length (buff q)" "contents q = msgs @ contents q1"
      "msgs = [] \<longleftrightarrow> contents q = []" "s1 = log @ msgs"
      using dequeue_total [OF Cons.prems(1-3), of "\<lambda>_. True" log "\<lambda>m log. Inr (log @ [m])"]
      by (auto simp: log)
    have "length (contents q1) \<le> length js"
      using q1(4,5) Cons.prems(4) by (cases msgs) auto
    with Cons.IH [of q1 "log @ msgs"] q1 Cons.prems(2,3) show ?case by auto
  qed
  from this [OF assms(1-3), of "[0..<k]" "[]"] assms(4) show ?thesis by simp
qed

lemma dequeue_drains_witness:
  "\<exists>q'. fold_res (\<lambda>_. dequeue (\<lambda>m log. Inr (log @ [m]))) [0..<1] (inc_queue_new, []) =
     Inr (q', contents inc_queue_new) \<and> ring_inv q' \<and> contents q' = []"
  by (rule dequeue_drains) (simp_all add: queues_new)

end
