(* ===== verification/Gen_Manager.thy ===== *)
theory Gen_Manager
  imports Flows_Generator Eth_Dev Mbuf_Pool Messages "HOL-Library.Sublist"
begin

section \<open>The generation manager (gen/manager.cpp)\<close>

text \<open>
  The manager owns the packet pool, the device, the scheduler and the flow generators, answers the
  requests of the management thread and implements \<open>generation_ops\<close> for its generators. Everything
  that is not in the repository is the record \<open>gen_libs\<close>: DPDK's and the system's functions work on
  one state \<open>'w\<close>; the timer library has its own state in the scheduler. \<open>what_of\<close> is the text of an
  exception, \<open>path_append\<close> the operator \<open>/\<close> of paths.
\<close>

record eth_stats =
  ipackets :: u64
  opackets :: u64
  ibytes :: u64
  obytes :: u64
  imissed :: u64
  ierrors :: u64
  oerrors :: u64
  rx_nombuf :: u64

definition eth_stats_zero :: eth_stats where
  "eth_stats_zero =
     \<lparr>ipackets = 0, opackets = 0, ibytes = 0, obytes = 0, imissed = 0, ierrors = 0, oerrors = 0,
      rx_nombuf = 0\<rparr>"

record ('l, 'w) gen_libs =
  timers :: "('l, ctx) timer_lib"
  nic_lib :: "'w nic"
  pools :: "'w pool_lib"
  pktmbuf_alloc :: "nat \<Rightarrow> 'w \<Rightarrow> mbuf option \<times> 'w"
  pktmbuf_copy :: "mbuf \<Rightarrow> nat \<Rightarrow> u32 \<Rightarrow> u32 \<Rightarrow> 'w \<Rightarrow> mbuf option \<times> 'w"
  pktmbuf_free :: "mbuf \<Rightarrow> 'w \<Rightarrow> 'w"
  pktmbuf_free_bulk :: "mbuf list \<Rightarrow> 'w \<Rightarrow> 'w"
  timer_cycles :: "'w \<Rightarrow> u64 \<times> 'w"
  cycles_hz :: u64
  eth_stats_get :: "u16 \<Rightarrow> eth_stats \<Rightarrow> 'w \<Rightarrow> int \<times> eth_stats \<times> 'w"
  eth_stats_reset :: "u16 \<Rightarrow> 'w \<Rightarrow> int \<times> 'w"
  fopen :: "string \<Rightarrow> int + stream"
  net_hosts :: "net4 \<Rightarrow> u32 \<times> u32"
  inc_addr :: "u32 \<Rightarrow> u32"
  tx_flag_ipv4 :: u64
  tx_flag_ip_cksum :: u64
  tx_flag_tcp_cksum :: u64
  tx_flag_udp_cksum :: u64
  what_of :: "exn \<Rightarrow> string"
  path_append :: "string \<Rightarrow> string \<Rightarrow> string"
  render_nat :: "nat \<Rightarrow> string"
  socket_id :: u32
  lcore_id :: u32

record ('l, 'w) mgr =
  mg_pool :: nat
  mg_dev :: u16
  mg_out :: "inc_msg ring"
  mg_sched :: "'l sched"
  mg_gens :: "fgen list"
  mg_cycles :: "(cycles \<times> cycles) option"
  mg_tx :: "mbuf list"
  mg_qfull :: u64
  mg_nombuf :: u64
  mg_dir :: string
  mg_world :: 'w

definition nic_port_id :: u16 where "nic_port_id = 0"
definition cnt_burst_pkts :: nat where "cnt_burst_pkts = 64"

definition generation_started :: "('l, 'w) mgr \<Rightarrow> bool" where
  "generation_started m \<longleftrightarrow> mg_cycles m \<noteq> None"

text \<open>Whether the message fits the queue is not looked at.\<close>

definition reply :: "inc_msg \<Rightarrow> ('l, 'w) mgr \<Rightarrow> ('l, 'w) mgr" where
  "reply msg m = (case enqueue msg (mg_out m) of (ok, q) \<Rightarrow> m\<lparr>mg_out := q\<rparr>)"

definition mgr_now :: "('l, 'w) gen_libs \<Rightarrow> ('l, 'w) mgr \<Rightarrow> cycles \<times> ('l, 'w) mgr" where
  "mgr_now L m = (case timer_cycles L (mg_world m) of (n, w) \<Rightarrow> (Cycles n, m\<lparr>mg_world := w\<rparr>))"

subsection \<open>Sending and receiving\<close>

definition transmit_tx_pkts :: "('l, 'w) gen_libs \<Rightarrow> ('l, 'w) mgr \<Rightarrow> ('l, 'w) mgr" where
  "transmit_tx_pkts L m =
     (case transmit_pkts (nic_lib L) (mg_dev m) (mg_tx m) (mg_world m) of (cnt, w) \<Rightarrow>
        let m1 = m\<lparr>mg_world := w\<rparr>; cnt_all = length (mg_tx m) in
        (if cnt < cnt_all
         then m1\<lparr>mg_world := pktmbuf_free_bulk L (drop cnt (mg_tx m)) w,
                 mg_qfull := mg_qfull m + of_nat (cnt_all - cnt)\<rparr>
         else m1)\<lparr>mg_tx := []\<rparr>)"

definition receive_rx_pkts :: "('l, 'w) gen_libs \<Rightarrow> ('l, 'w) mgr \<Rightarrow> ('l, 'w) mgr" where
  "receive_rx_pkts L m =
     (case receive_pkts (nic_lib L) (mg_dev m) cnt_burst_pkts (mg_world m) of (pkts, w) \<Rightarrow>
        m\<lparr>mg_world := if 0 < length pkts then pktmbuf_free_bulk L pkts w else w\<rparr>)"

definition flush_tx :: "('l, 'w) gen_libs \<Rightarrow> ('l, 'w) mgr \<Rightarrow> ('l, 'w) mgr" where
  "flush_tx L m = (if mg_tx m \<noteq> [] then transmit_tx_pkts L m else m)"

subsection \<open>The interface of the generators\<close>

definition mgr_alloc_mbuf :: "('l, 'w) gen_libs \<Rightarrow> ('l, 'w) mgr \<Rightarrow> mbuf option \<times> ('l, 'w) mgr" where
  "mgr_alloc_mbuf L m =
     (case pktmbuf_alloc L (mg_pool m) (mg_world m) of (ret, w) \<Rightarrow>
        let m1 = m\<lparr>mg_world := w\<rparr> in
        (ret, if ret = None then m1\<lparr>mg_nombuf := mg_nombuf m1 + 1\<rparr> else m1))"

definition mgr_copy_pkt :: "('l, 'w) gen_libs \<Rightarrow> mbuf \<Rightarrow> ('l, 'w) mgr \<Rightarrow> mbuf option \<times> ('l, 'w) mgr" where
  "mgr_copy_pkt L pkt m =
     (case pktmbuf_copy L pkt (mg_pool m) 0 (pkt_len pkt) (mg_world m) of (ret, w) \<Rightarrow>
        let m1 = m\<lparr>mg_world := w\<rparr> in
        (ret, if ret = None then m1\<lparr>mg_nombuf := mg_nombuf m1 + 1\<rparr> else m1))"

definition mgr_send_pkt :: "('l, 'w) gen_libs \<Rightarrow> mbuf \<Rightarrow> ('l, 'w) mgr \<Rightarrow> ('l, 'w) mgr" where
  "mgr_send_pkt L pkt m =
     (let m1 = m\<lparr>mg_tx := mg_tx m @ [pkt]\<rparr> in
      if length (mg_tx m1) = cnt_burst_pkts then transmit_tx_pkts L m1 else m1)"

definition create_scheduler_event ::
  "('l, 'w) gen_libs \<Rightarrow> ('l, 'w) mgr \<Rightarrow> handle \<times> ('l, 'w) mgr" where
  "create_scheduler_event L m =
     (case handle_new (timers L) (mg_sched m) of (h, s) \<Rightarrow> (h, m\<lparr>mg_sched := s\<rparr>))"

definition mgmt_report :: "priv_report \<Rightarrow> generation_report" where
  "mgmt_report r =
     \<lparr>gr_tstamp = pr_tstamp r, gr_gen_idx = pr_gen_idx r, gr_flow_idx = pr_flow_idx r,
      gr_pkt_idx = pr_pkt_idx r, gr_pkt_len = pr_pkt_len r, gr_src_addr = pr_src_addr r,
      gr_dst_addr = pr_dst_addr r, gr_from_cln = pr_from_cln r, gr_ok = pr_ok r\<rparr>"

definition mgr_do_report :: "priv_report \<Rightarrow> ('l, 'w) mgr \<Rightarrow> ('l, 'w) mgr" where
  "mgr_do_report r m = reply (Generation_report (mgmt_report r)) m"

text \<open>The implementation of the interface, with the operations of event handles on the scheduler.\<close>

definition mgr_env :: "build \<Rightarrow> ('l, 'w) gen_libs \<Rightarrow> ('l, 'w) mgr gen_env" where
  "mgr_env bld L =
     \<lparr>alloc_mbuf = mgr_alloc_mbuf L, copy_pkt = mgr_copy_pkt L, send_pkt = mgr_send_pkt L,
      create_event = create_scheduler_event L, do_report = mgr_do_report,
      free_mbuf = (\<lambda>b m. m\<lparr>mg_world := pktmbuf_free L b (mg_world m)\<rparr>),
      current_cycles = mgr_now L,
      assign_event = (\<lambda>rhs this m. bind_res (assign_handle bld (timers L) rhs this (mg_sched m))
        (\<lambda>(rhs', this', s). Inr (rhs', this', m\<lparr>mg_sched := s\<rparr>))),
      destroy_event = (\<lambda>h m. bind_res (handle_destroy bld (timers L) h (mg_sched m))
        (\<lambda>s. Inr (m\<lparr>mg_sched := s\<rparr>))),
      schedule_event = (\<lambda>h rel c m.
        bind_res (handle_schedule bld (timers L) Single h rel c (mg_sched m))
          (\<lambda>s. Inr (m\<lparr>mg_sched := s\<rparr>))),
      timer_hz = cycles_hz L, open_file = fopen L, hosts = net_hosts L, next_addr = inc_addr L,
      flag_ipv4 = tx_flag_ipv4 L, flag_ip_cksum = tx_flag_ip_cksum L,
      flag_tcp_cksum = tx_flag_tcp_cksum L, flag_udp_cksum = tx_flag_udp_cksum L\<rparr>"

subsection \<open>Requests\<close>

definition destroy_gens ::
  "build \<Rightarrow> ('l, 'w) gen_libs \<Rightarrow> fgen list \<Rightarrow> ('l, 'w) mgr \<Rightarrow> ('l, 'w) mgr res" where
  "destroy_gens bld L gens m = fold_res (fgen_destroy (mgr_env bld L)) gens m"

definition stop_generation :: "build \<Rightarrow> ('l, 'w) gen_libs \<Rightarrow> ('l, 'w) mgr \<Rightarrow> ('l, 'w) mgr res" where
  "stop_generation bld L m =
     bind_res (destroy_gens bld L (mg_gens m) m) (\<lambda>m1.
     bind_res (tg_enforce bld (count_events (mg_sched m1) = 0)) (\<lambda>_.
       Inr (m1\<lparr>mg_gens := [], mg_cycles := None\<rparr>)))"

definition get_eth_stats :: "('l, 'w) gen_libs \<Rightarrow> ('l, 'w) mgr \<Rightarrow> stats \<times> ('l, 'w) mgr" where
  "get_eth_stats L m =
     (case eth_stats_get L nic_port_id eth_stats_zero (mg_world m) of (ret, tmp, w) \<Rightarrow>
        (\<lparr>cnt_rx_pkts = ipackets tmp, cnt_tx_pkts = opackets tmp, cnt_rx_bytes = ibytes tmp,
          cnt_tx_bytes = obytes tmp, cnt_rx_pkts_qfull = imissed tmp,
          cnt_rx_pkts_nombuf = rx_nombuf tmp, cnt_tx_pkts_qfull = mg_qfull m,
          cnt_tx_pkts_nombuf = mg_nombuf m, cnt_rx_pkts_err = ierrors tmp,
          cnt_tx_pkts_err = oerrors tmp\<rparr>, m\<lparr>mg_world := w\<rparr>))"

definition flows_generator_config ::
  "('l, 'w) gen_libs \<Rightarrow> string \<Rightarrow> ether_addr \<Rightarrow> ether_addr \<Rightarrow> u32 \<Rightarrow> flows_config \<Rightarrow> fgen_config" where
  "flows_generator_config L dir cln_ether dut idx c =
     \<lparr>fgc_idx = idx, fgc_cap_fpath = path_append L dir (fc_name c), fgc_cln_ether = cln_ether,
      fgc_srv_ether = dut, fgc_burst = fc_burst c, fgc_fps = fc_fps c, fgc_ipg = fc_ipg c,
      fgc_cln_ips = fc_cln_ips c, fgc_srv_ips = fc_srv_ips c, fgc_cln_port = fc_cln_port c\<rparr>"

text \<open>The loop over the captures: how it ended, the generators it has made, and the state.\<close>

fun make_gens ::
  "build \<Rightarrow> ('l, 'w) gen_libs \<Rightarrow> ether_addr \<Rightarrow> ether_addr \<Rightarrow> u32 \<Rightarrow> flows_config list \<Rightarrow> fgen list \<Rightarrow>
   ('l, 'w) mgr \<Rightarrow> unit res \<times> fgen list \<times> ('l, 'w) mgr" where
  "make_gens bld L cln_ether dut idx [] gens m = (Inr (), gens, m)"
| "make_gens bld L cln_ether dut idx (c # cs) gens m =
     (case fgen_new bld (mgr_env bld L) (flows_generator_config L (mg_dir m) cln_ether dut idx c) m of
        (Inl e, m1) \<Rightarrow> (Inl e, gens, m1)
      | (Inr g, m1) \<Rightarrow> make_gens bld L cln_ether dut (idx + 1) cs (gens @ [g]) m1)"

text \<open>
  The last part of the start handler, once the generators are made. The move assignment releases
  what \<open>generators_\<close> held.
\<close>

definition begin_generation ::
  "build \<Rightarrow> ('l, 'w) gen_libs \<Rightarrow> gen_config \<Rightarrow> fgen list \<Rightarrow> ('l, 'w) mgr \<Rightarrow> ('l, 'w) mgr res" where
  "begin_generation bld L cfg gens m =
     bind_res (tg_enforce bld (mg_gens m = [])) (\<lambda>_.
     bind_res (destroy_gens bld L (mg_gens m) m) (\<lambda>m1.
       let m2 = m1\<lparr>mg_gens := gens\<rparr> in
       case eth_stats_reset L nic_port_id (mg_world m2) of (err, w) \<Rightarrow>
       let m3 = (if err = 0 then m2\<lparr>mg_world := w, mg_qfull := 0, mg_nombuf := 0\<rparr>
                 else m2\<lparr>mg_world := w\<rparr>) in
       bind_res (tg_enforce bld (mg_cycles m3 = None)) (\<lambda>_.
         case mgr_now L m3 of (now, m4) \<Rightarrow>
           Inr (reply (Res_start_generation None)
             (m4\<lparr>mg_cycles := Some (now, from_duration (cycles_hz L) (Milliseconds (gc_duration cfg)))\<rparr>)))))"

text \<open>A failing construction is answered first; the local generators are destroyed on return.\<close>

definition on_start_generation ::
  "build \<Rightarrow> ('l, 'w) gen_libs \<Rightarrow> gen_config \<Rightarrow> ('l, 'w) mgr \<Rightarrow> ('l, 'w) mgr res" where
  "on_start_generation bld L cfg m =
     (if generation_started m
      then Inr (reply (Res_start_generation (Some ''Already started'')) m)
      else
        bind_res (get_mac_addr (nic_lib L) (mg_dev m) (mg_world m)) (\<lambda>(mac, w).
          case make_gens bld L mac (gc_dut_addr cfg) 0 (gc_flows cfg) [] (m\<lparr>mg_world := w\<rparr>) of
            (Inr _, gens, m1) \<Rightarrow> begin_generation bld L cfg gens m1
          | (Inl (Thrown x), gens, m1) \<Rightarrow>
              destroy_gens bld L gens (reply (Res_start_generation (Some (what_of L x))) m1)
          | (Inl e, gens, m1) \<Rightarrow> Inl e))"

definition flow_entry :: "fgen \<Rightarrow> flow \<Rightarrow> stats_entry" where
  "flow_entry g fl =
     \<lparr>se_gen_idx = fg_idx g, se_flow_idx = fl_idx fl, se_cnt_pkts = fl_cnt_pkts fl,
      se_cnt_bytes = fl_cnt_bytes fl, se_duration = fl_tstamp_end fl - fl_tstamp_beg fl\<rparr>"

definition detailed_stats :: "fgen list \<Rightarrow> stats_entry list" where
  "detailed_stats gens = concat (map (\<lambda>g. map (flow_entry g) (fg_flows g)) gens)"

definition on_stop_generation :: "build \<Rightarrow> ('l, 'w) gen_libs \<Rightarrow> ('l, 'w) mgr \<Rightarrow> ('l, 'w) mgr res" where
  "on_stop_generation bld L m =
     (let det = detailed_stats (mg_gens m) in
      bind_res (stop_generation bld L m) (\<lambda>m1.
        case get_eth_stats L m1 of (st, m2) \<Rightarrow>
          Inr (reply (Res_stop_generation \<lparr>summary = st, detailed = det\<rparr>) m2)))"

definition on_stats_report :: "('l, 'w) gen_libs \<Rightarrow> ('l, 'w) mgr \<Rightarrow> ('l, 'w) mgr" where
  "on_stats_report L m = (case get_eth_stats L m of (st, m1) \<Rightarrow> reply (Res_stats_report st) m1)"

fun gen_on_msg :: "build \<Rightarrow> ('l, 'w) gen_libs \<Rightarrow> out_msg \<Rightarrow> ('l, 'w) mgr \<Rightarrow> ('l, 'w) mgr res" where
  "gen_on_msg bld L (Req_start_generation cfg) m = noexcept (on_start_generation bld L cfg m)"
| "gen_on_msg bld L Req_stop_generation m = noexcept (on_stop_generation bld L m)"
| "gen_on_msg bld L Req_stats_report m = Inr (on_stats_report L m)"

subsection \<open>One round of the generation thread\<close>

text \<open>The callback of an event: its context names the flow.\<close>

definition run_flow ::
  "build \<Rightarrow> ('l, 'w) gen_libs \<Rightarrow> ctx \<Rightarrow> 'l sched \<times> ('l, 'w) mgr \<Rightarrow> ('l sched \<times> ('l, 'w) mgr) res" where
  "run_flow bld L c sm =
     (case c of (pos, i) \<Rightarrow> case sm of (s, m) \<Rightarrow>
        if length (mg_gens m) \<le> pos then Inl Undefined
        else bind_res (noexcept (on_flow_event (mgr_env bld L) i (mg_gens m ! pos) (m\<lparr>mg_sched := s\<rparr>)))
               (\<lambda>(g, m1). Inr (mg_sched m1, m1\<lparr>mg_gens := (mg_gens m1)[pos := g]\<rparr>)))"

definition run_scheduler :: "build \<Rightarrow> ('l, 'w) gen_libs \<Rightarrow> ('l, 'w) mgr \<Rightarrow> ('l, 'w) mgr res" where
  "run_scheduler bld L m =
     (case mgr_now L m of (now, m1) \<Rightarrow>
        bind_res (sched_process_events (timers L) (run_flow bld L) now (mg_sched m1, m1)) (\<lambda>(s, m2).
          Inr (m2\<lparr>mg_sched := s\<rparr>)))"

text \<open>
  What follows the messages in a round: the received packets are thrown away; without a generation
  nothing may wait for transmission and no timer may exist; at the end of its time the generation is
  stopped, before it the due events run.
\<close>

definition after_messages :: "build \<Rightarrow> ('l, 'w) gen_libs \<Rightarrow> ('l, 'w) mgr \<Rightarrow> ('l, 'w) mgr res" where
  "after_messages bld L m1 =
     (let m2 = receive_rx_pkts L m1 in
      case mg_cycles m2 of
        None \<Rightarrow>
          bind_res (tg_enforce bld (mg_tx m2 = [])) (\<lambda>_.
          bind_res (tg_enforce bld (count_events (mg_sched m2) = 0)) (\<lambda>_. Inr m2))
      | Some (first, duration) \<Rightarrow>
          (case mgr_now L m2 of (now, m3) \<Rightarrow>
             if duration < now - first
             then bind_res (stop_generation bld L m3) (\<lambda>m4. Inr (flush_tx L m4))
             else bind_res (run_scheduler bld L m3) (\<lambda>m4. Inr (flush_tx L m4))))"

definition gen_process_events ::
  "build \<Rightarrow> ('l, 'w) gen_libs \<Rightarrow> out_msg ring \<times> ('l, 'w) mgr \<Rightarrow> (out_msg ring \<times> ('l, 'w) mgr) res" where
  "gen_process_events bld L qm =
     bind_res (dequeue (gen_on_msg bld L) qm) (\<lambda>(q, m1).
       bind_res (after_messages bld L m1) (\<lambda>m'. Inr (q, m')))"

subsection \<open>Construction and destruction\<close>

record mgr_config =
  mc_working_dir :: string
  mc_max_cnt_mbufs :: u32
  mc_nic_queue_size :: u16

definition gen_mgr_new ::
  "('l, 'w) gen_libs \<Rightarrow> mgr_config \<Rightarrow> inc_msg ring \<Rightarrow> 'w \<Rightarrow> ('l, 'w) mgr res \<times> 'w" where
  "gen_mgr_new L cfg outq w =
     (case mbuf_pool_new (pools L) (render_nat L)
             \<lparr>pc_cnt_mbufs = mc_max_cnt_mbufs cfg, pc_socket = socket_id L\<rparr> w of
        (Inl e, w1) \<Rightarrow> (Inl e, w1)
      | (Inr pool, w1) \<Rightarrow>
          (case eth_new (nic_lib L) (render_nat L)
                  \<lparr>ec_port = nic_port_id, ec_queue_size = mc_nic_queue_size cfg, ec_socket = socket_id L\<rparr> w1 of
             (Inl e, w2) \<Rightarrow> (Inl e, mbuf_pool_destroy (pools L) pool w2)
           | (Inr dev, w2) \<Rightarrow>
               (Inr \<lparr>mg_pool = pool, mg_dev = dev, mg_out = outq,
                     mg_sched = sched_new (timers L) (cycles_hz L) (lcore_id L), mg_gens = [],
                     mg_cycles = None, mg_tx = [], mg_qfull = 0, mg_nombuf = 0,
                     mg_dir = mc_working_dir cfg, mg_world = w2\<rparr>, w2)))"

text \<open>The members are destroyed in the reverse order of their declaration; the result is the world.\<close>

definition gen_mgr_destroy :: "build \<Rightarrow> ('l, 'w) gen_libs \<Rightarrow> ('l, 'w) mgr \<Rightarrow> 'w res" where
  "gen_mgr_destroy bld L m =
     bind_res (destroy_gens bld L (mg_gens m) m) (\<lambda>m1.
     bind_res (sched_destroy bld (mg_sched m1)) (\<lambda>_.
       Inr (mbuf_pool_destroy (pools L) (mg_pool m1)
              (eth_destroy (nic_lib L) (mg_dev m1) (mg_world m1)))))"

subsection \<open>The contract holds for the manager's operations\<close>

text \<open>
  What the libraries document: the timers as in \<open>timers_documented\<close>, an Ethernet address has six
  bytes, and the first segment of a copy holds the headers when the first segment of the packet does.
\<close>

definition libs_documented ::
  "('l, 'w) gen_libs \<Rightarrow> ('l \<Rightarrow> timer set) \<Rightarrow> ('l \<Rightarrow> timer \<Rightarrow> ctx option) \<Rightarrow> bool" where
  "libs_documented L bs ar \<longleftrightarrow>
     timers_documented (timers L) bs ar \<and>
     (\<forall>p w. length (fst (macaddr_get (nic_lib L) p w)) = 6) \<and>
     (\<forall>b pool w c w'. pktmbuf_copy L b pool 0 (pkt_len b) w = (Some c, w') \<longrightarrow>
        34 \<le> length (mb_data b) \<longrightarrow> 34 \<le> length (mb_data c))"

definition mgr_inv ::
  "('l, 'w) gen_libs \<Rightarrow> ('l \<Rightarrow> timer set) \<Rightarrow> ('l \<Rightarrow> timer \<Rightarrow> ctx option) \<Rightarrow> (timer \<Rightarrow> ctx option) \<Rightarrow>
   ('l, 'w) mgr \<Rightarrow> bool" where
  "mgr_inv L bs ar own m \<longleftrightarrow>
     libs_documented L bs ar \<and> sched_ok ar own (mg_sched m) \<and> length (mg_tx m) < cnt_burst_pkts \<and>
     ring_inv (mg_out m) \<and> length (buff (mg_out m)) = 256 \<and> eth_is_valid (mg_dev m)"

text \<open>What constructing and destroying generators leaves alone, and what running events does.\<close>

definition same_setup_state :: "('l, 'w) mgr \<Rightarrow> ('l, 'w) mgr \<Rightarrow> bool" where
  "same_setup_state m0 m \<longleftrightarrow>
     mg_gens m = mg_gens m0 \<and> mg_cycles m = mg_cycles m0 \<and> mg_tx m = mg_tx m0 \<and>
     mg_out m = mg_out m0 \<and> mg_dir m = mg_dir m0 \<and> mg_qfull m = mg_qfull m0 \<and>
     mg_dev m = mg_dev m0 \<and> mg_pool m = mg_pool m0"

definition same_run_state :: "('l, 'w) mgr \<Rightarrow> ('l, 'w) mgr \<Rightarrow> bool" where
  "same_run_state m0 m \<longleftrightarrow>
     mg_gens m = mg_gens m0 \<and> mg_cycles m = mg_cycles m0 \<and>
     (\<exists>rs. contents (mg_out m) = contents (mg_out m0) @ map Generation_report rs)"

lemma same_setup_refl [simp]: "same_setup_state m m"
  by (simp add: same_setup_state_def)

lemma same_run_refl [simp]: "same_run_state m m"
  by (simp add: same_run_state_def)

lemma mgr_invD:
  assumes "mgr_inv L bs ar own m"
  shows "timers_documented (timers L) bs ar" "sched_ok ar own (mg_sched m)"
    "ring_inv (mg_out m)" "length (buff (mg_out m)) = 256" "eth_is_valid (mg_dev m)"
    "length (mg_tx m) < 64"
  using assms by (simp_all add: mgr_inv_def libs_documented_def cnt_burst_pkts_def)

text \<open>The invariant does not depend on the fields that are updated freely.\<close>

lemma mgr_inv_update [simp]:
  "mgr_inv L bs ar own (m\<lparr>mg_world := w\<rparr>) \<longleftrightarrow> mgr_inv L bs ar own m"
  "mgr_inv L bs ar own (m\<lparr>mg_nombuf := n\<rparr>) \<longleftrightarrow> mgr_inv L bs ar own m"
  "mgr_inv L bs ar own (m\<lparr>mg_qfull := n\<rparr>) \<longleftrightarrow> mgr_inv L bs ar own m"
  "mgr_inv L bs ar own (m\<lparr>mg_gens := gs\<rparr>) \<longleftrightarrow> mgr_inv L bs ar own m"
  "mgr_inv L bs ar own (m\<lparr>mg_cycles := c\<rparr>) \<longleftrightarrow> mgr_inv L bs ar own m"
  by (simp_all add: mgr_inv_def)

lemma mgr_inv_sched:
  "mgr_inv L bs ar own m \<Longrightarrow> sched_ok ar own' s \<Longrightarrow> mgr_inv L bs ar own' (m\<lparr>mg_sched := s\<rparr>)"
  by (simp add: mgr_inv_def)

lemma mgr_inv_tx: "mgr_inv L bs ar own m \<Longrightarrow> length tx < 64 \<Longrightarrow> mgr_inv L bs ar own (m\<lparr>mg_tx := tx\<rparr>)"
  by (simp add: mgr_inv_def cnt_burst_pkts_def)

lemma same_setup_update [simp]:
  "same_setup_state m0 (m\<lparr>mg_world := w\<rparr>) \<longleftrightarrow> same_setup_state m0 m"
  "same_setup_state m0 (m\<lparr>mg_nombuf := n\<rparr>) \<longleftrightarrow> same_setup_state m0 m"
  "same_setup_state m0 (m\<lparr>mg_sched := s\<rparr>) \<longleftrightarrow> same_setup_state m0 m"
  by (simp_all add: same_setup_state_def)

lemma same_run_update [simp]:
  "same_run_state m0 (m\<lparr>mg_world := w\<rparr>) \<longleftrightarrow> same_run_state m0 m"
  "same_run_state m0 (m\<lparr>mg_nombuf := n\<rparr>) \<longleftrightarrow> same_run_state m0 m"
  "same_run_state m0 (m\<lparr>mg_qfull := n\<rparr>) \<longleftrightarrow> same_run_state m0 m"
  "same_run_state m0 (m\<lparr>mg_tx := tx\<rparr>) \<longleftrightarrow> same_run_state m0 m"
  "same_run_state m0 (m\<lparr>mg_sched := s\<rparr>) \<longleftrightarrow> same_run_state m0 m"
  by (simp_all add: same_run_state_def)

text \<open>Replying appends the message when the queue has room and changes nothing else.\<close>

lemma reply_fields [simp]:
  "mg_gens (reply msg m) = mg_gens m" "mg_cycles (reply msg m) = mg_cycles m"
  "mg_tx (reply msg m) = mg_tx m" "mg_sched (reply msg m) = mg_sched m"
  "mg_dev (reply msg m) = mg_dev m" "mg_world (reply msg m) = mg_world m"
  "mg_dir (reply msg m) = mg_dir m" "mg_qfull (reply msg m) = mg_qfull m"
  by (simp_all add: reply_def split: prod.split)

lemma reply_contents:
  assumes "mgr_inv L bs ar own m"
  shows "mgr_inv L bs ar own (reply msg m)"
    and "contents (mg_out (reply msg m)) =
      (if length (contents (mg_out m)) < 256 then contents (mg_out m) @ [msg] else contents (mg_out m))"
proof -
  note m = mgr_invD [OF assms]
  obtain q where q: "enqueue msg (mg_out m) = (length (contents (mg_out m)) < length (buff (mg_out m)), q)"
    "ring_inv q" "length (buff q) = length (buff (mg_out m))"
    "contents q = (if length (contents (mg_out m)) < length (buff (mg_out m))
       then contents (mg_out m) @ [msg] else contents (mg_out m))"
    using enqueue_spec [OF m(3)] by blast
  show "mgr_inv L bs ar own (reply msg m)"
    using assms q(1-3) m(4) by (simp add: mgr_inv_def reply_def)
  show "contents (mg_out (reply msg m)) =
      (if length (contents (mg_out m)) < 256 then contents (mg_out m) @ [msg] else contents (mg_out m))"
    using q m(4) by (simp add: reply_def)
qed

lemma transmit_fields:
  "mg_tx (transmit_tx_pkts L m) = []" "mg_gens (transmit_tx_pkts L m) = mg_gens m"
  "mg_cycles (transmit_tx_pkts L m) = mg_cycles m" "mg_out (transmit_tx_pkts L m) = mg_out m"
  "mg_sched (transmit_tx_pkts L m) = mg_sched m" "mg_dev (transmit_tx_pkts L m) = mg_dev m"
  by (simp_all add: transmit_tx_pkts_def Let_def split: prod.split)

lemma transmit_inv: "mgr_inv L bs ar own m \<Longrightarrow> mgr_inv L bs ar own (transmit_tx_pkts L m)"
  by (simp add: mgr_inv_def transmit_fields cnt_burst_pkts_def)

lemma send_pkt_inv:
  assumes "mgr_inv L bs ar own m"
  shows "mgr_inv L bs ar own (mgr_send_pkt L b m)"
  using mgr_invD(6) [OF assms] assms
  by (auto simp: mgr_send_pkt_def Let_def cnt_burst_pkts_def mgr_inv_def transmit_fields)

lemma send_pkt_fields:
  "mg_gens (mgr_send_pkt L b m) = mg_gens m" "mg_cycles (mgr_send_pkt L b m) = mg_cycles m"
  "mg_out (mgr_send_pkt L b m) = mg_out m" "mg_sched (mgr_send_pkt L b m) = mg_sched m"
  by (simp_all add: mgr_send_pkt_def Let_def transmit_fields)

text \<open>
  The laws hold for every frame \<open>F\<close> that the operations keep; the busy timers are those of the
  timer library.
\<close>

definition mgr_busy :: "('l \<Rightarrow> timer set) \<Rightarrow> ('l, 'w) mgr \<Rightarrow> timer set" where
  "mgr_busy bs m = bs (lib_state (mg_sched m))"

lemma mgr_busy_simps [simp]:
  "mgr_busy bs (m\<lparr>mg_world := w\<rparr>) = mgr_busy bs m" "mgr_busy bs (m\<lparr>mg_nombuf := n\<rparr>) = mgr_busy bs m"
  "mgr_busy bs (m\<lparr>mg_qfull := n\<rparr>) = mgr_busy bs m" "mgr_busy bs (m\<lparr>mg_tx := tx\<rparr>) = mgr_busy bs m"
  "mgr_busy bs (m\<lparr>mg_gens := gs\<rparr>) = mgr_busy bs m" "mgr_busy bs (m\<lparr>mg_cycles := c\<rparr>) = mgr_busy bs m"
  "mgr_busy bs (m\<lparr>mg_sched := s\<rparr>) = bs (lib_state s)" "mgr_busy bs (reply msg m) = mgr_busy bs m"
  "mgr_busy bs (transmit_tx_pkts L m) = mgr_busy bs m" "mgr_busy bs (mgr_send_pkt L b m) = mgr_busy bs m"
  by (simp_all add: mgr_busy_def transmit_fields send_pkt_fields)

lemma mgr_setup_ops:
  assumes F: "\<And>m w. F (m\<lparr>mg_world := w\<rparr>) = F m" "\<And>m n. F (m\<lparr>mg_nombuf := n\<rparr>) = F m"
    "\<And>m s. F (m\<lparr>mg_sched := s\<rparr>) = F m"
  shows "setup_ops (mgr_env as_meant L) (\<lambda>own m. mgr_inv L bs ar own m \<and> F m) (mgr_busy bs)"
proof
  fix own m r m'
  assume "mgr_inv L bs ar own m \<and> F m" "alloc_mbuf (mgr_env as_meant L) m = (r, m')"
  then show "(mgr_inv L bs ar own m' \<and> F m') \<and> mgr_busy bs m' = mgr_busy bs m"
    by (auto simp: mgr_env_def mgr_alloc_mbuf_def Let_def F split: prod.splits if_splits)
next
  fix own m b
  assume "mgr_inv L bs ar own m \<and> F m"
  then show "(mgr_inv L bs ar own (free_mbuf (mgr_env as_meant L) b m) \<and>
      F (free_mbuf (mgr_env as_meant L) b m)) \<and>
      mgr_busy bs (free_mbuf (mgr_env as_meant L) b m) = mgr_busy bs m"
    by (simp add: mgr_env_def F)
next
  fix own m
  assume m: "mgr_inv L bs ar own m \<and> F m"
  obtain h s where h: "handle_new (timers L) (mg_sched m) = (h, s)" by force
  note ok = handle_new_ok [OF mgr_invD(1,2) [OF conjunct1 [OF m]] h]
  have "h = \<lparr>tmr = Some (next_tmr (mg_sched m)), has_scheduler = True\<rparr>"
    using ok(1,2) by (cases h) simp
  then have "create_event (mgr_env as_meant L) m =
      (\<lparr>tmr = Some (next_tmr (mg_sched m)), has_scheduler = True\<rparr>, m\<lparr>mg_sched := s\<rparr>)"
    by (simp add: mgr_env_def create_scheduler_event_def h)
  moreover have "mgr_inv L bs ar (own(next_tmr (mg_sched m) \<mapsto> c)) (m\<lparr>mg_sched := s\<rparr>)" for c
    by (rule mgr_inv_sched [OF conjunct1 [OF m] ok(4)])
  ultimately show "\<exists>t m'. create_event (mgr_env as_meant L) m =
      (\<lparr>tmr = Some t, has_scheduler = True\<rparr>, m') \<and> t \<notin> dom own \<and>
      (\<forall>c. mgr_inv L bs ar (own(t \<mapsto> c)) m' \<and> F m') \<and> mgr_busy bs m' = mgr_busy bs m"
    using ok(3,5) m by (auto simp: F mgr_busy_def)
next
  fix own m rhs and this :: handle
  assume "mgr_inv L bs ar own m \<and> F m" "tmr this = None"
  then show "assign_event (mgr_env as_meant L) rhs this m = Inr (handle_empty, rhs, m)"
    by (simp add: mgr_env_def assign_handle_empty)
next
  fix own m and h :: handle
  assume "mgr_inv L bs ar own m \<and> F m" "tmr h = None"
  then show "destroy_event (mgr_env as_meant L) h m = Inr m"
    by (simp add: mgr_env_def handle_destroy_def)
next
  fix own m t and h :: handle
  assume m: "mgr_inv L bs ar own m \<and> F m" and h: "tmr h = Some t" "has_scheduler h"
    and t: "t \<in> dom own" "t \<notin> mgr_busy bs m"
  obtain s where s: "ret_timer as_meant (timers L) t (mg_sched m) = Inr s" "sched_ok ar (own(t := None)) s"
    "bs (lib_state s) = bs (lib_state (mg_sched m))"
    using ret_timer_ok [OF mgr_invD(1,2) [OF conjunct1 [OF m]] t(1)] t(2)
    by (auto simp: mgr_busy_def)
  have "mgr_inv L bs ar (own(t := None)) (m\<lparr>mg_sched := s\<rparr>)"
    by (rule mgr_inv_sched [OF conjunct1 [OF m] s(2)])
  then show "\<exists>m'. destroy_event (mgr_env as_meant L) h m = Inr m' \<and>
      (mgr_inv L bs ar (own(t := None)) m' \<and> F m') \<and> mgr_busy bs m' = mgr_busy bs m"
    using h s m by (simp add: mgr_env_def handle_destroy_def F mgr_busy_def)
next
  fix own m t c rel and h :: handle
  assume m: "mgr_inv L bs ar own m \<and> F m" and h: "tmr h = Some t" "has_scheduler h"
    and t: "own t = Some c" "t \<notin> mgr_busy bs m"
  obtain s where s: "handle_schedule as_meant (timers L) Single h rel c (mg_sched m) = Inr s"
    "sched_ok ar own s" "bs (lib_state s) = bs (lib_state (mg_sched m))"
    using handle_schedule_ok [OF mgr_invD(1,2) [OF conjunct1 [OF m]] h(2,1) t(1), where ty = Single and rel = rel] t(2)
    by (auto simp: mgr_busy_def)
  have "mgr_inv L bs ar own (m\<lparr>mg_sched := s\<rparr>)"
    by (rule mgr_inv_sched [OF conjunct1 [OF m] s(2)])
  then show "\<exists>m'. schedule_event (mgr_env as_meant L) h rel c m = Inr m' \<and>
      (mgr_inv L bs ar own m' \<and> F m') \<and> mgr_busy bs m' = mgr_busy bs m"
    using s m by (simp add: mgr_env_def F mgr_busy_def)
qed

lemma copy_documented:
  "\<lbrakk>libs_documented L bs ar; pktmbuf_copy L b pool 0 (pkt_len b) w = (Some c, w'); 34 \<le> length (mb_data b)\<rbrakk> \<Longrightarrow>
     34 \<le> length (mb_data c)"
  unfolding libs_documented_def by blast

text \<open>Construction and destruction leave the queues and the generators alone.\<close>

interpretation quiet: setup_ops "mgr_env as_meant L"
    "\<lambda>own m. mgr_inv L bs ar own m \<and> same_setup_state m0 m" "mgr_busy bs"
  for L :: "('l, 'w) gen_libs" and bs ar m0
  by (rule mgr_setup_ops) simp_all

text \<open>Events send packets, and put nothing but reports into the queue.\<close>

interpretation run: generation_ops "mgr_env as_meant L"
    "\<lambda>own m. mgr_inv L bs ar own m \<and> same_run_state m0 m" "mgr_busy bs"
  for L :: "('l, 'w) gen_libs" and bs ar m0
proof (rule generation_ops.intro, rule mgr_setup_ops, simp_all, unfold_locales)
  fix own m b r m'
  assume m: "mgr_inv L bs ar own m \<and> same_run_state m0 m"
    and c: "copy_pkt (mgr_env as_meant L) b m = (r, m')"
  then have "case r of None \<Rightarrow> True | Some c \<Rightarrow> 34 \<le> length (mb_data b) \<longrightarrow> 34 \<le> length (mb_data c)"
    using copy_documented [of L bs ar b "mg_pool m" "mg_world m"]
    by (auto simp: mgr_inv_def mgr_env_def mgr_copy_pkt_def Let_def split: prod.splits option.splits)
  moreover have "(mgr_inv L bs ar own m' \<and> same_run_state m0 m') \<and> mgr_busy bs m' = mgr_busy bs m"
    using m c by (auto simp: mgr_env_def mgr_copy_pkt_def Let_def split: prod.splits if_splits)
  ultimately show "(mgr_inv L bs ar own m' \<and> same_run_state m0 m') \<and> mgr_busy bs m' = mgr_busy bs m \<and>
      (case r of None \<Rightarrow> True | Some c \<Rightarrow> 34 \<le> length (mb_data b) \<longrightarrow> 34 \<le> length (mb_data c))" by simp
next
  fix own m b
  assume "mgr_inv L bs ar own m \<and> same_run_state m0 m"
  then show "(mgr_inv L bs ar own (send_pkt (mgr_env as_meant L) b m) \<and>
      same_run_state m0 (send_pkt (mgr_env as_meant L) b m)) \<and>
      mgr_busy bs (send_pkt (mgr_env as_meant L) b m) = mgr_busy bs m"
    by (simp add: mgr_env_def send_pkt_inv) (simp add: same_run_state_def send_pkt_fields)
next
  fix own m rep
  assume m: "mgr_inv L bs ar own m \<and> same_run_state m0 m"
  then obtain rs where rs: "contents (mg_out m) = contents (mg_out m0) @ map Generation_report rs"
    by (auto simp: same_run_state_def)
  have "contents (mg_out (mgr_do_report rep m)) =
      (if length (contents (mg_out m)) < 256
       then contents (mg_out m0) @ map Generation_report (rs @ [mgmt_report rep])
       else contents (mg_out m0) @ map Generation_report rs)"
    using reply_contents(2) [OF conjunct1 [OF m]] rs by (simp add: mgr_do_report_def)
  then have "\<exists>rs. contents (mg_out (mgr_do_report rep m)) = contents (mg_out m0) @ map Generation_report rs"
    by (metis (full_types))
  then show "(mgr_inv L bs ar own (do_report (mgr_env as_meant L) rep m) \<and>
      same_run_state m0 (do_report (mgr_env as_meant L) rep m)) \<and>
      mgr_busy bs (do_report (mgr_env as_meant L) rep m) = mgr_busy bs m"
    using m reply_contents(1) [OF conjunct1 [OF m]]
    by (simp add: mgr_env_def same_run_state_def mgr_do_report_def)
next
  fix own m ts m'
  assume "mgr_inv L bs ar own m \<and> same_run_state m0 m" "current_cycles (mgr_env as_meant L) m = (ts, m')"
  then show "(mgr_inv L bs ar own m' \<and> same_run_state m0 m') \<and> mgr_busy bs m' = mgr_busy bs m"
    by (auto simp: mgr_env_def mgr_now_def split: prod.splits)
qed

subsection \<open>Generators and the timers they own\<close>

text \<open>
  Every generator is sound, knows its position and owns the timers of its flows; every timer belongs
  to a generator.
\<close>

definition gens_ok :: "(timer \<Rightarrow> ctx option) \<Rightarrow> fgen list \<Rightarrow> bool" where
  "gens_ok own gens \<longleftrightarrow>
     (\<forall>pos < length gens. fgen_ok (gens ! pos) \<and> unat (fg_idx (gens ! pos)) = pos \<and>
        flows_own own pos (fg_flows (gens ! pos))) \<and>
     (\<forall>t c. own t = Some c \<longrightarrow> fst c < length gens)"

lemma gens_okD:
  assumes "gens_ok own gens" "pos < length gens"
  shows "fgen_ok (gens ! pos)" "unat (fg_idx (gens ! pos)) = pos"
    "flows_own own pos (fg_flows (gens ! pos))"
  using assms by (simp_all add: gens_ok_def)

lemma gens_ok_ownD: "gens_ok own gens \<Longrightarrow> own t = Some c \<Longrightarrow> fst c < length gens"
  unfolding gens_ok_def by blast

lemma gens_ok_Nil: "gens_ok own [] \<longleftrightarrow> own = Map.empty"
  by (auto simp: gens_ok_def fun_eq_iff intro: option.exhaust)

lemma flows_own_cong:
  assumes "\<And>t c. fst c = pos \<Longrightarrow> own t = Some c \<longleftrightarrow> own' t = Some c"
  shows "flows_own own pos flows \<longleftrightarrow> flows_own own' pos flows"
  using assms by (simp add: flows_own_def)

lemma gens_ok_snoc:
  assumes "gens_ok own gens" and "fgen_ok g" "unat (fg_idx g) = length gens"
    and "flows_own own' (length gens) (fg_flows g)"
    and other: "\<And>t c. fst c \<noteq> length gens \<Longrightarrow> own' t = Some c \<longleftrightarrow> own t = Some c"
  shows "gens_ok own' (gens @ [g])"
proof -
  have "flows_own own' pos (fg_flows (gens ! pos))" if "pos < length gens" for pos
    using gens_okD(3) [OF assms(1) that] flows_own_cong [of pos own own'] other that by auto
  moreover have "fst c < Suc (length gens)" if "own' t = Some c" for t c
    using other [of c t] that gens_ok_ownD [OF assms(1), of t c]
    by (cases "fst c = length gens") (simp_all add: less_Suc_eq)
  ultimately show ?thesis
    using assms(1-4) by (auto simp: gens_ok_def nth_append less_Suc_eq)
qed

lemma gens_ok_update:
  assumes "gens_ok own gens" "pos < length gens" "fgen_ok g" "unat (fg_idx g) = pos"
    "flows_own own pos (fg_flows g)"
  shows "gens_ok own (gens[pos := g])"
  using assms by (auto simp: gens_ok_def nth_list_update)

text \<open>Destroying generators front to back: what the ones from position \<open>j\<close> on still own.\<close>

definition own_from :: "(timer \<Rightarrow> ctx option) \<Rightarrow> nat \<Rightarrow> timer \<Rightarrow> ctx option" where
  "own_from own j t = (case own t of None \<Rightarrow> None | Some c \<Rightarrow> if fst c < j then None else Some c)"

lemma own_from_Some: "own_from own j t = Some c \<longleftrightarrow> own t = Some c \<and> j \<le> fst c"
  by (auto simp: own_from_def split: option.split)

lemma own_from_0: "own_from own 0 = own"
  by (rule ext) (simp add: own_from_def split: option.split)

lemma own_from_all: "gens_ok own gens \<Longrightarrow> own_from own (length gens) = Map.empty"
  by (rule ext) (auto simp: own_from_def gens_ok_def split: option.split)

lemma own_from_drop:
  "(\<lambda>t. case own_from own j t of None \<Rightarrow> None | Some c \<Rightarrow> if fst c = j then None else Some c) =
     own_from own (Suc j)"
  by (rule ext) (auto simp: own_from_def split: option.split)

lemma destroy_gens_from:
  assumes ok: "gens_ok own gens"
  shows "\<lbrakk>mgr_inv L bs ar (own_from own j) m \<and> same_setup_state m0 m; mgr_busy bs m = {}; j \<le> length gens\<rbrakk> \<Longrightarrow>
    \<exists>m'. fold_res (fgen_destroy (mgr_env as_meant L)) (drop j gens) m = Inr m' \<and>
      (mgr_inv L bs ar (own_from own (length gens)) m' \<and> same_setup_state m0 m') \<and> mgr_busy bs m' = {}"
proof (induction "length gens - j" arbitrary: j m)
  case 0
  then show ?case by auto
next
  case (Suc n)
  then have j: "j < length gens" by simp
  have "flows_own (own_from own j) j (fg_flows (gens ! j))"
    using gens_okD(3) [OF ok j] flows_own_cong [of j "own_from own j" own] by (auto simp: own_from_Some)
  from quiet.fgen_destroy_ok [OF Suc.prems(1,2) this] obtain m1 where
    m1: "fgen_destroy (mgr_env as_meant L) (gens ! j) m = Inr m1" "mgr_busy bs m1 = {}"
    "mgr_inv L bs ar (own_from own (Suc j)) m1 \<and> same_setup_state m0 m1"
    unfolding own_from_drop by blast
  have "n = length gens - Suc j" "Suc j \<le> length gens" using Suc.hyps(2) j by simp_all
  from Suc.hyps(1) [OF this(1) m1(3,2) this(2)] m1(1) show ?case
    by (simp flip: Cons_nth_drop_Suc [OF j])
qed

lemma destroy_gens_ok:
  assumes "mgr_inv L bs ar own m" "mgr_busy bs m = {}" "gens_ok own gens"
  shows "\<exists>m'. destroy_gens as_meant L gens m = Inr m' \<and> mgr_inv L bs ar Map.empty m' \<and>
    same_setup_state m m' \<and> mgr_busy bs m' = {}"
  using destroy_gens_from [OF assms(3), of L bs ar 0 m m] assms
  by (auto simp: own_from_0 own_from_all destroy_gens_def)

lemma make_gens_ok:
  assumes addrs: "length cln_ether = 6" "length dut = 6"
  shows "\<lbrakk>mgr_inv L bs ar own m \<and> same_setup_state m0 m; mgr_busy bs m = {}; gens_ok own gens;
      unat idx = length gens; length gens + length cs < 2 ^ 32; \<forall>c \<in> set cs. flows_config_ok c;
      make_gens as_meant L cln_ether dut idx cs gens m = (r, gens', m')\<rbrakk> \<Longrightarrow>
    (r = Inr () \<and> length gens' = length gens + length cs \<or> (\<exists>x. r = Inl (Thrown x))) \<and>
    (\<exists>own'. (mgr_inv L bs ar own' m' \<and> same_setup_state m0 m') \<and> mgr_busy bs m' = {} \<and> gens_ok own' gens')"
proof (induction cs arbitrary: own m gens idx)
  case Nil
  then show ?case by auto
next
  case (Cons c cs)
  define cfg where "cfg = flows_generator_config L (mg_dir m) cln_ether dut idx c"
  obtain r1 m1 where new: "fgen_new as_meant (mgr_env as_meant L) cfg m = (r1, m1)" by force
  have c: "flows_config_ok c" using Cons.prems(6) by simp
  have cfg: "length (fgc_cln_ether cfg) = 6" "length (fgc_srv_ether cfg) = 6" "1 \<le> fgc_burst cfg"
    "1 \<le> fgc_fps cfg" "unat (fgc_idx cfg) = length gens" "fgc_idx cfg = idx"
    using addrs c Cons.prems(4)
    by (simp_all add: cfg_def flows_generator_config_def flows_config_ok_def word_le_nat_alt)
  have fresh: "own t \<noteq> Some (unat (fgc_idx cfg), i)" for t i
    using Cons.prems(3) cfg(5) by (auto simp: gens_ok_def)
  note res = quiet.fgen_new_ok [OF Cons.prems(1,2) cfg(1-4) fresh new]
  show ?case
  proof (cases r1)
    case (Inl e)
    then obtain x where "e = Thrown x" "mgr_inv L bs ar own m1 \<and> same_setup_state m0 m1" "mgr_busy bs m1 = {}"
      using res by auto
    then show ?thesis using Cons.prems(3,7) Inl new by (auto simp flip: cfg_def)
  next
    case (Inr g)
    then obtain own1 where g: "mgr_inv L bs ar own1 m1 \<and> same_setup_state m0 m1" "mgr_busy bs m1 = {}"
      "fgen_ok g" "fg_idx g = fgc_idx cfg" "flows_own own1 (length gens) (fg_flows g)"
      "\<And>t c. fst c \<noteq> length gens \<Longrightarrow> own1 t = Some c \<longleftrightarrow> own t = Some c"
      using res cfg(5) by auto
    have ok1: "gens_ok own1 (gens @ [g])"
      using gens_ok_snoc [OF Cons.prems(3) g(3) _ g(5,6)] g(4) cfg(5) by simp
    have idx1: "unat (idx + 1) = length (gens @ [g])"
      using unat_add_no_wrap [of idx 1] Cons.prems(4,5) by simp
    have run: "make_gens as_meant L cln_ether dut (idx + 1) cs (gens @ [g]) m1 = (r, gens', m')"
      using Cons.prems(7) new Inr by (simp flip: cfg_def)
    have "length (gens @ [g]) + length cs < 2 ^ 32" "\<forall>c \<in> set cs. flows_config_ok c"
      using Cons.prems(5,6) by simp_all
    from Cons.IH [OF g(1,2) ok1 idx1 this run] show ?thesis by simp
  qed
qed

subsection \<open>The requests keep the manager sound\<close>

text \<open>
  A sound manager between two steps: nothing waits for transmission, no timer is about to run, the
  generators own the timers, and without a generation there are no generators.
\<close>

definition mgr_ok ::
  "('l, 'w) gen_libs \<Rightarrow> ('l \<Rightarrow> timer set) \<Rightarrow> ('l \<Rightarrow> timer \<Rightarrow> ctx option) \<Rightarrow> ('l, 'w) mgr \<Rightarrow> bool" where
  "mgr_ok L bs ar m \<longleftrightarrow>
     (\<exists>own. mgr_inv L bs ar own m \<and> gens_ok own (mg_gens m)) \<and> mgr_busy bs m = {} \<and> mg_tx m = [] \<and>
     (mg_cycles m = None \<longrightarrow> mg_gens m = [])"

lemma mgr_okE:
  assumes "mgr_ok L bs ar m"
  obtains own where "mgr_inv L bs ar own m" "gens_ok own (mg_gens m)" "mgr_busy bs m = {}" "mg_tx m = []"
    "mg_cycles m = None \<Longrightarrow> mg_gens m = []"
  using assms by (auto simp: mgr_ok_def)

lemma mgr_okI:
  "\<lbrakk>mgr_inv L bs ar own m; gens_ok own (mg_gens m); mgr_busy bs m = {}; mg_tx m = [];
    mg_cycles m = None \<Longrightarrow> mg_gens m = []\<rbrakk> \<Longrightarrow> mgr_ok L bs ar m"
  by (auto simp: mgr_ok_def)

text \<open>The queue after a reply, which is lost when there is no room.\<close>

definition queued :: "inc_msg \<Rightarrow> inc_msg list \<Rightarrow> inc_msg list" where
  "queued msg xs = (if length xs < 256 then xs @ [msg] else xs)"

lemma reply_queued:
  "mgr_inv L bs ar own m \<Longrightarrow> contents (mg_out (reply msg m)) = queued msg (contents (mg_out m))"
  by (simp add: reply_contents(2) queued_def)

lemma mgr_ok_reply: "mgr_ok L bs ar m \<Longrightarrow> mgr_ok L bs ar (reply msg m)"
  by (auto simp: mgr_ok_def intro: reply_contents(1))

lemma mgr_ok_world [simp]: "mgr_ok L bs ar (m\<lparr>mg_world := w\<rparr>) \<longleftrightarrow> mgr_ok L bs ar m"
  by (simp add: mgr_ok_def)

lemma mgr_ok_now: "mgr_ok L bs ar m \<Longrightarrow> mgr_now L m = (now, m') \<Longrightarrow> mgr_ok L bs ar m'"
  by (auto simp: mgr_now_def split: prod.splits)

lemma get_eth_stats_world: "get_eth_stats L m = (st, m') \<Longrightarrow> \<exists>w. m' = m\<lparr>mg_world := w\<rparr>"
  by (auto simp: get_eth_stats_def split: prod.splits)

lemma mgr_ok_out: "mgr_ok L bs ar m \<Longrightarrow> contents (mg_out (reply msg m)) = queued msg (contents (mg_out m))"
  by (erule mgr_okE) (rule reply_queued)

lemma count_events_none: "mgr_inv L bs ar Map.empty m \<Longrightarrow> count_events (mg_sched m) = 0"
  by (simp add: mgr_inv_def sched_ok_def count_events_def)

text \<open>Stopping destroys all generators and with them all timers; the assertion holds.\<close>

lemma stop_generation_ok:
  assumes "mgr_ok L bs ar m"
  shows "\<exists>m'. stop_generation as_meant L m = Inr m' \<and> mgr_ok L bs ar m' \<and> mg_gens m' = [] \<and>
    mg_cycles m' = None \<and> mg_out m' = mg_out m \<and> mg_qfull m' = mg_qfull m \<and>
    count_events (mg_sched m') = 0 \<and> ar (lib_state (mg_sched m')) = Map.empty"
proof -
  obtain own where own: "mgr_inv L bs ar own m" "gens_ok own (mg_gens m)" "mgr_busy bs m = {}" "mg_tx m = []"
    using mgr_okE [OF assms] .
  obtain m1 where m1: "destroy_gens as_meant L (mg_gens m) m = Inr m1" "mgr_inv L bs ar Map.empty m1"
    "same_setup_state m m1" "mgr_busy bs m1 = {}"
    using destroy_gens_ok [OF own(1,3,2)] by blast
  define m' where "m' = m1\<lparr>mg_gens := [], mg_cycles := None\<rparr>"
  have "stop_generation as_meant L m = Inr m'"
    using m1(1) count_events_none [OF m1(2)] by (simp add: stop_generation_def m'_def)
  moreover have "mgr_ok L bs ar m'"
    by (rule mgr_okI [where own = Map.empty])
       (use m1 own(4) in \<open>simp_all add: m'_def gens_ok_Nil same_setup_state_def\<close>)
  moreover have "ar (lib_state (mg_sched m')) = Map.empty"
    using mgr_invD(2) [OF m1(2)] by (simp add: sched_ok_def m'_def map_le_def) (metis domIff ext)
  ultimately show ?thesis
    using m1(3) count_events_none [OF m1(2)] by (simp add: m'_def same_setup_state_def)
qed

text \<open>Starting, in the four cases of the handler.\<close>

lemma on_start_generation_ok:
  assumes ok: "mgr_ok L bs ar m" and cfg: "gen_config_ok cfg"
  shows "\<exists>res m'. on_start_generation as_meant L cfg m = Inr m' \<and> mgr_ok L bs ar m' \<and>
    contents (mg_out m') = queued (Res_start_generation res) (contents (mg_out m)) \<and>
    (if generation_started m
     then res = Some ''Already started'' \<and> mg_gens m' = mg_gens m \<and> mg_cycles m' = mg_cycles m
     else (res = None \<and> generation_started m' \<and> length (mg_gens m') = length (gc_flows cfg)) \<or>
       ((\<exists>x. res = Some (what_of L x)) \<and> \<not> generation_started m' \<and> mg_gens m' = []))"
proof (cases "generation_started m")
  case True
  let ?r = "Res_start_generation (Some ''Already started'')"
  have "on_start_generation as_meant L cfg m = Inr (reply ?r m)"
    using True by (simp add: on_start_generation_def)
  then show ?thesis
    using True mgr_ok_reply [OF ok] mgr_ok_out [OF ok, of ?r] by (intro exI [of _ "Some ''Already started''"]) simp
next
  case False
  obtain own where own: "mgr_inv L bs ar own m" "gens_ok own (mg_gens m)" "mgr_busy bs m = {}" "mg_tx m = []"
    "mg_cycles m = None" "mg_gens m = []"
    using mgr_okE [OF ok] False by (metis generation_started_def)
  obtain mac w where mac: "macaddr_get (nic_lib L) (mg_dev m) (mg_world m) = (mac, w)" by force
  have len: "length mac = 6"
    using own(1) mac by (auto simp: mgr_inv_def libs_documented_def) (metis fst_conv)
  define m0 where "m0 = m\<lparr>mg_world := w\<rparr>"
  have m0: "mgr_inv L bs ar own m0 \<and> same_setup_state m0 m0" "mgr_busy bs m0 = {}" "gens_ok own []"
    using own by (simp_all add: m0_def)
  obtain r gens m1 where mk: "make_gens as_meant L mac (gc_dut_addr cfg) 0 (gc_flows cfg) [] m0 = (r, gens, m1)"
    by (metis prod_cases3)
  have lens: "length (gc_dut_addr cfg) = 6" "length ([] :: fgen list) + length (gc_flows cfg) < 2 ^ 32"
    "\<forall>c \<in> set (gc_flows cfg). flows_config_ok c"
    using cfg by (simp_all add: gen_config_ok_def)
  have idx: "unat (0 :: u32) = length ([] :: fgen list)" by simp
  obtain own1 where own1: "mgr_inv L bs ar own1 m1" "same_setup_state m0 m1" "mgr_busy bs m1 = {}"
    "gens_ok own1 gens" and r: "r = Inr () \<and> length gens = length (gc_flows cfg) \<or> (\<exists>x. r = Inl (Thrown x))"
    using make_gens_ok [OF len lens(1) m0 idx lens(2,3) mk] by auto
  have get: "get_mac_addr (nic_lib L) (mg_dev m) (mg_world m) = Inr (mac, w)"
    using mgr_invD(5) [OF own(1)] by (simp add: get_mac_addr_def tg_assert_def mac)
  have eq: "on_start_generation as_meant L cfg m =
      (case r of
         Inr _ \<Rightarrow> begin_generation as_meant L cfg gens m1
       | Inl (Thrown x) \<Rightarrow> destroy_gens as_meant L gens (reply (Res_start_generation (Some (what_of L x))) m1)
       | Inl e \<Rightarrow> Inl e)"
    using False mk by (simp add: on_start_generation_def get m0_def split: sum.split fault.split)
  have same: "mg_gens m1 = []" "mg_cycles m1 = None" "mg_tx m1 = []" "mg_out m1 = mg_out m"
    using own1(2) own(4-6) by (simp_all add: same_setup_state_def m0_def)
  show ?thesis
  proof (cases r)
    case (Inr u)
    obtain err w1 where reset: "eth_stats_reset L nic_port_id (mg_world m1) = (err, w1)" by force
    obtain n w2 where now: "timer_cycles L w1 = (n, w2)" by force
    define qf nb where "qf = (if err = 0 then 0 else mg_qfull m1)" and
      "nb = (if err = 0 then 0 else mg_nombuf m1)"
    define m2 where "m2 = m1\<lparr>mg_gens := gens, mg_qfull := qf, mg_nombuf := nb, mg_world := w2,
        mg_cycles := Some (Cycles n, from_duration (cycles_hz L) (Milliseconds (gc_duration cfg)))\<rparr>"
    have "begin_generation as_meant L cfg gens m1 = Inr (reply (Res_start_generation None) m2)"
      by (cases "err = 0")
         (simp_all add: begin_generation_def same destroy_gens_def reset Let_def mgr_now_def now m2_def qf_def nb_def)
    moreover have m2: "mgr_ok L bs ar m2"
      by (rule mgr_okI [where own = own1]) (use own1 same in \<open>simp_all add: m2_def\<close>)
    moreover have "mg_out m2 = mg_out m" by (simp add: m2_def same)
    ultimately show ?thesis
      using False r Inr mgr_ok_reply [OF m2] mgr_ok_out [OF m2, of "Res_start_generation None"]
      by (intro exI [of _ None]) (simp add: eq generation_started_def, simp add: m2_def)
  next
    case (Inl e)
    then obtain x where x: "e = Thrown x" using r by auto
    let ?r = "Res_start_generation (Some (what_of L x))"
    define m2 where "m2 = reply ?r m1"
    have m2: "mgr_inv L bs ar own1 m2" "mgr_busy bs m2 = {}"
      using reply_contents(1) [OF own1(1)] own1(3) by (simp_all add: m2_def)
    obtain m3 where m3: "destroy_gens as_meant L gens m2 = Inr m3" "mgr_inv L bs ar Map.empty m3"
      "same_setup_state m2 m3" "mgr_busy bs m3 = {}"
      using destroy_gens_ok [OF m2 own1(4)] by blast
    have fields: "mg_gens m3 = []" "mg_cycles m3 = None" "mg_tx m3 = []" "mg_out m3 = mg_out m2"
      using m3(3) same by (simp_all add: same_setup_state_def m2_def)
    have "mgr_ok L bs ar m3"
      by (rule mgr_okI [where own = Map.empty]) (use m3 fields in \<open>simp_all add: gens_ok_Nil\<close>)
    moreover have "contents (mg_out m3) = queued ?r (contents (mg_out m))"
      using reply_queued [OF own1(1), of ?r] by (simp add: fields same m2_def)
    ultimately show ?thesis
      using False m3(1) fields
      by (intro exI [of _ "Some (what_of L x)"] exI [of _ m3])
         (auto simp: eq Inl x generation_started_def simp flip: m2_def)
  qed
qed

lemma on_stop_generation_ok:
  assumes ok: "mgr_ok L bs ar m"
  shows "\<exists>st m'. on_stop_generation as_meant L m = Inr m' \<and> mgr_ok L bs ar m' \<and>
    contents (mg_out m') = queued (Res_stop_generation \<lparr>summary = st, detailed = detailed_stats (mg_gens m)\<rparr>)
      (contents (mg_out m)) \<and> \<not> generation_started m' \<and> mg_gens m' = []"
proof -
  obtain m1 where m1: "stop_generation as_meant L m = Inr m1" "mgr_ok L bs ar m1" "mg_gens m1 = []"
    "mg_cycles m1 = None" "mg_out m1 = mg_out m"
    using stop_generation_ok [OF ok] by blast
  obtain st m2 where st: "get_eth_stats L m1 = (st, m2)" by force
  then obtain w where m2: "m2 = m1\<lparr>mg_world := w\<rparr>" using get_eth_stats_world by blast
  have ok2: "mgr_ok L bs ar m2" using m1(2) by (simp add: m2)
  let ?r = "Res_stop_generation \<lparr>summary = st, detailed = detailed_stats (mg_gens m)\<rparr>"
  have "on_stop_generation as_meant L m = Inr (reply ?r m2)"
    by (simp add: on_stop_generation_def m1(1) st Let_def)
  moreover have "mgr_ok L bs ar (reply ?r m2)" by (rule mgr_ok_reply [OF ok2])
  moreover have "contents (mg_out (reply ?r m2)) = queued ?r (contents (mg_out m))"
    using mgr_ok_out [OF ok2, of ?r] by (simp add: m2 m1(5))
  ultimately show ?thesis
    using m1(3,4) by (intro exI [of _ st] exI [of _ "reply ?r m2"]) (simp add: m2 generation_started_def)
qed

lemma on_stats_report_ok:
  assumes ok: "mgr_ok L bs ar m"
  shows "\<exists>st. mgr_ok L bs ar (on_stats_report L m) \<and>
    contents (mg_out (on_stats_report L m)) = queued (Res_stats_report st) (contents (mg_out m)) \<and>
    cnt_tx_pkts_qfull st = mg_qfull m \<and> cnt_tx_pkts_nombuf st = mg_nombuf m \<and>
    mg_gens (on_stats_report L m) = mg_gens m \<and> mg_cycles (on_stats_report L m) = mg_cycles m"
proof -
  obtain st m1 where st: "get_eth_stats L m = (st, m1)" by force
  then obtain w where m1: "m1 = m\<lparr>mg_world := w\<rparr>" using get_eth_stats_world by blast
  have ok1: "mgr_ok L bs ar m1" using ok by (simp add: m1)
  have "cnt_tx_pkts_qfull st = mg_qfull m" "cnt_tx_pkts_nombuf st = mg_nombuf m"
    using st by (auto simp: get_eth_stats_def split: prod.splits)
  then show ?thesis
    using mgr_ok_reply [OF ok1] mgr_ok_out [OF ok1, of "Res_stats_report st"]
    by (intro exI [of _ st]) (simp add: on_stats_report_def st m1)
qed

text \<open>What the answer to a request has to be, from the state before and after it.\<close>

fun answer_ok :: "('l, 'w) gen_libs \<Rightarrow> ('l, 'w) mgr \<Rightarrow> out_msg \<Rightarrow> inc_msg \<Rightarrow> ('l, 'w) mgr \<Rightarrow> bool" where
  "answer_ok L m (Req_start_generation cfg) (Res_start_generation res) m' =
     (if generation_started m
      then res = Some ''Already started'' \<and> mg_gens m' = mg_gens m \<and> mg_cycles m' = mg_cycles m
      else (res = None \<and> generation_started m' \<and> length (mg_gens m') = length (gc_flows cfg)) \<or>
        ((\<exists>x. res = Some (what_of L x)) \<and> \<not> generation_started m' \<and> mg_gens m' = []))"
| "answer_ok L m Req_stop_generation (Res_stop_generation res) m' =
     (detailed res = detailed_stats (mg_gens m) \<and> \<not> generation_started m' \<and> mg_gens m' = [])"
| "answer_ok L m Req_stats_report (Res_stats_report res) m' =
     (cnt_tx_pkts_qfull res = mg_qfull m \<and> cnt_tx_pkts_nombuf res = mg_nombuf m \<and>
      mg_gens m' = mg_gens m \<and> mg_cycles m' = mg_cycles m)"
| "answer_ok L m msg res m' = False"

lemma gen_on_msg_ok:
  assumes ok: "mgr_ok L bs ar m" and req: "request_ok msg"
  shows "\<exists>res m'. gen_on_msg as_meant L msg m = Inr m' \<and> mgr_ok L bs ar m' \<and>
    contents (mg_out m') = queued res (contents (mg_out m)) \<and> answer_ok L m msg res m'"
proof (cases msg)
  case (Req_start_generation cfg)
  then have "gen_config_ok cfg" using req by simp
  from on_start_generation_ok [OF ok this] obtain res m' where
    "on_start_generation as_meant L cfg m = Inr m'" "mgr_ok L bs ar m'"
    "contents (mg_out m') = queued (Res_start_generation res) (contents (mg_out m))"
    "answer_ok L m msg (Res_start_generation res) m'"
    unfolding Req_start_generation answer_ok.simps by (elim exE conjE)
  then show ?thesis
    by (intro exI [of _ "Res_start_generation res"] exI [of _ m']) (simp add: Req_start_generation)
next
  case Req_stop_generation
  from on_stop_generation_ok [OF ok] obtain st m' where m': "on_stop_generation as_meant L m = Inr m'"
    "mgr_ok L bs ar m'" "contents (mg_out m') = queued (Res_stop_generation
       \<lparr>summary = st, detailed = detailed_stats (mg_gens m)\<rparr>) (contents (mg_out m))"
    "\<not> generation_started m'" "mg_gens m' = []" by (elim exE conjE)
  let ?r = "Res_stop_generation \<lparr>summary = st, detailed = detailed_stats (mg_gens m)\<rparr>"
  have "answer_ok L m Req_stop_generation ?r m'" using m'(4,5) by simp
  then show ?thesis using m'(1-3)
    by (intro exI [of _ ?r] exI [of _ m']) (simp only: Req_stop_generation gen_on_msg.simps noexcept_Inr)
next
  case Req_stats_report
  from on_stats_report_ok [OF ok] obtain st where st: "mgr_ok L bs ar (on_stats_report L m)"
    "contents (mg_out (on_stats_report L m)) = queued (Res_stats_report st) (contents (mg_out m))"
    "answer_ok L m msg (Res_stats_report st) (on_stats_report L m)"
    unfolding Req_stats_report answer_ok.simps by (elim exE conjE) simp
  then show ?thesis
    by (intro exI [of _ "Res_stats_report st"] exI [of _ "on_stats_report L m"]) (simp add: Req_stats_report)
qed

subsection \<open>Running the flows\<close>

lemma run_flow_ok:
  assumes m: "mgr_inv L bs ar own (m\<lparr>mg_sched := s\<rparr>)" "gens_ok own (mg_gens m)"
    and t: "own t = Some c" "t \<notin> bs (lib_state s)"
  shows "\<exists>s' m'. run_flow as_meant L c (s, m) = Inr (s', m') \<and> s' = mg_sched m' \<and>
    mgr_inv L bs ar own m' \<and> gens_ok own (mg_gens m') \<and> length (mg_gens m') = length (mg_gens m) \<and>
    mg_cycles m' = mg_cycles m \<and> bs (lib_state s') = bs (lib_state s) \<and>
    (\<exists>rs. contents (mg_out m') = contents (mg_out m) @ map Generation_report rs)"
proof -
  obtain pos i where c: "c = (pos, i)" by (cases c)
  define m0 where "m0 = m\<lparr>mg_sched := s\<rparr>"
  define g where "g = mg_gens m ! pos"
  have pos: "pos < length (mg_gens m)" using gens_ok_ownD [OF m(2) t(1)] by (simp add: c)
  note g = gens_okD [OF m(2) pos, folded g_def]
  have i: "i < length (fg_flows g)" "tmr (fl_event (fg_flows g ! i)) = Some t"
    using g(3) t(1) unfolding flows_own_def c by blast+
  have m0: "mgr_inv L bs ar own m0 \<and> same_run_state m0 m0" using m(1) by (simp add: m0_def)
  have idle: "u \<notin> mgr_busy bs m0" if "tmr (fl_event (fg_flows g ! i)) = Some u" for u
    using that i(2) t(2) by (simp add: m0_def)
  have own: "flows_own own (unat (fg_idx g)) (fg_flows g)" using g by simp
  obtain g' m1 where ev: "on_flow_event (mgr_env as_meant L) i g m0 = Inr (g', m1)"
    "mgr_inv L bs ar own m1" "same_run_state m0 m1" "mgr_busy bs m1 = mgr_busy bs m0"
    "fgen_ok g'" "same_setup g g'" "flows_own own (unat (fg_idx g')) (fg_flows g')"
    using run.on_flow_event_ok [OF m0 g(1) own i(1) idle] by blast
  define m' where "m' = m1\<lparr>mg_gens := (mg_gens m1)[pos := g']\<rparr>"
  have "fg_idx g' = fg_idx g" using ev(6) by (simp add: same_setup_def)
  then have "gens_ok own ((mg_gens m)[pos := g'])"
    using gens_ok_update [OF m(2) pos ev(5)] ev(7) g(2) by simp
  moreover have "mg_gens m1 = mg_gens m" using ev(3) by (simp add: same_run_state_def m0_def)
  moreover have "run_flow as_meant L c (s, m) = Inr (mg_sched m', m')"
    using pos ev(1) by (simp add: run_flow_def c m'_def flip: m0_def g_def)
  ultimately show ?thesis
    using ev(2-4) by (intro exI [of _ "mg_sched m'"] exI [of _ m'])
      (simp add: m'_def same_run_state_def m0_def mgr_busy_def)
qed

lemma run_scheduler_ok:
  assumes m: "mgr_inv L bs ar own m" "gens_ok own (mg_gens m)" "mgr_busy bs m = {}"
  shows "\<exists>m'. run_scheduler as_meant L m = Inr m' \<and> mgr_inv L bs ar own m' \<and>
    gens_ok own (mg_gens m') \<and> mgr_busy bs m' = {} \<and> mg_cycles m' = mg_cycles m \<and>
    length (mg_gens m') = length (mg_gens m) \<and>
    (\<exists>rs. contents (mg_out m') = contents (mg_out m) @ map Generation_report rs)"
proof -
  obtain now m1 where now: "mgr_now L m = (now, m1)" by force
  then obtain w where m1: "m1 = m\<lparr>mg_world := w\<rparr>" by (auto simp: mgr_now_def split: prod.splits)
  define P where "P m' \<longleftrightarrow> (\<exists>s. mgr_inv L bs ar own (m'\<lparr>mg_sched := s\<rparr>)) \<and> gens_ok own (mg_gens m') \<and>
      length (mg_gens m') = length (mg_gens m) \<and> mg_cycles m' = mg_cycles m \<and>
      (\<exists>rs. contents (mg_out m') = contents (mg_out m) @ map Generation_report rs)" for m' :: "('a, 'b) mgr"
  have inv: "mgr_inv L bs ar own (m'\<lparr>mg_sched := s\<rparr>)" if "P m'" "sched_ok ar own s" for m' s
    using that unfolding P_def by (auto simp: mgr_inv_def)
  have cb: "callback_total bs ar own P (run_flow as_meant L)"
    unfolding callback_total_def
  proof (intro allI impI)
    fix t c s m'
    assume t: "own t = Some c" "t \<notin> bs (lib_state s)" and s: "sched_ok ar own s" and p: "P m'"
    then have gens: "gens_ok own (mg_gens m')" by (simp add: P_def)
    obtain m2 where m2: "run_flow as_meant L c (s, m') = Inr (mg_sched m2, m2)" "mgr_inv L bs ar own m2"
      "gens_ok own (mg_gens m2)" "length (mg_gens m2) = length (mg_gens m')" "mg_cycles m2 = mg_cycles m'"
      "bs (lib_state (mg_sched m2)) = bs (lib_state s)"
      "\<exists>rs. contents (mg_out m2) = contents (mg_out m') @ map Generation_report rs"
      using run_flow_ok [OF inv [OF p s] gens t] by blast
    have "\<exists>rs. contents (mg_out m2) = contents (mg_out m) @ map Generation_report rs"
      using m2(7) p unfolding P_def by (metis append_assoc map_append)
    then have "P m2"
      using m2(2-5) p by (auto simp: P_def intro: exI [of _ "mg_sched m2"])
    then show "\<exists>s' w'. run_flow as_meant L c (s, m') = Inr (s', w') \<and> sched_ok ar own s' \<and>
        bs (lib_state s') = bs (lib_state s) \<and> P w'"
      using m2(1,6) mgr_invD(2) [OF m2(2)] by blast
  qed
  have p1: "P m1"
    using m(1,2) by (auto simp: P_def m1 intro!: exI [of _ "mg_sched m"] exI [of _ "[]"])
  have s1: "sched_ok ar own (mg_sched m1)" "bs (lib_state (mg_sched m1)) = {}"
    using mgr_invD(2) [OF m(1)] m(3) by (simp_all add: m1 mgr_busy_def)
  obtain s' m2 where run: "sched_process_events (timers L) (run_flow as_meant L) now (mg_sched m1, m1) = Inr (s', m2)"
    "sched_ok ar own s'" "bs (lib_state s') = {}" "P m2"
    using sched_process_events_total [OF mgr_invD(1) [OF m(1)] cb s1 p1] by blast
  show ?thesis
    using run inv [OF run(4,2)]
    by (intro exI [of _ "m2\<lparr>mg_sched := s'\<rparr>"]) (simp add: run_scheduler_def now P_def)
qed

lemma flush_ok:
  assumes "mgr_inv L bs ar own m" "gens_ok own (mg_gens m)" "mgr_busy bs m = {}"
    "mg_cycles m = None \<Longrightarrow> mg_gens m = []"
  shows "mgr_ok L bs ar (flush_tx L m)"
  using assms
  by (cases "mg_tx m = []"; intro mgr_okI [where own = own])
     (simp_all add: flush_tx_def transmit_inv transmit_fields)

lemma flush_fields:
  "mg_gens (flush_tx L m) = mg_gens m" "mg_cycles (flush_tx L m) = mg_cycles m"
  "mg_out (flush_tx L m) = mg_out m" "mg_sched (flush_tx L m) = mg_sched m"
  by (simp_all add: flush_tx_def transmit_fields)

lemma receive_world: "\<exists>w. receive_rx_pkts L m = m\<lparr>mg_world := w\<rparr>"
  by (auto simp: receive_rx_pkts_def split: prod.splits)

lemma after_messages_ok:
  assumes ok: "mgr_ok L bs ar m"
  shows "\<exists>m'. after_messages as_meant L m = Inr m' \<and> mgr_ok L bs ar m' \<and>
    (\<exists>rs. contents (mg_out m') = contents (mg_out m) @ map Generation_report rs) \<and>
    (case mg_cycles m of
       None \<Rightarrow> mg_cycles m' = None
     | Some (first, duration) \<Rightarrow> mg_cycles m' = None \<longrightarrow> ar (lib_state (mg_sched m')) = Map.empty)"
proof -
  obtain w where rx: "receive_rx_pkts L m = m\<lparr>mg_world := w\<rparr>" using receive_world [of L m] by (elim exE)
  define m2 where "m2 = m\<lparr>mg_world := w\<rparr>"
  have ok2: "mgr_ok L bs ar m2" using ok by (simp add: m2_def)
  obtain own where own: "mgr_inv L bs ar own m2" "gens_ok own (mg_gens m2)" "mgr_busy bs m2 = {}"
    "mg_tx m2 = []" "mg_cycles m2 = None \<longrightarrow> mg_gens m2 = []" using ok2 unfolding mgr_ok_def by (elim exE conjE)
  show ?thesis
  proof (cases "mg_cycles m2")
    case None
    then have "own = Map.empty" using own(2,5) by (simp add: gens_ok_Nil)
    then have "after_messages as_meant L m = Inr m2"
      using None own(1,4) count_events_none [of L bs ar m2]
      by (simp add: after_messages_def rx Let_def flip: m2_def)
    then show ?thesis using None ok2 by (auto simp: m2_def intro: exI [of _ "[]"])
  next
    case (Some fd)
    obtain first duration where fd: "fd = (first, duration)" by (cases fd)
    obtain now m3 where now: "mgr_now L m2 = (now, m3)" by force
    then obtain w3 where m3: "m3 = m2\<lparr>mg_world := w3\<rparr>" by (auto simp: mgr_now_def split: prod.splits)
    have ok3: "mgr_ok L bs ar m3" using ok2 by (simp add: m3)
    show ?thesis
    proof (cases "duration < now - first")
      case True
      obtain m4 where m4: "stop_generation as_meant L m3 = Inr m4" "mgr_ok L bs ar m4" "mg_gens m4 = []"
        "mg_cycles m4 = None" "mg_out m4 = mg_out m3" "ar (lib_state (mg_sched m4)) = Map.empty"
        using stop_generation_ok [OF ok3] by blast
      have "mg_tx m4 = []" using m4(2) by (auto simp: mgr_ok_def)
      then have "after_messages as_meant L m = Inr m4"
        using Some True m4(1) by (simp add: after_messages_def rx Let_def fd now flush_tx_def flip: m2_def)
      then show ?thesis
        using m4 Some by (auto simp: fd m2_def m3 intro: exI [of _ "[]"])
    next
      case False
      have m3': "mgr_inv L bs ar own m3" "gens_ok own (mg_gens m3)" "mgr_busy bs m3 = {}"
        using own by (simp_all add: m3)
      obtain m4 where m4: "run_scheduler as_meant L m3 = Inr m4" "mgr_inv L bs ar own m4"
        "gens_ok own (mg_gens m4)" "mgr_busy bs m4 = {}" "mg_cycles m4 = mg_cycles m3"
        "\<exists>rs. contents (mg_out m4) = contents (mg_out m3) @ map Generation_report rs"
        using run_scheduler_ok [OF m3'] by blast
      have some: "mg_cycles m4 = Some fd" using m4(5) Some by (simp add: m3)
      have "after_messages as_meant L m = Inr (flush_tx L m4)"
        using Some False m4(1) by (simp add: after_messages_def rx Let_def fd now flip: m2_def)
      moreover have "mgr_ok L bs ar (flush_tx L m4)"
        by (rule flush_ok [OF m4(2-4)]) (simp add: some)
      ultimately show ?thesis
        using m4(6) some Some by (auto simp: fd flush_fields m3 m2_def)
    qed
  qed
qed


subsection \<open>A concrete manager\<close>

text \<open>One card whose link is up, a pool with packets, and a clock that stands at one second.\<close>

definition sample_gen_libs :: "((timer \<times> ctx) list \<times> timer list, unit) gen_libs" where
  "sample_gen_libs =
     \<lparr>timers = sample_timers, nic_lib = sample_nic, pools = sample_pool_lib,
      pktmbuf_alloc = (\<lambda>p w. (Some (fresh_mbuf 2048), w)),
      pktmbuf_copy = (\<lambda>b p off len w. (Some b, w)),
      pktmbuf_free = (\<lambda>b w. w), pktmbuf_free_bulk = (\<lambda>bs w. w),
      timer_cycles = (\<lambda>w. (1000000, w)), cycles_hz = 1000000,
      eth_stats_get = (\<lambda>p st w. (0, st, w)), eth_stats_reset = (\<lambda>p w. (0, w)),
      fopen = (\<lambda>f. Inl 2), net_hosts = (\<lambda>n. (fst n + 1, fst n + 3)), inc_addr = (\<lambda>a. a + 1),
      tx_flag_ipv4 = 1, tx_flag_ip_cksum = 2, tx_flag_tcp_cksum = 4, tx_flag_udp_cksum = 8,
      what_of = (\<lambda>x. ''error''), path_append = (\<lambda>d f. d @ f), render_nat = (\<lambda>n. []),
      socket_id = 0, lcore_id = 1\<rparr>"

definition sample_mgr :: "((timer \<times> ctx) list \<times> timer list, unit) mgr" where
  "sample_mgr =
     \<lparr>mg_pool = 1, mg_dev = 0, mg_out = inc_queue_new,
      mg_sched = sched_new sample_timers 1000000 1, mg_gens = [], mg_cycles = None, mg_tx = [],
      mg_qfull = 0, mg_nombuf = 0, mg_dir = [], mg_world = ()\<rparr>"

lemma sample_libs_documented: "libs_documented sample_gen_libs sample_busy sample_armed"
  by (simp add: libs_documented_def sample_gen_libs_def sample_timers_documented sample_nic_def)

text \<open>Every freshly made manager is sound.\<close>

lemma fresh_mgr_ok:
  assumes lib: "libs_documented L bs ar" and q: "ring_inv (mg_out m)" "length (buff (mg_out m)) = 256"
    and m: "mg_sched m = sched_new (timers L) hz lc" "mg_gens m = []" "mg_tx m = []" "mg_dev m = 0"
  shows "mgr_ok L bs ar m"
proof -
  have t: "timers_documented (timers L) bs ar" using lib by (simp add: libs_documented_def)
  have "mgr_inv L bs ar Map.empty m"
    using lib q m sched_ok_new [OF t]
    by (simp add: mgr_inv_def cnt_burst_pkts_def eth_is_valid_def invalid_port_id_def)
  then show ?thesis
    using m timers_initD(1) [OF t]
    by (intro mgr_okI) (simp_all add: gens_ok_Nil mgr_busy_def sched_new_def)
qed

lemma sample_mgr_ok: "mgr_ok sample_gen_libs sample_busy sample_armed sample_mgr"
  by (rule fresh_mgr_ok [OF sample_libs_documented, where hz = 1000000 and lc = 1])
     (simp_all add: sample_mgr_def queues_new sample_gen_libs_def)


subsection \<open>Every request is answered once\<close>



subsection \<open>The end of the generation\<close>



text \<open>
  As the macro is written, the generation thread cannot survive its first idle round: a
  sound manager without a generation and without a request makes \<open>process_events\<close> abort.
\<close>

lemma idle_round_aborts:
  assumes ok: "mgr_ok L bs ar m" and idle: "\<not> generation_started m"
    and q: "ring_inv q" "length (buff q) = 32" "contents q = []"
  shows "gen_process_events as_written L (q, m) = Inl Aborted"
proof -
  obtain q' where d: "dequeue (gen_on_msg as_written L) (q, m) = Inr (q', m)"
    by (rule dequeue_empty [OF q(1) _ _ q(3)]) (simp_all add: q(2))
  obtain w where rx: "receive_rx_pkts L m = m\<lparr>mg_world := w\<rparr>" using receive_world [of L m] by (elim exE)
  have "mg_tx m = []" using ok by (simp add: mgr_ok_def)
  moreover have "mg_cycles m = None" using idle unfolding generation_started_def by blast
  ultimately show ?thesis
    by (simp add: gen_process_events_def d after_messages_def rx)
qed

lemma idle_round_aborts_witness:
  "gen_process_events as_written sample_gen_libs (out_queue_new, sample_mgr) = Inl Aborted"
  by (rule idle_round_aborts [OF sample_mgr_ok])
     (simp_all add: queues_new generation_started_def, simp add: sample_mgr_def)

subsection \<open>From construction to destruction\<close>

lemma mbuf_pool_new_thrown: "mbuf_pool_new lib rnd cfg w = (Inl e, w') \<Longrightarrow> \<exists>x. e = Thrown x"
  by (auto simp: mbuf_pool_new_def Let_def throw_system_error_def throw_dpdk_error_def
      split: prod.splits sum.splits option.splits)

lemma eth_new_result:
  assumes "eth_new n rnd cfg w = (r, w')"
  shows "case r of Inr port \<Rightarrow> port = ec_port cfg | Inl e \<Rightarrow> \<exists>x. e = Thrown x"
proof -
  have caps: "\<exists>x. e = Thrown x" if "set_capabilities n rnd cfg v = (Inl e, v')" for e v v'
    using that by (auto simp: set_capabilities_def Let_def throw_dpdk_error_def throw_runtime_error_def
        split: prod.splits if_splits)
  have conf: "\<exists>x. e = Thrown x" if "eth_configure n rnd cfg i c v = (Inl e, v')" for e i c v v'
    using that by (auto simp: eth_configure_def Let_def throw_dpdk_error_def split: prod.splits if_splits)
  have start: "\<exists>x. e = Thrown x" if "eth_start n rnd cfg v = (Inl e, v')" for e v v'
    using that by (auto simp: eth_start_def Let_def throw_dpdk_error_def throw_runtime_error_def
        simp del: wait_link.simps split: prod.splits if_splits)
  show ?thesis
    using assms by (auto simp: eth_new_def dest: caps conf start split: prod.splits sum.splits)
qed

lemma gen_mgr_new_result:
  fixes L :: "('l, 'w) gen_libs"
  assumes lib: "libs_documented L bs ar" and q: "ring_inv outq" "length (buff outq) = 256"
  shows "case gen_mgr_new L cfg outq w of
      (Inr m, w') \<Rightarrow> mgr_ok L bs ar m \<and> \<not> generation_started m \<and> mg_out m = outq
    | (Inl e, w') \<Rightarrow> \<exists>x. e = Thrown x"
proof -
  obtain r w1 where pool: "mbuf_pool_new (pools L) (render_nat L)
      \<lparr>pc_cnt_mbufs = mc_max_cnt_mbufs cfg, pc_socket = socket_id L\<rparr> w = (r, w1)" by force
  show "case gen_mgr_new L cfg outq w of
      (Inr m, w') \<Rightarrow> mgr_ok L bs ar m \<and> \<not> generation_started m \<and> mg_out m = outq
    | (Inl e, w') \<Rightarrow> \<exists>x. e = Thrown x"
  proof (cases r)
    case (Inl e)
    then show ?thesis using mbuf_pool_new_thrown [OF pool [unfolded Inl]] pool
      by (simp add: gen_mgr_new_def)
  next
    case (Inr mp)
    obtain d w2 where dev: "eth_new (nic_lib L) (render_nat L)
        \<lparr>ec_port = nic_port_id, ec_queue_size = mc_nic_queue_size cfg, ec_socket = socket_id L\<rparr> w1 = (d, w2)"
      by force
    note d = eth_new_result [OF dev]
    show ?thesis
    proof (cases d)
      case (Inl e)
      then show ?thesis using d pool dev Inr by (simp add: gen_mgr_new_def)
    next
      case port: (Inr port)
      have "mgr_ok L bs ar m" if "gen_mgr_new L cfg outq w = (Inr m, w')" for m w'
        using that pool dev Inr port q d
        by (intro fresh_mgr_ok [OF lib, where hz = "cycles_hz L" and lc = "lcore_id L"])
           (auto simp: gen_mgr_new_def nic_port_id_def)
      then show ?thesis using pool dev Inr port by (simp add: gen_mgr_new_def generation_started_def)
    qed
  qed
qed

lemma gen_mgr_new_ok:
  assumes "libs_documented L bs ar" "ring_inv outq" "length (buff outq) = 256"
    and "gen_mgr_new L cfg outq w = (Inr m, w')"
  shows "mgr_ok L bs ar m \<and> \<not> generation_started m \<and> mg_out m = outq"
  using gen_mgr_new_result [OF assms(1-3), of cfg w] assms(4) by simp

lemma gen_mgr_destroy_ok:
  fixes L :: "('l, 'w) gen_libs"
  assumes "mgr_ok L bs ar m"
  shows "\<exists>v. gen_mgr_destroy as_meant L m =
      Inr (pool_free (pools L) (mg_pool m)
        (dev_close (nic_lib L) (mg_dev m) (dev_stop (nic_lib L) (mg_dev m) v)))"
proof -
  obtain own where own: "mgr_inv L bs ar own m" "gens_ok own (mg_gens m)" "mgr_busy bs m = {}"
    using assms unfolding mgr_ok_def by (elim exE conjE)
  obtain m1 where m1: "destroy_gens as_meant L (mg_gens m) m = Inr m1" "mgr_inv L bs ar Map.empty m1"
    "same_setup_state m m1" using destroy_gens_ok [OF own(1,3,2)] by blast
  have "sched_destroy as_meant (mg_sched m1) = Inr ()"
    by (rule sched_ok_destroy [OF mgr_invD(2) [OF m1(2)]])
  moreover have "eth_is_valid (mg_dev m1)" by (rule mgr_invD(5) [OF m1(2)])
  ultimately show ?thesis
    using m1(1,3) by (auto simp: gen_mgr_destroy_def mbuf_pool_destroy_def eth_destroy_def same_setup_state_def)
qed

text \<open>The world after a constructor that throws: the pool, if it was made, is given back at the end.\<close>

definition pool_unwound :: "('l, 'w) gen_libs \<Rightarrow> mgr_config \<Rightarrow> 'w \<Rightarrow> 'w \<Rightarrow> bool" where
  "pool_unwound L cfg w w' \<longleftrightarrow>
     (case mbuf_pool_new (pools L) (render_nat L)
             \<lparr>pc_cnt_mbufs = mc_max_cnt_mbufs cfg, pc_socket = socket_id L\<rparr> w of
        (Inl e, v) \<Rightarrow> w' = v
      | (Inr pool, v) \<Rightarrow> \<exists>v'. w' = pool_free (pools L) pool v')"

lemma gen_mgr_new_unwinds: "gen_mgr_new L cfg outq w = (Inl e, w') \<Longrightarrow> pool_unwound L cfg w w'"
  by (auto simp: gen_mgr_new_def pool_unwound_def mbuf_pool_destroy_def split: prod.splits sum.splits)

text \<open>
  Claim C19. The constructor makes a sound idle manager, or throws after giving the pool back when
  the device fails; and a sound manager can be destroyed in every state, also while a generation
  runs: all timers are returned before the scheduler's destructor checks for them, and then the
  device is stopped and closed before the pool is freed.
\<close>

theorem gen_mgr_lifetime:
  fixes L :: "('l, 'w) gen_libs"
  assumes lib: "libs_documented L bs ar" and q: "ring_inv outq" "length (buff outq) = 256"
  shows "(case gen_mgr_new L cfg outq w of
      (Inr m, w') \<Rightarrow> mgr_ok L bs ar m \<and> \<not> generation_started m \<and> mg_out m = outq
    | (Inl e, w') \<Rightarrow> (\<exists>x. e = Thrown x) \<and> pool_unwound L cfg w w') \<and>
    (\<forall>m. mgr_ok L bs ar m \<longrightarrow> (\<exists>v. gen_mgr_destroy as_meant L m =
      Inr (pool_free (pools L) (mg_pool m)
        (dev_close (nic_lib L) (mg_dev m) (dev_stop (nic_lib L) (mg_dev m) v)))))"
proof (intro conjI allI impI)
  show "case gen_mgr_new L cfg outq w of
      (Inr m, w') \<Rightarrow> mgr_ok L bs ar m \<and> \<not> generation_started m \<and> mg_out m = outq
    | (Inl e, w') \<Rightarrow> (\<exists>x. e = Thrown x) \<and> pool_unwound L cfg w w'"
    using gen_mgr_new_result [OF assms, of cfg w] gen_mgr_new_unwinds [of L cfg outq w]
    by (auto split: prod.splits sum.splits)
next
  show "\<exists>v. gen_mgr_destroy as_meant L m =
      Inr (pool_free (pools L) (mg_pool m)
        (dev_close (nic_lib L) (mg_dev m) (dev_stop (nic_lib L) (mg_dev m) v)))" if "mgr_ok L bs ar m" for m
    using that by (rule gen_mgr_destroy_ok)
qed

theorem gen_mgr_lifetime_witness:
  "\<exists>v. gen_mgr_destroy as_meant sample_gen_libs sample_mgr = Inr v"
  using gen_mgr_lifetime [OF sample_libs_documented queues_new(4,6)] sample_mgr_ok by blast

subsection \<open>No packet is lost without being counted\<close>

text \<open>
  Two views of the state outside: the packets the card has taken, and those given back to the pool by
  \<open>rte_pktmbuf_free_bulk\<close>. A burst takes a prefix of what it is offered.
\<close>

definition accounts ::
  "('l, 'w) gen_libs \<Rightarrow> ('w \<Rightarrow> mbuf list) \<Rightarrow> ('w \<Rightarrow> mbuf list) \<Rightarrow> bool" where
  "accounts L taken freed \<longleftrightarrow>
     (\<forall>p q ms w k w'. tx_burst (nic_lib L) p q ms w = (k, w') \<longrightarrow>
        k \<le> length ms \<and> taken w' = taken w @ take k ms \<and> freed w' = freed w) \<and>
     (\<forall>ms w. taken (pktmbuf_free_bulk L ms w) = taken w \<and> freed (pktmbuf_free_bulk L ms w) = freed w @ ms)"

text \<open>Between two states: the packets \<open>new\<close> have come, and each was taken, freed or is waiting.\<close>

definition accounted ::
  "('w \<Rightarrow> mbuf list) \<Rightarrow> ('w \<Rightarrow> mbuf list) \<Rightarrow> ('l, 'w) mgr \<Rightarrow> mbuf list \<Rightarrow> ('l, 'w) mgr \<Rightarrow> bool" where
  "accounted taken freed m new m' \<longleftrightarrow>
     (\<exists>ts fs. taken (mg_world m') = taken (mg_world m) @ ts \<and> freed (mg_world m') = freed (mg_world m) @ fs \<and>
        mset (mg_tx m @ new) = mset ts + mset fs + mset (mg_tx m') \<and>
        subseq (ts @ mg_tx m') (mg_tx m @ new) \<and> mg_qfull m' = mg_qfull m + of_nat (length fs))"

lemma accounted_refl: "accounted taken freed m [] m"
  by (auto simp: accounted_def intro: exI [of _ "[]"])

lemma accounted_push: "accounted taken freed m new m' \<Longrightarrow>
    accounted taken freed m (new @ [b]) (m'\<lparr>mg_tx := mg_tx m' @ [b]\<rparr>)"
proof -
  assume "accounted taken freed m new m'"
  then obtain ts fs where a: "taken (mg_world m') = taken (mg_world m) @ ts"
    "freed (mg_world m') = freed (mg_world m) @ fs" "mset (mg_tx m @ new) = mset ts + mset fs + mset (mg_tx m')"
    "subseq (ts @ mg_tx m') (mg_tx m @ new)" "mg_qfull m' = mg_qfull m + of_nat (length fs)"
    by (auto simp: accounted_def)
  have "subseq ((ts @ mg_tx m') @ [b]) ((mg_tx m @ new) @ [b])"
    using a(4) by (rule list_emb_append_mono) simp
  moreover have "mset (mg_tx m @ new @ [b]) = mset ts + mset fs + mset (mg_tx m' @ [b])"
    using arg_cong [OF a(3), of "add_mset b"] by simp
  ultimately show ?thesis
    unfolding accounted_def using a(1,2,5) by (intro exI [of _ ts] exI [of _ fs]) simp
qed

lemma transmit_accounts:
  assumes "accounts L taken freed"
  shows "\<exists>k \<le> length (mg_tx m).
    taken (mg_world (transmit_tx_pkts L m)) = taken (mg_world m) @ take k (mg_tx m) \<and>
    freed (mg_world (transmit_tx_pkts L m)) = freed (mg_world m) @ drop k (mg_tx m) \<and>
    mg_qfull (transmit_tx_pkts L m) = mg_qfull m + of_nat (length (mg_tx m) - k)"
proof -
  obtain k w where tx: "tx_burst (nic_lib L) (mg_dev m) queue_id (mg_tx m) (mg_world m) = (k, w)" by force
  have k: "k \<le> length (mg_tx m)" "taken w = taken (mg_world m) @ take k (mg_tx m)" "freed w = freed (mg_world m)"
    and free: "taken (pktmbuf_free_bulk L ms v) = taken v" "freed (pktmbuf_free_bulk L ms v) = freed v @ ms" for ms v
    using assms tx unfolding accounts_def by blast+
  show ?thesis
    using k free by (intro exI [of _ k]) (auto simp: transmit_tx_pkts_def transmit_pkts_def tx Let_def)
qed

lemma accounted_transmit:
  assumes "accounts L taken freed" and "accounted taken freed m new m'"
  shows "accounted taken freed m new (transmit_tx_pkts L m')"
proof -
  obtain ts fs where a: "taken (mg_world m') = taken (mg_world m) @ ts"
    "freed (mg_world m') = freed (mg_world m) @ fs" "mset (mg_tx m @ new) = mset ts + mset fs + mset (mg_tx m')"
    "subseq (ts @ mg_tx m') (mg_tx m @ new)" "mg_qfull m' = mg_qfull m + of_nat (length fs)"
    using assms(2) by (auto simp: accounted_def)
  obtain k where k: "k \<le> length (mg_tx m')"
    "taken (mg_world (transmit_tx_pkts L m')) = taken (mg_world m') @ take k (mg_tx m')"
    "freed (mg_world (transmit_tx_pkts L m')) = freed (mg_world m') @ drop k (mg_tx m')"
    "mg_qfull (transmit_tx_pkts L m') = mg_qfull m' + of_nat (length (mg_tx m') - k)"
    using transmit_accounts [OF assms(1)] by blast
  have "mset (mg_tx m') = mset (take k (mg_tx m')) + mset (drop k (mg_tx m'))"
    by (metis append_take_drop_id mset_append)
  then have "mset ts + mset fs + mset (mg_tx m') = mset (ts @ take k (mg_tx m')) + mset (fs @ drop k (mg_tx m')) +
      mset (mg_tx (transmit_tx_pkts L m'))"
    by (simp add: transmit_fields ac_simps)
  moreover have "subseq (take k (mg_tx m')) (take k (mg_tx m') @ drop k (mg_tx m'))"
    by (rule list_emb_prefix) simp
  then have "subseq (take k (mg_tx m')) (mg_tx m')" by simp
  then have "subseq (ts @ take k (mg_tx m')) (ts @ mg_tx m')"
    by (intro list_emb_append_mono) simp_all
  then have "subseq ((ts @ take k (mg_tx m')) @ mg_tx (transmit_tx_pkts L m')) (mg_tx m @ new)"
    using a(4) by (auto simp: transmit_fields intro: subseq_order.trans)
  ultimately show ?thesis
    unfolding accounted_def a(3) using k a(1,2,5)
    by (intro exI [of _ "ts @ take k (mg_tx m')"] exI [of _ "fs @ drop k (mg_tx m')"]) simp
qed

lemma accounted_send:
  assumes "accounts L taken freed" and "accounted taken freed m new m'"
  shows "accounted taken freed m (new @ [b]) (mgr_send_pkt L b m')"
  using accounted_push [OF assms(2)] accounted_transmit [OF assms(1) accounted_push [OF assms(2)]]
  by (simp add: mgr_send_pkt_def Let_def)

lemma accounted_sends:
  assumes "accounts L taken freed" and "accounted taken freed m new m'"
  shows "accounted taken freed m (new @ bs) (fold (mgr_send_pkt L) bs m')"
  using assms(2)
proof (induction bs arbitrary: new m')
  case Nil
  then show ?case by simp
next
  case (Cons b bs)
  from Cons.IH [OF accounted_send [OF assms(1) Cons.prems]] show ?case by simp
qed



text \<open>A card that takes three packets of every burst, and the two views as the state.\<close>

definition counting_libs :: "((timer \<times> ctx) list \<times> timer list, mbuf list \<times> mbuf list) gen_libs" where
  "counting_libs =
     \<lparr>timers = sample_timers,
      nic_lib =
        \<lparr>dev_info_get = (\<lambda>p w. (0, sample_dev_info, w)), dev_configure = (\<lambda>p a b c w. (0, w)),
         rx_queue_setup = (\<lambda>p q z k c w. (0, w)), tx_queue_setup = (\<lambda>p q z k c w. (0, w)),
         dev_start = (\<lambda>p w. (0, w)), dev_stop = (\<lambda>p w. w), dev_close = (\<lambda>p w. w),
         link_get_nowait = (\<lambda>p w. (True, w)), usleep = (\<lambda>u w. w),
         macaddr_get = (\<lambda>p w. ([2, 0, 0, 0, 0, 1], w)), rte_errno = (\<lambda>w. 0),
         rx_burst = (\<lambda>p q k w. ([], w)),
         tx_burst = (\<lambda>p q ms (a, b). (min 3 (length ms), (a @ take 3 ms, b))),
         off_rx_checksum = 14, off_tx_ipv4_cksum = 2, off_tx_tcp_cksum = 8, off_tx_udp_cksum = 4,
         off_tx_fast_free = 0x10000\<rparr>,
      pools =
        \<lparr>get_nofile = (\<lambda>w. (0, (1024, 4096), w)), set_nofile = (\<lambda>l w. (0, w)), pl_errno = (\<lambda>w. 0),
         pl_rte_errno = (\<lambda>w. 0), pool_create = (\<lambda>nam n c p b s w. (Some 1, w)),
         pool_free = (\<lambda>mp w. w), default_buf_size = 2176, cache_max_size = 512\<rparr>,
      pktmbuf_alloc = (\<lambda>p w. (Some (fresh_mbuf 2048), w)),
      pktmbuf_copy = (\<lambda>b p off len w. (Some b, w)), pktmbuf_free = (\<lambda>b w. w),
      pktmbuf_free_bulk = (\<lambda>bs (a, b). (a, b @ bs)),
      timer_cycles = (\<lambda>w. (1000000, w)), cycles_hz = 1000000,
      eth_stats_get = (\<lambda>p st w. (0, st, w)), eth_stats_reset = (\<lambda>p w. (0, w)),
      fopen = (\<lambda>f. Inl 2), net_hosts = (\<lambda>n. (fst n + 1, fst n + 3)), inc_addr = (\<lambda>a. a + 1),
      tx_flag_ipv4 = 1, tx_flag_ip_cksum = 2, tx_flag_tcp_cksum = 4, tx_flag_udp_cksum = 8,
      what_of = (\<lambda>x. ''error''), path_append = (\<lambda>d f. d @ f), render_nat = (\<lambda>n. []),
      socket_id = 0, lcore_id = 1\<rparr>"

lemma counting_libs_account: "accounts counting_libs fst snd"
  by (auto simp: accounts_def counting_libs_def min_def)


end
