(* ===== verification/Http_Server.thy ===== *)
theory Http_Server
  imports TG_Prelude
begin

section \<open>The embedded HTTP server (mgmt/priv/http\_server.cpp)\<close>

text \<open>
  The server is three coroutines of asio. What runs between two suspensions is a function here: the
  completion of an accept, of a read, of a write, and the call of the response callback that resumes
  \<open>process_request\<close> after \<open>get_response\<close>. A connection is its position in the list of all
  connections accepted so far, and its state says where its coroutine is suspended. The callback the
  user handler gets is the number of its connection.

  The parsing and the writing of messages are boost beast's. An error code is a number, 0 for none.
\<close>

datatype http_status = Http_ok | Bad_request | Not_found | Precondition_failed | Internal_server_error

record http_request =
  rq_target :: string
  rq_version :: nat
  rq_body :: string

record http_response =
  rs_status :: http_status
  rs_version :: nat
  rs_server :: string
  rs_content_type :: string
  rs_body :: string

datatype conn = Reading | Waiting http_request | Writing http_response | Closed

text \<open>What a step asks of its user: handle a request, or an error.\<close>

datatype server_call = Handle_request string string nat | Handle_error string int

text \<open>\<open>server_name\<close> is the version string of beast.\<close>

record server =
  conns :: "conn list"
  server_name :: string

definition server_new :: "string \<Rightarrow> server" where
  "server_new nam = \<lparr>conns = [], server_name = nam\<rparr>"

text \<open>
  Opening the acceptor: the system calls are a parameter that gives an error code or nothing; the
  error is rethrown with a text.
\<close>

definition make_acceptor :: "(string \<Rightarrow> int) \<Rightarrow> string \<Rightarrow> unit res" where
  "make_acceptor listen_at endpoint =
     (let err = listen_at endpoint in
      if err = 0 then Inr () else throw_system_error err ''Failed to start HTTP server at {}'' [endpoint])"

definition accept_done :: "int \<Rightarrow> server \<Rightarrow> server_call list \<times> server" where
  "accept_done err s =
     (if err = 0 then ([], s\<lparr>conns := conns s @ [Reading]\<rparr>)
      else ([Handle_error ''accept failed'' err], s))"

definition read_done :: "nat \<Rightarrow> int + http_request \<Rightarrow> server \<Rightarrow> server_call list \<times> server" where
  "read_done i r s =
     (case r of
        Inl err \<Rightarrow> ([Handle_error ''receive failed'' err], s\<lparr>conns := (conns s)[i := Closed]\<rparr>)
      | Inr req \<Rightarrow>
          ([Handle_request (rq_target req) (rq_body req) i], s\<lparr>conns := (conns s)[i := Waiting req]\<rparr>))"

definition make_response :: "string \<Rightarrow> http_request \<Rightarrow> http_status \<Rightarrow> string \<Rightarrow> http_response" where
  "make_response nam req code body =
     \<lparr>rs_status = code, rs_version = rq_version req, rs_server = nam,
      rs_content_type = ''text/json'', rs_body = body\<rparr>"

text \<open>The callback may be called once, while its connection waits for it.\<close>

definition respond :: "nat \<Rightarrow> http_status \<Rightarrow> string \<Rightarrow> server \<Rightarrow> server res" where
  "respond i code body s =
     (if i < length (conns s)
      then (case conns s ! i of
              Waiting req \<Rightarrow>
                Inr (s\<lparr>conns := (conns s)[i := Writing (make_response (server_name s) req code body)]\<rparr>)
            | _ \<Rightarrow> Inl Undefined)
      else Inl Undefined)"

definition write_done :: "nat \<Rightarrow> int \<Rightarrow> server \<Rightarrow> server_call list \<times> server" where
  "write_done i err s =
     ((if err = 0 then [] else [Handle_error ''send failed'' err]), s\<lparr>conns := (conns s)[i := Closed]\<rparr>)"

text \<open>
  A completion of the io context. It belongs to a suspended coroutine: a read completes for a
  connection that is reading, a write for one that is writing.
\<close>

datatype io_event =
    Accept_done int
  | Read_done nat "int + http_request"
  | Write_done nat int

fun io_possible :: "io_event \<Rightarrow> server \<Rightarrow> bool" where
  "io_possible (Accept_done err) s = True"
| "io_possible (Read_done i r) s = (i < length (conns s) \<and> conns s ! i = Reading)"
| "io_possible (Write_done i err) s = (i < length (conns s) \<and> (\<exists>res. conns s ! i = Writing res))"

fun server_step :: "io_event \<Rightarrow> server \<Rightarrow> server_call list \<times> server" where
  "server_step (Accept_done err) s = accept_done err s"
| "server_step (Read_done i r) s = read_done i r s"
| "server_step (Write_done i err) s = write_done i err s"

definition waiting :: "server \<Rightarrow> nat set" where
  "waiting s = {i. i < length (conns s) \<and> (\<exists>req. conns s ! i = Waiting req)}"

lemma server_step_waiting:
  assumes "io_possible ev s" and "server_step ev s = (calls, s')"
  shows "waiting s' = (case ev of Read_done i (Inr req) \<Rightarrow> insert i (waiting s) | _ \<Rightarrow> waiting s)"
    and "case ev of Read_done i (Inr req) \<Rightarrow> calls = [Handle_request (rq_target req) (rq_body req) i] \<and> i \<notin> waiting s
      | _ \<Rightarrow> \<forall>c \<in> set calls. \<exists>info err. c = Handle_error info err"
  using assms
  by (auto simp: waiting_def accept_done_def read_done_def write_done_def nth_append nth_list_update less_Suc_eq
      split: io_event.splits sum.splits if_splits)

lemma respond_waiting:
  assumes "i \<in> waiting s"
  obtains s' where "respond i code body s = Inr s'" "waiting s' = waiting s - {i}"
    "server_name s' = server_name s" "length (conns s') = length (conns s)"
    "\<And>req. conns s ! i = Waiting req \<Longrightarrow> conns s' ! i = Writing (make_response (server_name s) req code body)"
    "\<And>j. j \<noteq> i \<Longrightarrow> conns s' ! j = conns s ! j"
proof -
  from assms obtain req where i: "i < length (conns s)" "conns s ! i = Waiting req"
    by (auto simp: waiting_def)
  define s' where "s' = s\<lparr>conns := (conns s)[i := Writing (make_response (server_name s) req code body)]\<rparr>"
  have "respond i code body s = Inr s'" using i by (simp add: respond_def s'_def)
  moreover have "waiting s' = waiting s - {i}"
    using i by (auto simp: waiting_def s'_def nth_list_update split: if_splits)
  ultimately show ?thesis using i by (intro that [of s']) (simp_all add: s'_def)
qed

end
