(* ===== verification/Mgmt_Manager.thy ===== *)
theory Mgmt_Manager
  imports Http_Server Messages Tg_Assert Put_Text
begin

section \<open>The management manager (mgmt/manager.cpp)\<close>

text \<open>
  The manager turns HTTP requests into messages for the generation thread and the messages it gets
  back into HTTP responses. For each of its three requests it remembers the response callback of the
  client it is working for, here the number of that client's connection; None is an empty callback.
  The libraries are the parsers of the configuration, the texts of exceptions and the frequency of the
  cycle counter.
\<close>

record mgmt_libs =
  cfg_libs :: config_libs
  exn_text :: "exn \<Rightarrow> string"
  counter_hz :: u64

record mgmt =
  mm_server :: server
  mm_out :: "out_msg ring"
  mm_start_cb :: "nat option"
  mm_stop_cb :: "nat option"
  mm_stats_cb :: "nat option"

subsection \<open>Bodies of responses\<close>

definition quoted :: "string \<Rightarrow> string" where
  "quoted s = CHR 0x22 # s @ [CHR 0x22]"

definition make_response_body :: "string \<Rightarrow> string" where
  "make_response_body txt = ''{'' @ quoted ''result'' @ '': '' @ quoted txt @ ''}''"

definition visit_fields :: "stats \<Rightarrow> string" where
  "visit_fields st = concat (map (\<lambda>(nam, v). quoted nam @ '':'' @ dec_string (unat v) @ '','') (stats_visit st))"

definition stats_body :: "stats \<Rightarrow> string" where
  "stats_body st =
     (let body = ''{'' @ quoted ''result'' @ '': {'' @ visit_fields st in butlast body @ ''}}'')"

definition int_string :: "int \<Rightarrow> string" where
  "int_string i = (if i < 0 then ''-'' @ dec_string (nat (- i)) else dec_string (nat i))"

text \<open>The count of a duration is a signed number.\<close>

definition detail_text :: "u64 \<Rightarrow> stats_entry \<Rightarrow> string res" where
  "detail_text hz e =
     bind_res (cycles_to hz Usec (se_duration e)) (\<lambda>us.
       Inr (''{'' @ quoted ''gen_idx'' @ '':'' @ dec_string (unat (se_gen_idx e)) @ '','' @
            quoted ''flow_idx'' @ '':'' @ dec_string (unat (se_flow_idx e)) @ '','' @
            quoted ''cnt_pkts'' @ '':'' @ dec_string (unat (se_cnt_pkts e)) @ '','' @
            quoted ''cnt_bytes'' @ '':'' @ dec_string (unat (se_cnt_bytes e)) @ '','' @
            quoted ''duration_usec'' @ '':'' @ int_string (sint us) @ ''},''))"

definition stop_body :: "u64 \<Rightarrow> summary_stats \<Rightarrow> string res" where
  "stop_body hz res =
     (let body1 = butlast (''{'' @ quoted ''result'' @ '': {'' @ visit_fields (summary res));
          body2 = body1 @ ''}, '' @ quoted ''detailed'' @ '': ['' in
      bind_res (fold_res (\<lambda>e body. bind_res (detail_text hz e) (\<lambda>t. Inr (body @ t))) (detailed res) body2)
        (\<lambda>body. Inr ((if last body = CHR '','' then butlast body else body) @ '']}'')))"

subsection \<open>Requests\<close>

definition call_back :: "nat \<Rightarrow> http_status \<Rightarrow> string \<Rightarrow> mgmt \<Rightarrow> mgmt res" where
  "call_back cb code body m =
     bind_res (respond cb code body (mm_server m)) (\<lambda>s. Inr (m\<lparr>mm_server := s\<rparr>))"

definition on_req_start_gen :: "mgmt_libs \<Rightarrow> string \<Rightarrow> nat \<Rightarrow> mgmt \<Rightarrow> mgmt res" where
  "on_req_start_gen ml req cb m =
     (if mm_start_cb m \<noteq> None
      then call_back cb Precondition_failed (make_response_body ''Start already in progress'') m
      else case gen_config_new (cfg_libs ml) req of
        Inr cfg \<Rightarrow>
          (case enqueue (Req_start_generation cfg) (mm_out m) of (ok, q) \<Rightarrow>
             let m1 = m\<lparr>mm_out := q\<rparr> in
             if ok then Inr (m1\<lparr>mm_start_cb := Some cb\<rparr>)
             else call_back cb Internal_server_error (make_response_body ''Failed to enqueue request'') m1)
      | Inl (Thrown x) \<Rightarrow>
          call_back cb Bad_request
            (make_response_body (''Invalid generation configuration: '' @ exn_text ml x)) m
      | Inl e \<Rightarrow> Inl e)"

definition on_req_stop_gen :: "nat \<Rightarrow> mgmt \<Rightarrow> mgmt res" where
  "on_req_stop_gen cb m =
     (if mm_stop_cb m \<noteq> None
      then call_back cb Precondition_failed (make_response_body ''Stop already in progress'') m
      else case enqueue Req_stop_generation (mm_out m) of (ok, q) \<Rightarrow>
        let m1 = m\<lparr>mm_out := q\<rparr> in
        if ok then Inr (m1\<lparr>mm_stop_cb := Some cb\<rparr>)
        else call_back cb Internal_server_error (make_response_body ''Failed to enqueue request'') m1)"

definition on_req_get_stats :: "nat \<Rightarrow> mgmt \<Rightarrow> mgmt res" where
  "on_req_get_stats cb m =
     (if mm_stats_cb m \<noteq> None
      then call_back cb Precondition_failed (make_response_body ''Stats request already in progress'') m
      else case enqueue Req_stats_report (mm_out m) of (ok, q) \<Rightarrow>
        let m1 = m\<lparr>mm_out := q\<rparr> in
        if ok then Inr (m1\<lparr>mm_stats_cb := Some cb\<rparr>)
        else call_back cb Internal_server_error (make_response_body ''Failed to enqueue request'') m1)"

datatype req_handler = Start_handler | Stop_handler | Stats_handler

definition req_handlers :: "(string \<times> req_handler) list" where
  "req_handlers =
     [(''/start_gen'', Start_handler), (''/stop_gen'', Stop_handler), (''/get_stats'', Stats_handler)]"

fun run_handler :: "mgmt_libs \<Rightarrow> req_handler \<Rightarrow> string \<Rightarrow> nat \<Rightarrow> mgmt \<Rightarrow> mgmt res" where
  "run_handler ml Start_handler req cb m = noexcept (on_req_start_gen ml req cb m)"
| "run_handler ml Stop_handler req cb m = noexcept (on_req_stop_gen cb m)"
| "run_handler ml Stats_handler req cb m = noexcept (on_req_get_stats cb m)"

definition on_http_request :: "mgmt_libs \<Rightarrow> string \<Rightarrow> string \<Rightarrow> nat \<Rightarrow> mgmt \<Rightarrow> mgmt res" where
  "on_http_request ml target req_body cb m =
     (case map_of req_handlers target of
        Some h \<Rightarrow> run_handler ml h req_body cb m
      | None \<Rightarrow> call_back cb Not_found (make_response_body (''Invalid target: '' @ target)) m)"

text \<open>An error of the server is only logged.\<close>

fun on_server_call :: "mgmt_libs \<Rightarrow> server_call \<Rightarrow> mgmt \<Rightarrow> mgmt res" where
  "on_server_call ml (Handle_request target body i) m = on_http_request ml target body i m"
| "on_server_call ml (Handle_error info err) m = Inr m"

subsection \<open>Answers of the generation thread\<close>

text \<open>Calling an empty callback is undefined.\<close>

definition call_held :: "nat option \<Rightarrow> http_status \<Rightarrow> string \<Rightarrow> mgmt \<Rightarrow> mgmt res" where
  "call_held held code body m =
     (case held of None \<Rightarrow> Inl Undefined | Some cb \<Rightarrow> call_back cb code body m)"

fun mgmt_on_msg :: "build \<Rightarrow> mgmt_libs \<Rightarrow> inc_msg \<Rightarrow> mgmt \<Rightarrow> mgmt res" where
  "mgmt_on_msg bld ml (Res_start_generation res) m =
     bind_res (tg_enforce bld (mm_start_cb m \<noteq> None)) (\<lambda>_.
     bind_res (case res of
                 None \<Rightarrow> call_held (mm_start_cb m) Http_ok (make_response_body ''Generation started'') m
               | Some err \<Rightarrow> call_held (mm_start_cb m) Precondition_failed
                   (make_response_body (''Failed to start generation: '' @ err @ [CHR 0x0A])) m) (\<lambda>m1.
       Inr (m1\<lparr>mm_start_cb := None\<rparr>)))"
| "mgmt_on_msg bld ml (Res_stop_generation res) m =
     bind_res (stop_body (counter_hz ml) res) (\<lambda>body.
     bind_res (tg_enforce bld (mm_stop_cb m \<noteq> None)) (\<lambda>_.
     bind_res (call_held (mm_stop_cb m) Http_ok body m) (\<lambda>m1. Inr (m1\<lparr>mm_stop_cb := None\<rparr>))))"
| "mgmt_on_msg bld ml (Res_stats_report res) m =
     bind_res (tg_enforce bld (mm_stats_cb m \<noteq> None)) (\<lambda>_.
     bind_res (call_held (mm_stats_cb m) Http_ok (stats_body res) m) (\<lambda>m1.
       Inr (m1\<lparr>mm_stats_cb := None\<rparr>)))"
| "mgmt_on_msg bld ml (Generation_report r) m = Inr m"

subsection \<open>One round of the management thread\<close>

text \<open>\<open>poll_one\<close> runs at most one completion that is ready.\<close>

definition poll_one :: "mgmt_libs \<Rightarrow> io_event option \<Rightarrow> mgmt \<Rightarrow> mgmt res" where
  "poll_one ml ev m =
     (case ev of
        None \<Rightarrow> Inr m
      | Some e \<Rightarrow> case server_step e (mm_server m) of (calls, s) \<Rightarrow>
          fold_res (on_server_call ml) calls (m\<lparr>mm_server := s\<rparr>))"

definition mgmt_process_events ::
  "build \<Rightarrow> mgmt_libs \<Rightarrow> io_event option \<Rightarrow> inc_msg ring \<times> mgmt \<Rightarrow> (inc_msg ring \<times> mgmt) res" where
  "mgmt_process_events bld ml ev qm =
     (case qm of (q, m) \<Rightarrow>
        bind_res (poll_one ml ev m) (\<lambda>m1. dequeue (mgmt_on_msg bld ml) (q, m1)))"

definition mgmt_new :: "(string \<Rightarrow> int) \<Rightarrow> string \<Rightarrow> string \<Rightarrow> out_msg ring \<Rightarrow> mgmt res" where
  "mgmt_new listen_at nam endpoint outq =
     bind_res (make_acceptor listen_at endpoint) (\<lambda>_.
       Inr \<lparr>mm_server = server_new nam, mm_out = outq, mm_start_cb = None, mm_stop_cb = None,
            mm_stats_cb = None\<rparr>)"

subsection \<open>The three requests as one\<close>

text \<open>What the handlers differ in: the callback they use, the message they send, and their text.\<close>

fun pending :: "req_handler \<Rightarrow> mgmt \<Rightarrow> nat option" where
  "pending Start_handler m = mm_start_cb m"
| "pending Stop_handler m = mm_stop_cb m"
| "pending Stats_handler m = mm_stats_cb m"

fun hold :: "req_handler \<Rightarrow> nat option \<Rightarrow> mgmt \<Rightarrow> mgmt" where
  "hold Start_handler cb m = m\<lparr>mm_start_cb := cb\<rparr>"
| "hold Stop_handler cb m = m\<lparr>mm_stop_cb := cb\<rparr>"
| "hold Stats_handler cb m = m\<lparr>mm_stats_cb := cb\<rparr>"

fun message_for :: "mgmt_libs \<Rightarrow> req_handler \<Rightarrow> string \<Rightarrow> out_msg res" where
  "message_for ml Start_handler req = bind_res (gen_config_new (cfg_libs ml) req) (\<lambda>c. Inr (Req_start_generation c))"
| "message_for ml Stop_handler req = Inr Req_stop_generation"
| "message_for ml Stats_handler req = Inr Req_stats_report"

fun busy_text :: "req_handler \<Rightarrow> string" where
  "busy_text Start_handler = ''Start already in progress''"
| "busy_text Stop_handler = ''Stop already in progress''"
| "busy_text Stats_handler = ''Stats request already in progress''"

lemma run_handler_eq:
  "run_handler ml h req cb m = noexcept
     (if pending h m \<noteq> None then call_back cb Precondition_failed (make_response_body (busy_text h)) m
      else case message_for ml h req of
        Inr msg \<Rightarrow>
          (case enqueue msg (mm_out m) of (ok, q) \<Rightarrow>
             if ok then Inr (hold h (Some cb) (m\<lparr>mm_out := q\<rparr>))
             else call_back cb Internal_server_error (make_response_body ''Failed to enqueue request'')
                    (m\<lparr>mm_out := q\<rparr>))
      | Inl (Thrown x) \<Rightarrow>
          call_back cb Bad_request
            (make_response_body (''Invalid generation configuration: '' @ exn_text ml x)) m
      | Inl e \<Rightarrow> Inl e)"
  by (cases h; cases "gen_config_new (cfg_libs ml) req")
     (auto simp: on_req_start_gen_def on_req_stop_gen_def on_req_get_stats_def Let_def
       split: prod.split fault.split)

lemma pending_hold [simp]:
  "pending h (hold h' cb m) = (if h = h' then cb else pending h m)"
  by (cases h; cases h') auto

lemma hold_fields [simp]:
  "mm_server (hold h cb m) = mm_server m" "mm_out (hold h cb m) = mm_out m"
  by (cases h; simp)+

lemma pending_update [simp]:
  "pending h (m\<lparr>mm_server := s\<rparr>) = pending h m" "pending h (m\<lparr>mm_out := q\<rparr>) = pending h m"
  by (cases h; simp)+

declare pending.simps [simp del] hold.simps [simp del]

subsection \<open>Clients are either answered or remembered\<close>

text \<open>
  The clients that wait for a response are exactly those whose callbacks the manager holds, each held
  once; and the messages it has sent are what the generation manager is prepared for.
\<close>

definition mgmt_inv :: "mgmt \<Rightarrow> bool" where
  "mgmt_inv m \<longleftrightarrow>
     ring_inv (mm_out m) \<and> length (buff (mm_out m)) = 32 \<and>
     (\<forall>msg \<in> set (contents (mm_out m)). request_ok msg) \<and>
     waiting (mm_server m) = {i. \<exists>h. pending h m = Some i} \<and>
     (\<forall>h h' i. pending h m = Some i \<longrightarrow> pending h' m = Some i \<longrightarrow> h = h')"

lemma mgmt_invD:
  assumes "mgmt_inv m"
  shows "ring_inv (mm_out m)" "length (buff (mm_out m)) = 32" "msg \<in> set (contents (mm_out m)) \<Longrightarrow> request_ok msg"
    "i \<in> waiting (mm_server m) \<longleftrightarrow> (\<exists>h. pending h m = Some i)"
    "pending h m = Some i \<Longrightarrow> pending h' m = Some i \<Longrightarrow> h = h'"
  using assms unfolding mgmt_inv_def by blast+

text \<open>The state while the request of the client \<open>i\<close> is handled: it waits and is not held yet.\<close>

definition arriving :: "nat \<Rightarrow> mgmt \<Rightarrow> bool" where
  "arriving i m \<longleftrightarrow> i \<in> waiting (mm_server m) \<and> (\<forall>h. pending h m \<noteq> Some i) \<and>
     ring_inv (mm_out m) \<and> length (buff (mm_out m)) = 32 \<and>
     (\<forall>msg \<in> set (contents (mm_out m)). request_ok msg) \<and>
     waiting (mm_server m) = insert i {j. \<exists>h. pending h m = Some j} \<and>
     (\<forall>h h' j. pending h m = Some j \<longrightarrow> pending h' m = Some j \<longrightarrow> h = h')"

text \<open>The client \<open>i\<close> has been answered, and nothing else happened to any client.\<close>

definition answered :: "nat \<Rightarrow> http_status \<Rightarrow> string \<Rightarrow> server \<Rightarrow> server \<Rightarrow> bool" where
  "answered i code body s s' \<longleftrightarrow>
     length (conns s') = length (conns s) \<and> server_name s' = server_name s \<and>
     (\<exists>req. conns s ! i = Waiting req \<and> conns s' ! i = Writing (make_response (server_name s) req code body)) \<and>
     (\<forall>j. j \<noteq> i \<longrightarrow> conns s' ! j = conns s ! j)"

lemma call_back_ok:
  assumes "i \<in> waiting (mm_server m)"
  obtains s where "call_back i code body m = Inr (m\<lparr>mm_server := s\<rparr>)"
    "waiting s = waiting (mm_server m) - {i}" "answered i code body (mm_server m) s"
proof -
  obtain req where req: "conns (mm_server m) ! i = Waiting req" using assms by (auto simp: waiting_def)
  obtain s where "respond i code body (mm_server m) = Inr s" "waiting s = waiting (mm_server m) - {i}"
    "server_name s = server_name (mm_server m)" "length (conns s) = length (conns (mm_server m))"
    "conns s ! i = Writing (make_response (server_name (mm_server m)) req code body)"
    "\<And>j. j \<noteq> i \<Longrightarrow> conns s ! j = conns (mm_server m) ! j"
    using respond_waiting [OF assms, of code body] req by metis
  with req show ?thesis by (intro that [of s]) (auto simp: call_back_def answered_def)
qed

lemma arriving_answered:
  assumes "arriving i m" "ring_inv q" "length (buff q) = 32" "\<forall>msg \<in> set (contents q). request_ok msg"
  obtains s where "call_back i code body (m\<lparr>mm_out := q\<rparr>) = Inr (m\<lparr>mm_out := q, mm_server := s\<rparr>)"
    "mgmt_inv (m\<lparr>mm_out := q, mm_server := s\<rparr>)" "answered i code body (mm_server m) s"
proof -
  have "i \<in> waiting (mm_server (m\<lparr>mm_out := q\<rparr>))" using assms(1) by (simp add: arriving_def)
  from call_back_ok [OF this] obtain s where s:
    "call_back i code body (m\<lparr>mm_out := q\<rparr>) = Inr (m\<lparr>mm_out := q, mm_server := s\<rparr>)"
    "waiting s = waiting (mm_server m) - {i}" "answered i code body (mm_server m) s" by auto
  have "mgmt_inv (m\<lparr>mm_out := q, mm_server := s\<rparr>)"
    using assms s(2) by (auto simp: mgmt_inv_def arriving_def)
  with s show ?thesis using that by blast
qed

text \<open>
  A configuration text is defined when reading it returns or throws: the conversion of the duration is
  undefined for numbers that do not fit.
\<close>

definition text_defined :: "mgmt_libs \<Rightarrow> string \<Rightarrow> bool" where
  "text_defined ml txt \<longleftrightarrow>
     (case gen_config_new (cfg_libs ml) txt of Inl (Thrown x) \<Rightarrow> True | Inl e \<Rightarrow> False | Inr c \<Rightarrow> True)"

lemma message_for_cases:
  assumes "text_defined ml doc" "arrays_bounded (cfg_libs ml)"
  shows "(\<exists>x. message_for ml h doc = Inl (Thrown x)) \<or> (\<exists>msg. message_for ml h doc = Inr msg \<and> request_ok msg)"
proof (cases h)
  case Start_handler
  then show ?thesis
    using assms gen_config_new_ok [OF _ assms(2), of doc]
    by (cases "gen_config_new (cfg_libs ml) doc") (auto simp: text_defined_def split: fault.splits)
qed auto

text \<open>What has become of a request, from the state before and after.\<close>

definition request_outcome :: "mgmt_libs \<Rightarrow> string \<Rightarrow> string \<Rightarrow> nat \<Rightarrow> mgmt \<Rightarrow> mgmt \<Rightarrow> bool" where
  "request_outcome ml target body i m m' \<longleftrightarrow>
     (let refused = (\<lambda>code txt. answered i code (make_response_body txt) (mm_server m) (mm_server m') \<and>
        contents (mm_out m') = contents (mm_out m) \<and> (\<forall>h. pending h m' = pending h m)) in
      case map_of req_handlers target of
        None \<Rightarrow> refused Not_found (''Invalid target: '' @ target)
      | Some h \<Rightarrow>
          if pending h m \<noteq> None then refused Precondition_failed (busy_text h)
          else case message_for ml h body of
            Inl (Thrown x) \<Rightarrow> refused Bad_request (''Invalid generation configuration: '' @ exn_text ml x)
          | Inl e \<Rightarrow> False
          | Inr msg \<Rightarrow>
              if length (contents (mm_out m)) < 32
              then mm_server m' = mm_server m \<and> contents (mm_out m') = contents (mm_out m) @ [msg] \<and>
                (\<forall>h'. pending h' m' = (if h' = h then Some i else pending h' m))
              else refused Internal_server_error ''Failed to enqueue request'')"

lemma on_http_request_ok:
  assumes arr: "arriving i m" and txtd: "text_defined ml body" and libs: "arrays_bounded (cfg_libs ml)"
  shows "\<exists>m'. on_http_request ml target body i m = Inr m' \<and> mgmt_inv m' \<and> request_outcome ml target body i m m'"
proof -
  have q: "ring_inv (mm_out m)" "length (buff (mm_out m)) = 32" "\<forall>msg \<in> set (contents (mm_out m)). request_ok msg"
    using arr by (simp_all add: arriving_def)
  have refuse: "\<exists>m'. call_back i code (make_response_body t) m = Inr m' \<and> mgmt_inv m' \<and>
      answered i code (make_response_body t) (mm_server m) (mm_server m') \<and>
      contents (mm_out m') = contents (mm_out m) \<and> (\<forall>h. pending h m' = pending h m)" for code t
  proof -
    have same: "m\<lparr>mm_out := mm_out m\<rparr> = m" by (cases m) simp
    obtain s where "call_back i code (make_response_body t) m = Inr (m\<lparr>mm_server := s\<rparr>)"
      "mgmt_inv (m\<lparr>mm_server := s\<rparr>)" "answered i code (make_response_body t) (mm_server m) s"
      by (rule arriving_answered [OF arr q, of code "make_response_body t", unfolded same])
    then show ?thesis by (intro exI [of _ "m\<lparr>mm_server := s\<rparr>"]) simp
  qed
  show ?thesis
  proof (cases "map_of req_handlers target")
    case None
    then show ?thesis using refuse by (simp add: on_http_request_def request_outcome_def)
  next
    case (Some h)
    show ?thesis
    proof (cases "pending h m")
      case (Some j)
      then show ?thesis using refuse \<open>map_of req_handlers target = Some h\<close>
        by (simp add: on_http_request_def request_outcome_def run_handler_eq)
    next
      case None
      note h = \<open>map_of req_handlers target = Some h\<close>
      consider x where "message_for ml h body = Inl (Thrown x)"
        | msg where "message_for ml h body = Inr msg" "request_ok msg"
        using message_for_cases [OF txtd libs] by blast
      then show ?thesis
      proof cases
        case 1
        then show ?thesis using refuse None h
          by (simp add: on_http_request_def request_outcome_def run_handler_eq)
      next
        case 2
        obtain q' where q': "enqueue msg (mm_out m) = (length (contents (mm_out m)) < 32, q')" "ring_inv q'"
          "length (buff q') = 32"
          "contents q' = (if length (contents (mm_out m)) < 32 then contents (mm_out m) @ [msg] else contents (mm_out m))"
          using enqueue_spec [OF q(1), of msg] q(2) by metis
        have ok': "\<forall>msg \<in> set (contents q'). request_ok msg" using q(3) 2(2) q'(4) by auto
        show ?thesis
        proof (cases "length (contents (mm_out m)) < 32")
          case True
          define m' where "m' = hold h (Some i) (m\<lparr>mm_out := q'\<rparr>)"
          have run: "on_http_request ml target body i m = Inr m'"
            using None h 2 q'(1) True by (simp add: on_http_request_def run_handler_eq m'_def)
          have p: "pending h' m' = (if h' = h then Some i else pending h' m)" for h'
            by (simp add: m'_def)
          have "(\<exists>h'. pending h' m' = Some j) \<longleftrightarrow> j = i \<or> (\<exists>h'. pending h' m = Some j)" for j
            unfolding p using None by (metis option.distinct(1) option.inject)
          then have "mgmt_inv m'"
            using arr None q'(2,3) ok' by (auto simp: mgmt_inv_def arriving_def p m'_def split: if_splits)
          moreover have "request_outcome ml target body i m m'"
            using None h 2 True q'(4) by (simp add: request_outcome_def m'_def)
          ultimately show ?thesis using run by blast
        next
          case False
          obtain s where "call_back i Internal_server_error (make_response_body ''Failed to enqueue request'')
              (m\<lparr>mm_out := q'\<rparr>) = Inr (m\<lparr>mm_out := q', mm_server := s\<rparr>)"
            "mgmt_inv (m\<lparr>mm_out := q', mm_server := s\<rparr>)"
            "answered i Internal_server_error (make_response_body ''Failed to enqueue request'') (mm_server m) s"
            using arriving_answered [OF arr q'(2,3) ok'] by metis
          then show ?thesis using None h 2 q'(1,4) False
            by (simp add: on_http_request_def run_handler_eq request_outcome_def)
        qed
      qed
    qed
  qed
qed

text \<open>
  Claim C13. Every request gets its due: a client whose request has just been read is answered at once
  (an unknown target with 404, a request of a kind that is in progress with 412, an invalid
  configuration with 400, a full queue with 500), and then nothing else changes; or its message is
  appended to the queue and its callback is held. In both cases the waiting clients are again exactly
  the held ones.
\<close>

theorem http_request_outcome:
  assumes "arriving i m" and "text_defined ml body" and "arrays_bounded (cfg_libs ml)"
  shows "\<exists>m'. on_http_request ml target body i m = Inr m' \<and> mgmt_inv m' \<and>
    request_outcome ml target body i m m'"
  by (rule on_http_request_ok [OF assms])

text \<open>A manager whose only client has just asked to stop, for the concrete cases.\<close>

definition sample_mgmt :: mgmt where
  "sample_mgmt =
     \<lparr>mm_server = \<lparr>conns = [Waiting \<lparr>rq_target = ''/stop_gen'', rq_version = 11, rq_body = []\<rparr>],
        server_name = ''beast''\<rparr>,
      mm_out = out_queue_new, mm_start_cb = None, mm_stop_cb = None, mm_stats_cb = None\<rparr>"

definition sample_mgmt_libs :: mgmt_libs where
  "sample_mgmt_libs = \<lparr>cfg_libs = sample_libs JNull, exn_text = (\<lambda>x. ''error''), counter_hz = 1000000\<rparr>"

lemma pending_none: "pending h sample_mgmt = None"
  by (cases h) (simp_all add: sample_mgmt_def pending.simps)

lemma sample_arriving: "arriving 0 sample_mgmt"
proof -
  have "waiting (mm_server sample_mgmt) = {0}" by (auto simp: waiting_def sample_mgmt_def)
  moreover have "mm_out sample_mgmt = out_queue_new" by (simp add: sample_mgmt_def)
  ultimately show ?thesis by (simp add: arriving_def pending_none queues_new)
qed

theorem http_request_outcome_witness:
  "\<exists>m'. on_http_request sample_mgmt_libs ''/stop_gen'' [] 0 sample_mgmt = Inr m' \<and> mgmt_inv m' \<and>
     pending Stop_handler m' = Some 0"
proof -
  have "text_defined sample_mgmt_libs []" "arrays_bounded (cfg_libs sample_mgmt_libs)"
    by (simp_all add: text_defined_def sample_mgmt_libs_def gen_config_new_def parse_sample arrays_bounded_def)
  from http_request_outcome [OF sample_arriving this, of "''/stop_gen''"] show ?thesis
    by (auto simp: request_outcome_def req_handlers_def pending_none) (simp add: sample_mgmt_def queues_new)
qed

subsection \<open>The bodies against a reference\<close>

fun join :: "string \<Rightarrow> string list \<Rightarrow> string" where
  "join sep [] = []"
| "join sep [x] = x"
| "join sep (x # y # ys) = x @ sep @ join sep (y # ys)"

definition json_object :: "(string \<times> string) list \<Rightarrow> string" where
  "json_object kvs = ''{'' @ join '','' (map (\<lambda>(k, v). quoted k @ '':'' @ v) kvs) @ ''}''"

definition stats_fields :: "stats \<Rightarrow> (string \<times> string) list" where
  "stats_fields st = map (\<lambda>(nam, v). (nam, dec_string (unat v))) (stats_visit st)"

definition entry_fields :: "u64 \<Rightarrow> stats_entry \<Rightarrow> (string \<times> string) list" where
  "entry_fields hz e =
     [(''gen_idx'', dec_string (unat (se_gen_idx e))), (''flow_idx'', dec_string (unat (se_flow_idx e))),
      (''cnt_pkts'', dec_string (unat (se_cnt_pkts e))), (''cnt_bytes'', dec_string (unat (se_cnt_bytes e))),
      (''duration_usec'', int_string (sint ((num (se_duration e) * 1000000) div hz)))]"

lemma concat_commas: "concat (map (\<lambda>x. f x @ '','') xs) = (if xs = [] then [] else join '','' (map f xs) @ '','')"
  by (induction xs rule: induct_list012) auto

lemma visit_fields_join:
  "visit_fields st = join '','' (map (\<lambda>(k, v). quoted k @ '':'' @ v) (stats_fields st)) @ '',''"
proof -
  have "visit_fields st = concat (map (\<lambda>x. (case x of (k, v) \<Rightarrow> quoted k @ '':'' @ v) @ '','') (stats_fields st))"
    by (simp add: visit_fields_def stats_fields_def comp_def case_prod_unfold)
  also have "\<dots> = join '','' (map (\<lambda>(k, v). quoted k @ '':'' @ v) (stats_fields st)) @ '',''"
    by (subst concat_commas) (simp add: stats_fields_def stats_visit_def)
  finally show ?thesis .
qed

lemma detail_text_json: "hz \<noteq> 0 \<Longrightarrow> detail_text hz e = Inr (json_object (entry_fields hz e) @ '','')"
  by (simp add: detail_text_def cycles_to_def json_object_def entry_fields_def)

lemma fold_details:
  assumes "hz \<noteq> 0"
  shows "fold_res (\<lambda>e body. bind_res (detail_text hz e) (\<lambda>t. Inr (body @ t))) es b =
     Inr (b @ concat (map (\<lambda>e. json_object (entry_fields hz e) @ '','') es))"
  by (induction es arbitrary: b) (simp_all add: detail_text_json [OF assms])

text \<open>The summary up to its last comma, and the array with its last comma taken away.\<close>

lemma butlast_summary:
  "butlast (''{'' @ quoted ''result'' @ '': {'' @ visit_fields st) @ ''}'' =
     ''{'' @ quoted ''result'' @ '': '' @ json_object (stats_fields st)"
  by (simp add: visit_fields_join butlast_append json_object_def)

lemma strip_comma:
  "(let body = p @ ''['' @ concat (map (\<lambda>x. f x @ '','') xs) in
    if last body = CHR '','' then butlast body else body) = p @ ''['' @ join '','' (map f xs)"
proof (cases "xs = []")
  case False
  have "last (p @ ''['' @ join '','' (map f xs) @ '','') = CHR '',''" by simp
  moreover have "butlast (p @ ''['' @ join '','' (map f xs) @ '','') = p @ ''['' @ join '','' (map f xs)"
    by (metis append_assoc butlast_snoc)
  ultimately show ?thesis using False by (simp only: concat_commas Let_def if_False if_True refl)
qed simp

lemma stats_body_json: "stats_body st = ''{'' @ quoted ''result'' @ '': '' @ json_object (stats_fields st) @ ''}''"
  using arg_cong [OF butlast_summary [of st], of "\<lambda>b. b @ ''}''"] by (simp add: stats_body_def)

lemma stop_body_json:
  assumes "hz \<noteq> 0"
  shows "stop_body hz res = Inr (''{'' @ quoted ''result'' @ '': '' @ json_object (stats_fields (summary res)) @
    '', '' @ quoted ''detailed'' @ '': ['' @
    join '','' (map (\<lambda>e. json_object (entry_fields hz e)) (detailed res)) @ '']}'')"
proof -
  define p where "p = ''{'' @ quoted ''result'' @ '': '' @ json_object (stats_fields (summary res)) @
    '', '' @ quoted ''detailed'' @ '': ''"
  have body2: "butlast (''{'' @ quoted ''result'' @ '': {'' @ visit_fields (summary res)) @ ''}, '' @
      quoted ''detailed'' @ '': ['' = p @ ''[''"
    using arg_cong [OF butlast_summary [of "summary res"], of "\<lambda>b. b @ '', '' @ quoted ''detailed'' @ '': [''"]
    by (simp add: p_def)
  have "stop_body hz res = Inr ((let body = p @ ''['' @
      concat (map (\<lambda>e. json_object (entry_fields hz e) @ '','') (detailed res)) in
      if last body = CHR '','' then butlast body else body) @ '']}'')"
    unfolding stop_body_def Let_def body2 fold_details [OF assms] by simp
  also have "\<dots> = Inr ((p @ ''['' @ join '','' (map (\<lambda>e. json_object (entry_fields hz e)) (detailed res))) @ '']}'')"
    unfolding strip_comma by (rule refl)
  finally show ?thesis by (simp add: p_def)
qed

text \<open>
  Claim C24. The bodies that are put together by appending fields with commas and taking the last
  comma away are the JSON objects of a plain rendering: the ten counters by name, and after a stop
  one object per flow, also when there is none.
\<close>

theorem bodies_are_json:
  assumes "hz \<noteq> 0"
  shows "stats_body st = ''{'' @ quoted ''result'' @ '': '' @ json_object (stats_fields st) @ ''}'' \<and>
    stop_body hz res = Inr (''{'' @ quoted ''result'' @ '': '' @ json_object (stats_fields (summary res)) @
      '', '' @ quoted ''detailed'' @ '': ['' @
      join '','' (map (\<lambda>e. json_object (entry_fields hz e)) (detailed res)) @ '']}'')"
  using stats_body_json stop_body_json [OF assms] by blast

definition no_stats :: stats where
  "no_stats =
     \<lparr>cnt_rx_pkts = 0, cnt_tx_pkts = 0, cnt_rx_bytes = 0, cnt_tx_bytes = 0, cnt_rx_pkts_qfull = 0,
      cnt_rx_pkts_nombuf = 0, cnt_tx_pkts_qfull = 0, cnt_tx_pkts_nombuf = 0, cnt_rx_pkts_err = 0,
      cnt_tx_pkts_err = 0\<rparr>"

theorem bodies_are_json_witness:
  "\<exists>body. stop_body 1000 \<lparr>summary = no_stats, detailed = []\<rparr> = Inr (body @ '', '' @ quoted ''detailed'' @ '': []}'')"
proof -
  have "(1000 :: u64) \<noteq> 0" by simp
  from bodies_are_json [OF this, of no_stats "\<lparr>summary = no_stats, detailed = []\<rparr>"]
  show ?thesis
    by (intro exI [of _ "''{'' @ quoted ''result'' @ '': '' @ json_object (stats_fields no_stats)"]) simp
qed

subsection \<open>Reading a response back\<close>

text \<open>
  A JSON string without escapes: the characters up to the next quotation mark; JSON admits no control
  character in it. \<open>read_result\<close> reads a body with one such string.
\<close>

definition plain_char :: "char \<Rightarrow> bool" where
  "plain_char c \<longleftrightarrow> 32 \<le> (of_char c :: nat) \<and> c \<noteq> CHR 0x22 \<and> c \<noteq> CHR 0x5C"

fun scan_string :: "string \<Rightarrow> (string \<times> string) option" where
  "scan_string [] = None"
| "scan_string (c # cs) =
     (if c = CHR 0x22 then Some ([], cs)
      else if plain_char c then map_option (\<lambda>(t, rest). (c # t, rest)) (scan_string cs)
      else None)"

definition read_result :: "string \<Rightarrow> string option" where
  "read_result body =
     (let pre = ''{'' @ quoted ''result'' @ '': '' @ [CHR 0x22] in
      if take (length pre) body = pre
      then (case scan_string (drop (length pre) body) of
              Some (t, rest) \<Rightarrow> if rest = ''}'' then Some t else None
            | None \<Rightarrow> None)
      else None)"

lemma scan_plain: "list_all plain_char t \<Longrightarrow> scan_string (t @ CHR 0x22 # rest) = Some (t, rest)"
  by (induction t) (auto simp: plain_char_def)

lemma scan_not_plain:
  "\<not> list_all plain_char t \<Longrightarrow> scan_string (t @ rest) = Some (u, rest') \<Longrightarrow> length rest \<le> length rest'"
  by (induction t arbitrary: u) (auto split: if_splits)

text \<open>
  Claim C25. A response with a text can be read back exactly when its text has no control character,
  no quotation mark and no backslash, because nothing is escaped; in particular the response to a
  start that failed, whose text ends with a newline, can never be read.
\<close>

theorem response_body_roundtrip:
  "read_result (make_response_body t) = (if list_all plain_char t then Some t else None) \<and>
   read_result (make_response_body (''Failed to start generation: '' @ err @ [CHR 0x0A])) = None"
proof -
  let ?tail = "CHR 0x22 # ''}''"
  have body: "make_response_body u = (''{'' @ quoted ''result'' @ '': '' @ [CHR 0x22]) @ u @ ?tail" for u
    by (simp add: make_response_body_def quoted_def)
  have read: "read_result (make_response_body u) =
      (case scan_string (u @ ?tail) of Some (t, rest) \<Rightarrow> if rest = ''}'' then Some t else None | None \<Rightarrow> None)" for u
    unfolding read_result_def Let_def body by (simp del: append_Cons append_assoc add: append_Cons [symmetric])
  have all: "read_result (make_response_body u) = (if list_all plain_char u then Some u else None)" for u
  proof (cases "list_all plain_char u")
    case True
    then show ?thesis by (simp add: read scan_plain)
  next
    case False
    then show ?thesis
      using scan_not_plain [OF False, of ?tail] by (auto simp: read split: option.split)
  qed
  have "\<not> plain_char (CHR 0x0A)" by (simp add: plain_char_def)
  then have "\<not> list_all plain_char (''Failed to start generation: '' @ err @ [CHR 0x0A])" by simp
  with all show ?thesis by simp
qed

subsection \<open>Answers reach the clients that wait for them\<close>

fun request_handler :: "out_msg \<Rightarrow> req_handler" where
  "request_handler (Req_start_generation cfg) = Start_handler"
| "request_handler Req_stop_generation = Stop_handler"
| "request_handler Req_stats_report = Stats_handler"

fun answer_handler :: "inc_msg \<Rightarrow> req_handler option" where
  "answer_handler (Res_start_generation res) = Some Start_handler"
| "answer_handler (Res_stop_generation res) = Some Stop_handler"
| "answer_handler (Res_stats_report res) = Some Stats_handler"
| "answer_handler (Generation_report r) = None"

fun response_for :: "u64 \<Rightarrow> inc_msg \<Rightarrow> (http_status \<times> string) res" where
  "response_for hz (Res_start_generation None) = Inr (Http_ok, make_response_body ''Generation started'')"
| "response_for hz (Res_start_generation (Some err)) =
     Inr (Precondition_failed, make_response_body (''Failed to start generation: '' @ err @ [CHR 0x0A]))"
| "response_for hz (Res_stop_generation res) = bind_res (stop_body hz res) (\<lambda>b. Inr (Http_ok, b))"
| "response_for hz (Res_stats_report res) = Inr (Http_ok, stats_body res)"
| "response_for hz (Generation_report r) = Inl Undefined"

lemma message_for_handler: "message_for ml h req = Inr msg \<Longrightarrow> request_handler msg = h"
  by (cases h) (auto simp: res_simps)

lemma mgmt_on_msg_eq:
  assumes "answer_handler msg = Some h" and "response_for (counter_hz ml) msg = Inr (code, body)"
  shows "mgmt_on_msg bld ml msg m =
    bind_res (tg_enforce bld (pending h m \<noteq> None)) (\<lambda>_.
    bind_res (call_held (pending h m) code body m) (\<lambda>m1. Inr (hold h None m1)))"
  using assms
  by (cases msg) (auto simp: res_simps pending.simps hold.simps split: option.splits)

lemma response_total:
  assumes "answer_handler msg = Some h" and "hz \<noteq> 0"
  obtains code body where "response_for hz msg = Inr (code, body)"
  using assms stop_body_json [OF assms(2)] by (cases "(hz, msg)" rule: response_for.cases) auto

lemma mgmt_on_msg_ok:
  assumes inv: "mgmt_inv m" and msg: "answer_handler msg = Some h" "pending h m = Some i"
    and r: "response_for (counter_hz ml) msg = Inr (code, body)"
  shows "\<exists>m'. mgmt_on_msg as_meant ml msg m = Inr m' \<and> mgmt_inv m' \<and>
    answered i code body (mm_server m) (mm_server m') \<and> mm_out m' = mm_out m \<and>
    (\<forall>h'. pending h' m' = (if h' = h then None else pending h' m))"
proof -
  have "i \<in> waiting (mm_server m)" using mgmt_invD(4) [OF inv] msg(2) by blast
  from call_back_ok [OF this] obtain s where s: "call_back i code body m = Inr (m\<lparr>mm_server := s\<rparr>)"
    "waiting s = waiting (mm_server m) - {i}" "answered i code body (mm_server m) s" .
  define m' where "m' = hold h None (m\<lparr>mm_server := s\<rparr>)"
  have p: "pending h' m' = (if h' = h then None else pending h' m)" for h' by (simp add: m'_def)
  have "mgmt_on_msg as_meant ml msg m = Inr m'"
    by (simp add: mgmt_on_msg_eq [OF msg(1) r] msg(2) call_held_def s(1) m'_def)
  moreover have "(\<exists>h'. pending h' m' = Some j) \<longleftrightarrow> (\<exists>h'. pending h' m = Some j) \<and> j \<noteq> i" for j
    unfolding p using mgmt_invD(5) [OF inv] msg(2) by (metis option.distinct(1) option.inject)
  then have "mgmt_inv m'"
    using inv s(2) by (auto simp: mgmt_inv_def p m'_def split: if_splits)
  ultimately show ?thesis using s(3) p by (auto simp: m'_def)
qed

text \<open>
  Claim C14. An answer of the generation thread reaches the client it is for: the client whose
  callback is held gets the response for the message and nobody else gets anything, the callback is
  released, and the waiting clients are again the held ones. As the assertion is written the manager
  aborts instead.
\<close>

theorem answer_reaches_client:
  assumes "mgmt_inv m" and "answer_handler msg = Some h" "pending h m = Some i"
    and "response_for (counter_hz ml) msg = Inr (code, body)"
  shows "(\<exists>m'. mgmt_on_msg as_meant ml msg m = Inr m' \<and> mgmt_inv m' \<and>
      answered i code body (mm_server m) (mm_server m') \<and>
      (\<forall>h'. pending h' m' = (if h' = h then None else pending h' m))) \<and>
    mgmt_on_msg as_written ml msg m = Inl Aborted"
  using mgmt_on_msg_ok [OF assms] assms(3) by (auto simp: mgmt_on_msg_eq [OF assms(2,4)])

lemma sample_held_inv: "mgmt_inv (hold Stop_handler (Some 0) sample_mgmt)"
proof -
  have "waiting (mm_server sample_mgmt) = {0}" by (auto simp: waiting_def sample_mgmt_def)
  moreover have "mm_out sample_mgmt = out_queue_new" by (simp add: sample_mgmt_def)
  moreover have "pending h (hold Stop_handler (Some 0) sample_mgmt) = Some j \<longleftrightarrow> h = Stop_handler \<and> j = 0" for h j
    by (auto simp: pending_none)
  ultimately show ?thesis by (simp add: mgmt_inv_def queues_new del: pending_hold)
qed

theorem answer_reaches_client_witness:
  "\<exists>m'. mgmt_on_msg as_meant sample_mgmt_libs (Res_stop_generation \<lparr>summary = no_stats, detailed = []\<rparr>)
     (hold Stop_handler (Some 0) sample_mgmt) = Inr m' \<and> mgmt_inv m' \<and> pending Stop_handler m' = None"
proof -
  let ?msg = "Res_stop_generation \<lparr>summary = no_stats, detailed = []\<rparr>"
  have "answer_handler ?msg = Some Stop_handler" "counter_hz sample_mgmt_libs \<noteq> 0"
    by (simp_all add: sample_mgmt_libs_def)
  then obtain code body where r: "response_for (counter_hz sample_mgmt_libs) ?msg = Inr (code, body)"
    by (rule response_total)
  have "pending Stop_handler (hold Stop_handler (Some 0) sample_mgmt) = Some 0" by simp
  from answer_reaches_client [OF sample_held_inv _ this r] show ?thesis by auto
qed

subsection \<open>A round keeps the manager sound\<close>

text \<open>A completion that can happen, with a text whose meaning is defined.\<close>

definition event_ok :: "mgmt_libs \<Rightarrow> mgmt \<Rightarrow> io_event \<Rightarrow> bool" where
  "event_ok ml m ev \<longleftrightarrow> io_possible ev (mm_server m) \<and>
     (case ev of Read_done i (Inr req) \<Rightarrow> text_defined ml (rq_body req) | _ \<Rightarrow> True)"

text \<open>What a completion can do: nothing to the requests, or send one message and hold its callback.\<close>

definition mgmt_change :: "mgmt \<Rightarrow> mgmt \<Rightarrow> bool" where
  "mgmt_change m m' \<longleftrightarrow>
     (\<forall>h. pending h m' = pending h m) \<and> contents (mm_out m') = contents (mm_out m) \<or>
     (\<exists>i msg. pending (request_handler msg) m = None \<and>
        (\<forall>h. pending h m' = (if h = request_handler msg then Some i else pending h m)) \<and>
        contents (mm_out m') = contents (mm_out m) @ [msg])"

lemma request_outcome_change:
  assumes "request_outcome ml target body i m m'"
  shows "mgmt_change m m'"
proof (cases "map_of req_handlers target")
  case None
  then show ?thesis using assms by (simp add: request_outcome_def mgmt_change_def)
next
  case (Some h)
  show ?thesis
  proof (cases "pending h m = None \<and> (\<exists>msg. message_for ml h body = Inr msg) \<and> length (contents (mm_out m)) < 32")
    case True
    then obtain msg where msg: "message_for ml h body = Inr msg" by blast
    have "contents (mm_out m') = contents (mm_out m) @ [msg]"
      "\<forall>h'. pending h' m' = (if h' = h then Some i else pending h' m)"
      using assms True msg by (simp_all add: request_outcome_def Some)
    then show ?thesis
      using True message_for_handler [OF msg] unfolding mgmt_change_def by blast
  next
    case False
    then have "(\<forall>h. pending h m' = pending h m) \<and> contents (mm_out m') = contents (mm_out m)"
      using assms by (simp add: request_outcome_def Some split: if_splits sum.splits fault.splits)
    then show ?thesis by (simp add: mgmt_change_def)
  qed
qed

lemma mgmt_change_server: "mgmt_change (m\<lparr>mm_server := s\<rparr>) m' \<longleftrightarrow> mgmt_change m m'"
  by (simp add: mgmt_change_def cong: if_cong)

lemma on_server_errors:
  "\<forall>c \<in> set calls. \<exists>info err. c = Handle_error info err \<Longrightarrow> fold_res (on_server_call ml) calls m = Inr m"
  by (induction calls) auto

lemma mgmt_inv_server: "mgmt_inv m \<Longrightarrow> waiting s = waiting (mm_server m) \<Longrightarrow> mgmt_inv (m\<lparr>mm_server := s\<rparr>)"
  by (simp add: mgmt_inv_def)

lemma mgmt_change_refl: "mgmt_change m (m\<lparr>mm_server := s\<rparr>)"
  by (simp add: mgmt_change_def)

lemma poll_one_ok:
  assumes inv: "mgmt_inv m" and libs: "arrays_bounded (cfg_libs ml)"
    and ev: "\<And>e. ev = Some e \<Longrightarrow> event_ok ml m e"
  shows "\<exists>m'. poll_one ml ev m = Inr m' \<and> mgmt_inv m' \<and> mgmt_change m m'"
proof (cases ev)
  case None
  then show ?thesis using inv by (auto simp: poll_one_def mgmt_change_def)
next
  case (Some e)
  obtain calls s where step: "server_step e (mm_server m) = (calls, s)" by force
  have ok: "event_ok ml m e" by (rule ev [OF Some])
  then have "io_possible e (mm_server m)" by (simp add: event_ok_def)
  note w = server_step_waiting [OF this step]
  define m1 where "m1 = m\<lparr>mm_server := s\<rparr>"
  have poll: "poll_one ml ev m = fold_res (on_server_call ml) calls m1"
    by (simp add: poll_one_def Some step m1_def)
  show ?thesis
  proof (cases "\<exists>i req. e = Read_done i (Inr req)")
    case True
    then obtain i req where e: "e = Read_done i (Inr req)" by blast
    have call: "calls = [Handle_request (rq_target req) (rq_body req) i]" "i \<notin> waiting (mm_server m)"
      "waiting s = insert i (waiting (mm_server m))"
      using w by (simp_all add: e)
    have "arriving i m1"
      using inv call(2,3) by (auto simp: arriving_def mgmt_inv_def m1_def)
    moreover have "text_defined ml (rq_body req)" using ok by (simp add: event_ok_def e)
    ultimately obtain m' where m': "on_http_request ml (rq_target req) (rq_body req) i m1 = Inr m'" "mgmt_inv m'"
      "request_outcome ml (rq_target req) (rq_body req) i m1 m'"
      using on_http_request_ok [OF _ _ libs] by blast
    have "mgmt_change m m'" using request_outcome_change [OF m'(3)] by (simp only: m1_def mgmt_change_server)
    then show ?thesis using m'(1,2) by (simp add: poll call(1))
  next
    case False
    then have "waiting s = waiting (mm_server m)" "\<forall>c \<in> set calls. \<exists>info err. c = Handle_error info err"
      using w by (auto split: io_event.splits sum.splits)
    then show ?thesis
      using mgmt_inv_server [OF inv] mgmt_change_refl by (auto simp: poll on_server_errors m1_def)
  qed
qed

text \<open>The answers of a kind in a list; every one of them needs a client that waits for it.\<close>

definition answers :: "req_handler \<Rightarrow> inc_msg list \<Rightarrow> nat" where
  "answers h ms = length (filter (\<lambda>msg. answer_handler msg = Some h) ms)"

lemma answers_simps [simp]:
  "answers h [] = 0" "answers h (ms @ ns) = answers h ms + answers h ns"
  "answers h (msg # ms) = (if answer_handler msg = Some h then Suc (answers h ms) else answers h ms)"
  by (simp_all add: answers_def)

definition waits :: "req_handler \<Rightarrow> mgmt \<Rightarrow> nat" where
  "waits h m = (if pending h m = None then 0 else 1)"

lemma mgmt_messages_ok:
  assumes "counter_hz ml \<noteq> 0"
  shows "\<lbrakk>mgmt_inv m; \<And>h. answers h ms + k h \<le> waits h m\<rbrakk> \<Longrightarrow>
    \<exists>m'. fold_res (mgmt_on_msg as_meant ml) ms m = Inr m' \<and> mgmt_inv m' \<and> mm_out m' = mm_out m \<and>
      (\<forall>h. pending h m' = (if answers h ms = 0 then pending h m else None))"
proof (induction ms arbitrary: m)
  case Nil
  then show ?case by simp
next
  case (Cons msg ms)
  show ?case
  proof (cases "answer_handler msg")
    case None
    then obtain r where "msg = Generation_report r" by (cases msg) auto
    then show ?thesis using Cons.IH [OF Cons.prems(1)] Cons.prems(2) by simp
  next
    case (Some h)
    then have one: "answers h ms + k h = 0" and "pending h m \<noteq> None"
      using Cons.prems(2) [of h] by (auto simp: waits_def split: if_splits)
    then obtain i where i: "pending h m = Some i" by auto
    obtain code body where r: "response_for (counter_hz ml) msg = Inr (code, body)"
      using response_total [OF Some assms] .
    obtain m1 where m1: "mgmt_on_msg as_meant ml msg m = Inr m1" "mgmt_inv m1" "mm_out m1 = mm_out m"
      "\<And>h'. pending h' m1 = (if h' = h then None else pending h' m)"
      using mgmt_on_msg_ok [OF Cons.prems(1) Some i r] by blast
    have "answers h' ms + k h' \<le> waits h' m1" for h'
      using Cons.prems(2) [of h'] Some one by (auto simp: waits_def m1(4) split: if_splits)
    from Cons.IH [OF m1(2) this] obtain m' where "fold_res (mgmt_on_msg as_meant ml) ms m1 = Inr m'"
      "mgmt_inv m'" "mm_out m' = mm_out m1"
      "\<And>h'. pending h' m' = (if answers h' ms = 0 then pending h' m1 else None)" by blast
    then show ?thesis using m1 Some one by (auto intro!: exI [of _ m'])
  qed
qed

lemma mgmt_round_ok:
  assumes inv: "mgmt_inv m" and libs: "arrays_bounded (cfg_libs ml)" "counter_hz ml \<noteq> 0"
    and ev: "\<And>e. ev = Some e \<Longrightarrow> event_ok ml m e"
    and q: "ring_inv q" "length (buff q) = 256" and n: "\<And>h. answers h (contents q) \<le> waits h m"
  shows "\<exists>ms q' m1 m'. mgmt_process_events as_meant ml ev (q, m) = Inr (q', m') \<and> mgmt_inv m' \<and>
    ring_inv q' \<and> length (buff q') = 256 \<and> contents q = ms @ contents q' \<and>
    (ms = [] \<longleftrightarrow> contents q = []) \<and>
    mgmt_change m m1 \<and> (ev = None \<longrightarrow> m1 = m) \<and> contents (mm_out m') = contents (mm_out m1) \<and>
    (\<forall>h. pending h m' = (if answers h ms = 0 then pending h m1 else None)) \<and> mgmt_inv m1"
proof -
  obtain m1 where m1: "poll_one ml ev m = Inr m1" "mgmt_inv m1" "mgmt_change m m1"
    using poll_one_ok [OF inv libs(1) ev] by blast
  have "0 < length (buff q)" "length (buff q) < 2 ^ 64" using q(2) by simp_all
  then obtain cnt ms q' where pop: "try_pop_n (min (ring_capacity q) 8) q = Inr (cnt, ms, q')"
    "ring_inv q'" "length (buff q') = length (buff q)" "contents q = ms @ contents q'"
    "length ms \<le> 8" "ms = [] \<longleftrightarrow> contents q = []"
    using dequeue_pop [OF q(1)] by metis
  have "waits h m \<le> waits h m1" for h
    using m1(3) by (auto simp: mgmt_change_def waits_def)
  then have "answers h ms + answers h (contents q') \<le> waits h m1" for h
    using n [of h] pop(4) by (metis answers_simps(2) le_trans)
  from mgmt_messages_ok [OF libs(2) m1(2) this] obtain m' where
    "fold_res (mgmt_on_msg as_meant ml) ms m1 = Inr m'" "mgmt_inv m'" "mm_out m' = mm_out m1"
    "\<forall>h. pending h m' = (if answers h ms = 0 then pending h m1 else None)" by blast
  moreover have "ev = None \<longrightarrow> m1 = m" using m1(1) by (auto simp: poll_one_def)
  ultimately show ?thesis
    using m1 pop q(2)
    by (intro exI [of _ ms] exI [of _ q'] exI [of _ m1] exI [of _ m'])
       (simp add: mgmt_process_events_def dequeue_def)
qed

end
