(* ===== verification/System.thy ===== *)
theory System
  imports Gen_Manager Mgmt_Manager
begin

section \<open>The two managers and the queues between them (app/application.cpp)\<close>

text \<open>
  Two threads, each running the rounds of one manager, talk through two queues. In a state of the
  system each queue is kept with the manager that writes to it, and a round of the other manager
  takes messages from it. The steps of the system are whole rounds, in any order and with any events
  of the io context; theory \<open>Interleaving\<close> cuts the rounds at their operations on the queues.
\<close>

record ('l, 'w) sys =
  sy_gen :: "('l, 'w) mgr"
  sy_mgmt :: mgmt

definition gen_turn :: "build \<Rightarrow> ('l, 'w) gen_libs \<Rightarrow> ('l, 'w) sys \<Rightarrow> ('l, 'w) sys res" where
  "gen_turn bld L s =
     bind_res (gen_process_events bld L (mm_out (sy_mgmt s), sy_gen s)) (\<lambda>(q, g).
       Inr \<lparr>sy_gen = g, sy_mgmt = (sy_mgmt s)\<lparr>mm_out := q\<rparr>\<rparr>)"

definition mgmt_turn ::
  "build \<Rightarrow> mgmt_libs \<Rightarrow> io_event option \<Rightarrow> ('l, 'w) sys \<Rightarrow> ('l, 'w) sys res" where
  "mgmt_turn bld ml ev s =
     bind_res (mgmt_process_events bld ml ev (mg_out (sy_gen s), sy_mgmt s)) (\<lambda>(q, m).
       Inr \<lparr>sy_gen = (sy_gen s)\<lparr>mg_out := q\<rparr>, sy_mgmt = m\<rparr>)"

text \<open>
  The state after construction, with the queues wired crosswise; the world has moved on since the
  generation manager was made.
\<close>

definition sys_init :: "('l, 'w) gen_libs \<Rightarrow> ('l, 'w) sys \<Rightarrow> bool" where
  "sys_init L s \<longleftrightarrow>
     (\<exists>cfg w w' g v. gen_mgr_new L cfg inc_queue_new w = (Inr g, w') \<and> sy_gen s = g\<lparr>mg_world := v\<rparr>) \<and>
     (\<exists>listen_at nam endpoint. mgmt_new listen_at nam endpoint out_queue_new = Inr (sy_mgmt s))"

definition events_ok :: "mgmt_libs \<Rightarrow> mgmt \<Rightarrow> io_event option \<Rightarrow> bool" where
  "events_ok ml m ev \<longleftrightarrow> (case ev of None \<Rightarrow> True | Some e \<Rightarrow> event_ok ml m e)"

inductive sys_step :: "('l, 'w) gen_libs \<Rightarrow> mgmt_libs \<Rightarrow> ('l, 'w) sys \<Rightarrow> ('l, 'w) sys \<Rightarrow> bool"
  for L ml where
    gen_step: "gen_turn as_meant L s = Inr s' \<Longrightarrow> sys_step L ml s s'"
  | mgmt_step: "events_ok ml (sy_mgmt s) ev \<Longrightarrow> mgmt_turn as_meant ml ev s = Inr s' \<Longrightarrow> sys_step L ml s s'"

inductive_cases sys_stepE: "sys_step L ml s s'"

inductive sys_reach :: "('l, 'w) gen_libs \<Rightarrow> mgmt_libs \<Rightarrow> ('l, 'w) sys \<Rightarrow> bool" for L ml where
    reach_init: "sys_init L s \<Longrightarrow> sys_reach L ml s"
  | reach_step: "sys_reach L ml s \<Longrightarrow> sys_step L ml s s' \<Longrightarrow> sys_reach L ml s'"

subsection \<open>What the generation thread answers\<close>

definition requests :: "req_handler \<Rightarrow> out_msg list \<Rightarrow> nat" where
  "requests h ms = length (filter (\<lambda>msg. request_handler msg = h) ms)"

lemma requests_simps [simp]:
  "requests h [] = 0" "requests h (ms @ ns) = requests h ms + requests h ns"
  "requests h (msg # ms) = (if request_handler msg = h then Suc (requests h ms) else requests h ms)"
  by (simp_all add: requests_def)

lemma answers_reports [simp]: "answers h (map Generation_report rs) = 0"
  by (induction rs) simp_all

lemma answer_ok_handler: "answer_ok L m msg res m' \<Longrightarrow> answer_handler res = Some (request_handler msg)"
  by (cases "(L, m, msg, res, m')" rule: answer_ok.cases) simp_all

text \<open>The answers to a batch: never more than requests, and all of them when they fit.\<close>

lemma gen_messages_ok:
  "\<lbrakk>mgr_ok L bs ar m; \<forall>msg \<in> set msgs. request_ok msg\<rbrakk> \<Longrightarrow>
   \<exists>m' as. fold_res (gen_on_msg as_meant L) msgs m = Inr m' \<and> mgr_ok L bs ar m' \<and>
     contents (mg_out m') = contents (mg_out m) @ as \<and> length as \<le> length msgs \<and>
     (\<forall>h. answers h as \<le> requests h msgs) \<and>
     (length (contents (mg_out m)) + length msgs \<le> 256 \<longrightarrow> (\<forall>h. answers h as = requests h msgs)) \<and>
     (256 \<le> length (contents (mg_out m)) \<longrightarrow> as = [])"
proof (induction msgs arbitrary: m)
  case Nil
  then show ?case by (intro exI [of _ m] exI [of _ "[]"]) simp
next
  case (Cons msg msgs)
  then have "request_ok msg" by simp
  from gen_on_msg_ok [OF Cons.prems(1) this] obtain res m1 where m1: "gen_on_msg as_meant L msg m = Inr m1"
    "mgr_ok L bs ar m1" "contents (mg_out m1) = queued res (contents (mg_out m))" "answer_ok L m msg res m1" by blast
  have res: "answer_handler res = Some (request_handler msg)" by (rule answer_ok_handler [OF m1(4)])
  obtain m' as where rest: "fold_res (gen_on_msg as_meant L) msgs m1 = Inr m'" "mgr_ok L bs ar m'"
    "contents (mg_out m') = contents (mg_out m1) @ as" "length as \<le> length msgs"
    "\<forall>h. answers h as \<le> requests h msgs"
    "length (contents (mg_out m1)) + length msgs \<le> 256 \<longrightarrow> (\<forall>h. answers h as = requests h msgs)"
    "256 \<le> length (contents (mg_out m1)) \<longrightarrow> as = []"
    using Cons.IH [OF m1(2)] Cons.prems(2) by (metis list.set_intros(2))
  show ?case
  proof (cases "length (contents (mg_out m)) < 256")
    case True
    then have c1: "contents (mg_out m1) = contents (mg_out m) @ [res]" using m1(3) by (simp add: queued_def)
    show ?thesis
      using m1(1) rest True res
      by (intro exI [of _ m'] exI [of _ "res # as"]) (auto simp: c1)
  next
    case False
    then have c1: "contents (mg_out m1) = contents (mg_out m)" using m1(3) by (simp add: queued_def)
    have "as = []" using rest(7) False by (simp add: c1)
    then show ?thesis
      using m1(1) rest False by (intro exI [of _ m'] exI [of _ "[]"]) (auto simp: c1)
  qed
qed

lemma gen_turn_ok:
  assumes ok: "mgr_ok L bs ar (sy_gen s)" and inv: "mgmt_inv (sy_mgmt s)"
  shows "\<exists>msgs as rs s'. gen_turn as_meant L s = Inr s' \<and> mgr_ok L bs ar (sy_gen s') \<and>
    mgmt_inv (sy_mgmt s') \<and> (\<forall>h. pending h (sy_mgmt s') = pending h (sy_mgmt s)) \<and>
    mm_server (sy_mgmt s') = mm_server (sy_mgmt s) \<and>
    contents (mm_out (sy_mgmt s)) = msgs @ contents (mm_out (sy_mgmt s')) \<and>
    length msgs \<le> 8 \<and> (msgs = [] \<longleftrightarrow> contents (mm_out (sy_mgmt s)) = []) \<and>
    contents (mg_out (sy_gen s')) = contents (mg_out (sy_gen s)) @ as @ map Generation_report rs \<and>
    length as \<le> length msgs \<and> (\<forall>h. answers h as \<le> requests h msgs) \<and>
    (length (contents (mg_out (sy_gen s))) + length msgs \<le> 256 \<longrightarrow> (\<forall>h. answers h as = requests h msgs)) \<and>
    (256 \<le> length (contents (mg_out (sy_gen s))) \<longrightarrow> as = [])"
proof -
  let ?q = "mm_out (sy_mgmt s)"
  have len: "length (buff ?q) = 32" by (rule mgmt_invD(2) [OF inv])
  then have "0 < length (buff ?q)" "length (buff ?q) < 2 ^ 64" by simp_all
  then obtain cnt msgs q' where pop: "try_pop_n (min (ring_capacity ?q) 8) ?q = Inr (cnt, msgs, q')"
    "ring_inv q'" "length (buff q') = length (buff ?q)" "contents ?q = msgs @ contents q'"
    "length msgs \<le> 8" "msgs = [] \<longleftrightarrow> contents ?q = []"
    using dequeue_pop [OF mgmt_invD(1) [OF inv]] by metis
  have "\<forall>msg \<in> set msgs. request_ok msg" using mgmt_invD(3) [OF inv] pop(4) by simp
  from gen_messages_ok [OF ok this] obtain m1 as where m1:
    "fold_res (gen_on_msg as_meant L) msgs (sy_gen s) = Inr m1" "mgr_ok L bs ar m1"
    "contents (mg_out m1) = contents (mg_out (sy_gen s)) @ as" "length as \<le> length msgs"
    "\<forall>h. answers h as \<le> requests h msgs"
    "length (contents (mg_out (sy_gen s))) + length msgs \<le> 256 \<longrightarrow> (\<forall>h. answers h as = requests h msgs)"
    "256 \<le> length (contents (mg_out (sy_gen s))) \<longrightarrow> as = []" by blast
  obtain m' rs where m': "after_messages as_meant L m1 = Inr m'" "mgr_ok L bs ar m'"
    "contents (mg_out m') = contents (mg_out m1) @ map Generation_report rs"
    using after_messages_ok [OF m1(2)] by blast
  define s' where "s' = \<lparr>sy_gen = m', sy_mgmt = (sy_mgmt s)\<lparr>mm_out := q'\<rparr>\<rparr>"
  have "gen_turn as_meant L s = Inr s'"
    using pop(1) m1(1) m'(1) by (simp add: gen_turn_def gen_process_events_def dequeue_def s'_def)
  moreover have "mgmt_inv (sy_mgmt s')"
    using inv pop(2-4) len by (simp add: mgmt_inv_def s'_def)
  ultimately show ?thesis
    using m1 m' pop
    by (intro exI [of _ msgs] exI [of _ as] exI [of _ rs] exI [of _ s']) (simp add: s'_def)
qed

subsection \<open>The invariant of the system\<close>

text \<open>
  Both managers are sound, and every message under way, a request or an answer, belongs to a callback
  the management manager holds: at most one per kind.
\<close>

definition under_way :: "req_handler \<Rightarrow> ('l, 'w) sys \<Rightarrow> nat" where
  "under_way h s = requests h (contents (mm_out (sy_mgmt s))) + answers h (contents (mg_out (sy_gen s)))"

definition sys_ok ::
  "('l, 'w) gen_libs \<Rightarrow> ('l \<Rightarrow> timer set) \<Rightarrow> ('l \<Rightarrow> timer \<Rightarrow> ctx option) \<Rightarrow> ('l, 'w) sys \<Rightarrow> bool" where
  "sys_ok L bs ar s \<longleftrightarrow>
     mgr_ok L bs ar (sy_gen s) \<and> mgmt_inv (sy_mgmt s) \<and> (\<forall>h. under_way h s \<le> waits h (sy_mgmt s))"

lemma sys_ok_init:
  assumes lib: "libs_documented L bs ar" and init: "sys_init L s"
  shows "sys_ok L bs ar s"
proof -
  obtain cfg w w' g v listen_at nam endpoint where g: "gen_mgr_new L cfg inc_queue_new w = (Inr g, w')"
    and s: "sy_gen s = g\<lparr>mg_world := v\<rparr>" and m: "mgmt_new listen_at nam endpoint out_queue_new = Inr (sy_mgmt s)"
    using init by (auto simp: sys_init_def)
  have gen: "mgr_ok L bs ar (sy_gen s)" "mg_out (sy_gen s) = inc_queue_new"
    using gen_mgr_new_ok [OF lib queues_new(4,6) g] by (simp_all add: s)
  have mgmt: "sy_mgmt s = \<lparr>mm_server = server_new nam, mm_out = out_queue_new, mm_start_cb = None,
      mm_stop_cb = None, mm_stats_cb = None\<rparr>"
    using m by (auto simp: mgmt_new_def res_simps)
  have none: "pending h (sy_mgmt s) = None" for h by (cases h) (simp_all add: mgmt pending.simps)
  have "mm_out (sy_mgmt s) = out_queue_new" "waiting (mm_server (sy_mgmt s)) = {}"
    by (simp_all add: mgmt server_new_def waiting_def)
  then have "mgmt_inv (sy_mgmt s)" by (simp add: mgmt_inv_def none queues_new)
  then show ?thesis using gen by (simp add: sys_ok_def under_way_def mgmt queues_new)
qed

lemma waits_pending: "waits h m = (if pending h m = None then 0 else 1)"
  by (simp add: waits_def)

lemma gen_turn_sys_ok:
  assumes "sys_ok L bs ar s"
  shows "\<exists>s'. gen_turn as_meant L s = Inr s' \<and> sys_ok L bs ar s'"
proof -
  have ok: "mgr_ok L bs ar (sy_gen s)" "mgmt_inv (sy_mgmt s)" "\<And>h. under_way h s \<le> waits h (sy_mgmt s)"
    using assms by (simp_all add: sys_ok_def)
  from gen_turn_ok [OF ok(1,2)] obtain msgs as rs s' where s': "gen_turn as_meant L s = Inr s'"
    "mgr_ok L bs ar (sy_gen s')" "mgmt_inv (sy_mgmt s')" "\<And>h. pending h (sy_mgmt s') = pending h (sy_mgmt s)"
    "contents (mm_out (sy_mgmt s)) = msgs @ contents (mm_out (sy_mgmt s'))"
    "contents (mg_out (sy_gen s')) = contents (mg_out (sy_gen s)) @ as @ map Generation_report rs"
    "\<And>h. answers h as \<le> requests h msgs" by blast
  have "under_way h s' \<le> waits h (sy_mgmt s')" for h
    using ok(3) [of h] s'(7) [of h] by (simp add: under_way_def s'(5,6) waits_pending s'(4))
  then show ?thesis using s'(1-3) by (auto simp: sys_ok_def)
qed

lemma mgr_ok_out_ring:
  "mgr_ok L bs ar m \<Longrightarrow> ring_inv q \<Longrightarrow> length (buff q) = 256 \<Longrightarrow> mgr_ok L bs ar (m\<lparr>mg_out := q\<rparr>)"
  by (auto simp: mgr_ok_def mgr_inv_def mgr_busy_def)

lemma mgr_ok_out_inv:
  assumes "mgr_ok L bs ar m"
  shows "ring_inv (mg_out m)" "length (buff (mg_out m)) = 256"
  using assms by (auto simp: mgr_ok_def mgr_inv_def)

lemma mgmt_turn_ok:
  assumes ok: "sys_ok L bs ar s" and libs: "arrays_bounded (cfg_libs ml)" "counter_hz ml \<noteq> 0"
    and ev: "events_ok ml (sy_mgmt s) ev"
  shows "\<exists>s' m1 ms. mgmt_turn as_meant ml ev s = Inr s' \<and> sys_ok L bs ar s' \<and>
    contents (mg_out (sy_gen s)) = ms @ contents (mg_out (sy_gen s')) \<and>
    (ms = [] \<longleftrightarrow> contents (mg_out (sy_gen s)) = []) \<and>
    mgmt_change (sy_mgmt s) m1 \<and> (ev = None \<longrightarrow> m1 = sy_mgmt s) \<and> contents (mm_out (sy_mgmt s')) = contents (mm_out m1) \<and>
    (\<forall>h. pending h (sy_mgmt s') = (if answers h ms = 0 then pending h m1 else None)) \<and> mgmt_inv m1"
proof -
  have s: "mgr_ok L bs ar (sy_gen s)" "mgmt_inv (sy_mgmt s)" "\<And>h. under_way h s \<le> waits h (sy_mgmt s)"
    using ok by (simp_all add: sys_ok_def)
  have n: "answers h (contents (mg_out (sy_gen s))) \<le> waits h (sy_mgmt s)" for h
    using s(3) [of h] by (simp add: under_way_def)
  have e: "event_ok ml (sy_mgmt s) x" if "ev = Some x" for x using ev that by (simp add: events_ok_def)
  obtain ms q' m1 m' where r: "mgmt_process_events as_meant ml ev (mg_out (sy_gen s), sy_mgmt s) = Inr (q', m')"
    "mgmt_inv m'" "ring_inv q'" "length (buff q') = 256" "contents (mg_out (sy_gen s)) = ms @ contents q'"
    "ms = [] \<longleftrightarrow> contents (mg_out (sy_gen s)) = []" "mgmt_change (sy_mgmt s) m1"
    "contents (mm_out m') = contents (mm_out m1)"
    "\<And>h. pending h m' = (if answers h ms = 0 then pending h m1 else None)" "ev = None \<longrightarrow> m1 = sy_mgmt s"
    "mgmt_inv m1"
    using mgmt_round_ok [OF s(2) libs e mgr_ok_out_inv [OF s(1)] n] by blast
  define s' where "s' = \<lparr>sy_gen = (sy_gen s)\<lparr>mg_out := q'\<rparr>, sy_mgmt = m'\<rparr>"
  have "under_way h s' \<le> waits h m'" for h
  proof -
    have all: "requests h (contents (mm_out (sy_mgmt s))) + (answers h ms + answers h (contents q'))
        \<le> waits h (sy_mgmt s)"
      using s(3) [of h] by (simp add: under_way_def r(5))
    from r(7) show ?thesis
      unfolding mgmt_change_def
    proof
      assume "(\<forall>h. pending h m1 = pending h (sy_mgmt s)) \<and> contents (mm_out m1) = contents (mm_out (sy_mgmt s))"
      then show ?thesis
        using all by (auto simp: under_way_def s'_def r(8,9) waits_pending split: if_splits)
    next
      assume "\<exists>i msg. pending (request_handler msg) (sy_mgmt s) = None \<and>
          (\<forall>h. pending h m1 = (if h = request_handler msg then Some i else pending h (sy_mgmt s))) \<and>
          contents (mm_out m1) = contents (mm_out (sy_mgmt s)) @ [msg]"
      then obtain i msg where new: "pending (request_handler msg) (sy_mgmt s) = None"
        "\<And>h. pending h m1 = (if h = request_handler msg then Some i else pending h (sy_mgmt s))"
        "contents (mm_out m1) = contents (mm_out (sy_mgmt s)) @ [msg]" by blast
      then show ?thesis
        using all by (cases "h = request_handler msg") (auto simp: under_way_def s'_def r(8,9) waits_pending split: if_splits)
    qed
  qed
  then have "sys_ok L bs ar s'"
    using mgr_ok_out_ring [OF s(1) r(3,4)] r(2) by (simp add: sys_ok_def s'_def)
  moreover have "mgmt_turn as_meant ml ev s = Inr s'" using r(1) by (simp add: mgmt_turn_def s'_def)
  ultimately show ?thesis
    using r by (intro exI [of _ s'] exI [of _ m1] exI [of _ ms]) (simp add: s'_def)
qed

lemma sys_reach_ok:
  assumes "libs_documented L bs ar" "arrays_bounded (cfg_libs ml)" "counter_hz ml \<noteq> 0"
  shows "sys_reach L ml s \<Longrightarrow> sys_ok L bs ar s"
proof (induction rule: sys_reach.induct)
  case (reach_init s)
  then show ?case by (rule sys_ok_init [OF assms(1)])
next
  case (reach_step s s')
  from reach_step.hyps(2) show ?case
  proof (cases rule: sys_step.cases)
    case gen_step
    then show ?thesis using gen_turn_sys_ok [OF reach_step.IH] by auto
  next
    case (mgmt_step ev)
    then show ?thesis using mgmt_turn_ok [OF reach_step.IH assms(2,3)] by fastforce
  qed
qed

text \<open>
  In every state the system can reach by rounds of the two threads in any order, with any clients
  and any results of the libraries that are documented, the next round of either thread returns; and
  every request or answer under way belongs to a client that is being waited for, one per kind.
\<close>

lemma system_never_aborts:
  assumes "libs_documented L bs ar" "arrays_bounded (cfg_libs ml)" "counter_hz ml \<noteq> 0"
    and "sys_reach L ml s"
  shows "(\<exists>s'. gen_turn as_meant L s = Inr s') \<and>
    (\<forall>ev. events_ok ml (sy_mgmt s) ev \<longrightarrow> (\<exists>s'. mgmt_turn as_meant ml ev s = Inr s')) \<and>
    (\<forall>h. under_way h s \<le> waits h (sy_mgmt s))"
proof -
  have ok: "sys_ok L bs ar s" by (rule sys_reach_ok [OF assms])
  show ?thesis
    using gen_turn_sys_ok [OF ok] mgmt_turn_ok [OF ok assms(2,3)] ok by (fastforce simp: sys_ok_def)
qed

text \<open>A system in which everything is documented, for the concrete cases.\<close>

lemma sample_wait_link: "wait_link sample_nic p (Suc k) False () = (True, ())"
proof -
  have "wait_link sample_nic p k True () = (True, ())" by (cases k) simp_all
  then show ?thesis by (simp add: sample_nic_def)
qed

lemma sample_eth_new: "eth_new sample_nic (\<lambda>_. []) \<lparr>ec_port = 0, ec_queue_size = 128, ec_socket = 0\<rparr> () = (Inr 0, ())"
proof -
  let ?cfg = "\<lparr>ec_port = 0, ec_queue_size = 128, ec_socket = 0\<rparr>" and ?conf = "\<lparr>rx_offloads = 14, tx_offloads = 14\<rparr>"
  have "set_capabilities sample_nic (\<lambda>_. []) ?cfg () = (Inr (sample_dev_info, ?conf), ())"
    using sample_capabilities by (simp add: sample_eth_config_def)
  moreover have "eth_configure sample_nic (\<lambda>_. []) ?cfg sample_dev_info ?conf () = (Inr (), ())"
    by (simp add: eth_configure_def sample_nic_def Let_def)
  moreover have "wait_link sample_nic 0 100 False () = (True, ())"
    using sample_wait_link [of 0 99] by (simp del: wait_link.simps)
  then have "eth_start sample_nic (\<lambda>_. []) ?cfg () = (Inr (), ())"
    by (simp add: eth_start_def Let_def del: wait_link.simps) (simp add: sample_nic_def)
  ultimately show ?thesis by (simp add: eth_new_def)
qed

definition sample_mgmt_new :: mgmt where
  "sample_mgmt_new =
     \<lparr>mm_server = server_new ''beast'', mm_out = out_queue_new, mm_start_cb = None, mm_stop_cb = None,
      mm_stats_cb = None\<rparr>"

lemma sample_sys_init:
  "sys_init sample_gen_libs \<lparr>sy_gen = sample_mgr, sy_mgmt = sample_mgmt_new\<rparr>"
proof -
  have pool: "mbuf_pool_new sample_pool_lib (\<lambda>_. []) \<lparr>pc_cnt_mbufs = 4096, pc_socket = 0\<rparr> () = (Inr 1, ())"
    by (simp add: mbuf_pool_new_def set_max_count_fds_def sample_pool_lib_def)
  have "gen_mgr_new sample_gen_libs \<lparr>mc_working_dir = [], mc_max_cnt_mbufs = 4096, mc_nic_queue_size = 128\<rparr>
      inc_queue_new () = (Inr sample_mgr, ())"
    using pool sample_eth_new
    by (simp add: gen_mgr_new_def sample_gen_libs_def nic_port_id_def) (simp add: sample_mgr_def)
  moreover have "mgmt_new (\<lambda>_. 0) ''beast'' [] out_queue_new = Inr sample_mgmt_new"
    by (simp add: mgmt_new_def make_acceptor_def sample_mgmt_new_def)
  moreover have "sample_mgr = sample_mgr\<lparr>mg_world := ()\<rparr>" by simp
  ultimately show ?thesis unfolding sys_init_def sys.simps by blast
qed

lemma sample_mgmt_libs_ok: "arrays_bounded (cfg_libs sample_mgmt_libs)" "counter_hz sample_mgmt_libs \<noteq> 0"
  by (simp_all add: sample_mgmt_libs_def arrays_bounded_def parse_sample)

lemma system_never_aborts_witness:
  "\<exists>s'. gen_turn as_meant sample_gen_libs \<lparr>sy_gen = sample_mgr, sy_mgmt = sample_mgmt_new\<rparr> = Inr s'"
  using system_never_aborts [OF sample_libs_documented sample_mgmt_libs_ok reach_init [OF sample_sys_init]]
  by blast

lemma mgmt_inv_out:
  "mgmt_inv m \<Longrightarrow> ring_inv q \<Longrightarrow> length (buff q) = 32 \<Longrightarrow> \<forall>msg \<in> set (contents q). request_ok msg \<Longrightarrow>
     mgmt_inv (m\<lparr>mm_out := q\<rparr>)"
  by (simp add: mgmt_inv_def)

text \<open>The client of \<open>sample_mgmt\<close> waits for its stop, with any sound queue towards it.\<close>

lemma sample_waiting_sys:
  assumes "ring_inv outq" "length (buff outq) = 256" "\<And>h. answers h (contents outq) = 0"
  obtains s :: "((timer \<times> ctx) list \<times> timer list, unit) sys" where
    "sys_ok sample_gen_libs sample_busy sample_armed s" "contents (mm_out (sy_mgmt s)) = [Req_stop_generation]"
    "mg_out (sy_gen s) = outq" "pending Stop_handler (sy_mgmt s) = Some 0"
    "\<And>h. h \<noteq> Stop_handler \<Longrightarrow> pending h (sy_mgmt s) = None"
proof -
  obtain q where q: "ring_inv q" "length (buff q) = 32" "contents q = [Req_stop_generation]"
    using enqueue_spec [OF queues_new(1), of Req_stop_generation] by (auto simp: queues_new)
  define s where "s = \<lparr>sy_gen = sample_mgr\<lparr>mg_out := outq\<rparr>,
      sy_mgmt = (hold Stop_handler (Some 0) sample_mgmt)\<lparr>mm_out := q\<rparr>\<rparr>"
  have gen: "mgr_ok sample_gen_libs sample_busy sample_armed (sy_gen s)"
    using mgr_ok_out_ring [OF sample_mgr_ok assms(1,2)] by (simp add: s_def)
  have p: "pending h (sy_mgmt s) = (if h = Stop_handler then Some 0 else None)" for h
    by (simp add: s_def pending_none)
  have "mgmt_inv (sy_mgmt s)"
    using mgmt_inv_out [OF sample_held_inv q(1,2)] q(3) by (simp add: s_def)
  moreover have "under_way h s \<le> waits h (sy_mgmt s)" for h
    using assms(3) by (cases h) (simp_all add: under_way_def waits_def p, simp_all add: s_def q)
  ultimately have "sys_ok sample_gen_libs sample_busy sample_armed s" using gen by (simp add: sys_ok_def)
  moreover have "pending Stop_handler (sy_mgmt s) = Some 0" "h \<noteq> Stop_handler \<Longrightarrow> pending h (sy_mgmt s) = None" for h
    by (simp_all add: p)
  moreover have "contents (mm_out (sy_mgmt s)) = [Req_stop_generation]" "mg_out (sy_gen s) = outq"
    by (simp_all add: s_def q)
  ultimately show ?thesis by (intro that [of s])
qed

subsection \<open>An answer that is lost\<close>

text \<open>A client is held and nothing under way belongs to it.\<close>

definition forgotten :: "req_handler \<Rightarrow> nat \<Rightarrow> ('l, 'w) sys \<Rightarrow> bool" where
  "forgotten h i s \<longleftrightarrow> pending h (sy_mgmt s) = Some i \<and> under_way h s = 0"

lemma forgotten_step:
  assumes libs: "arrays_bounded (cfg_libs ml)" "counter_hz ml \<noteq> 0"
    and ok: "sys_ok L bs ar s" and lost: "forgotten h i s" and step: "sys_step L ml s s'"
  shows "sys_ok L bs ar s' \<and> forgotten h i s'"
  using step
proof (cases rule: sys_step.cases)
  case gen_step
  have gen: "mgr_ok L bs ar (sy_gen s)" "mgmt_inv (sy_mgmt s)" using ok by (simp_all add: sys_ok_def)
  obtain msgs as rs where s': "\<And>h. pending h (sy_mgmt s') = pending h (sy_mgmt s)"
    "contents (mm_out (sy_mgmt s)) = msgs @ contents (mm_out (sy_mgmt s'))"
    "contents (mg_out (sy_gen s')) = contents (mg_out (sy_gen s)) @ as @ map Generation_report rs"
    "\<And>h. answers h as \<le> requests h msgs"
    using gen_turn_ok [OF gen] gen_step by auto
  have "requests h msgs = 0" using lost by (simp add: forgotten_def under_way_def s'(2))
  then have "answers h as = 0" using s'(4) [of h] by simp
  then have "forgotten h i s'" using lost by (simp add: forgotten_def under_way_def s'(1-3))
  then show ?thesis using gen_turn_sys_ok [OF ok] gen_step by auto
next
  case (mgmt_step ev)
  obtain m1 ms where r: "sys_ok L bs ar s'" "contents (mg_out (sy_gen s)) = ms @ contents (mg_out (sy_gen s'))"
    "mgmt_change (sy_mgmt s) m1" "contents (mm_out (sy_mgmt s')) = contents (mm_out m1)"
    "\<And>h. pending h (sy_mgmt s') = (if answers h ms = 0 then pending h m1 else None)"
    using mgmt_turn_ok [OF ok libs mgmt_step(1)] mgmt_step(2) by auto
  have none: "answers h ms = 0" "answers h (contents (mg_out (sy_gen s'))) = 0"
    "requests h (contents (mm_out (sy_mgmt s))) = 0"
    using lost by (simp_all add: forgotten_def under_way_def r(2))
  have "pending h m1 = Some i \<and> requests h (contents (mm_out m1)) = 0"
    using r(3) [unfolded mgmt_change_def]
  proof (elim disjE exE conjE)
    fix j msg
    assume new: "pending (request_handler msg) (sy_mgmt s) = None"
      "\<forall>h. pending h m1 = (if h = request_handler msg then Some j else pending h (sy_mgmt s))"
      "contents (mm_out m1) = contents (mm_out (sy_mgmt s)) @ [msg]"
    have "request_handler msg \<noteq> h" using new(1) lost by (auto simp: forgotten_def)
    then show ?thesis using new(3) none(3) spec [OF new(2), of h] lost by (simp add: forgotten_def)
  qed (use lost none(3) in \<open>simp add: forgotten_def\<close>)
  then show ?thesis using r(1) none by (simp add: forgotten_def under_way_def r(4,5))
qed

text \<open>
  Claim C17. A lost answer is never made up for: when the queue to the management is full of reports
  as the generation thread handles a request, its answer is dropped, and from then on, whatever
  happens, the client waits and the request's callback stays held, so that every further request of
  that kind is refused as being in progress.
\<close>

theorem lost_answer_blocks_client:
  assumes "sys_ok L bs ar s" and libs: "arrays_bounded (cfg_libs ml)" "counter_hz ml \<noteq> 0"
    and msg: "contents (mm_out (sy_mgmt s)) = [msg]" and full: "256 \<le> length (contents (mg_out (sy_gen s)))"
    and client: "pending (request_handler msg) (sy_mgmt s) = Some i"
    and step: "gen_turn as_meant L s = Inr s1" and later: "(sys_step L ml)\<^sup>*\<^sup>* s1 s2"
  shows "pending (request_handler msg) (sy_mgmt s2) = Some i \<and> i \<in> waiting (mm_server (sy_mgmt s2))"
proof -
  let ?h = "request_handler msg"
  have ok: "mgr_ok L bs ar (sy_gen s)" "mgmt_inv (sy_mgmt s)" and one: "under_way ?h s \<le> 1"
    using assms(1) client by (auto simp: sys_ok_def waits_def dest: spec [of _ ?h])
  obtain msgs rs where s1: "\<And>h. pending h (sy_mgmt s1) = pending h (sy_mgmt s)"
    "[msg] = msgs @ contents (mm_out (sy_mgmt s1))" "msgs \<noteq> []"
    "contents (mg_out (sy_gen s1)) = contents (mg_out (sy_gen s)) @ map Generation_report rs"
    using gen_turn_ok [OF ok] step full unfolding msg by auto
  have rest: "contents (mm_out (sy_mgmt s1)) = []" using s1(2,3) by (cases msgs) auto
  have "answers ?h (contents (mg_out (sy_gen s))) = 0" using one by (simp add: under_way_def msg)
  then have lost: "forgotten ?h i s1" using client by (simp add: forgotten_def under_way_def rest s1(1,4))
  have ok1: "sys_ok L bs ar s1" using gen_turn_sys_ok [OF assms(1)] step by auto
  from later have "sys_ok L bs ar s2 \<and> forgotten ?h i s2"
    by (induction rule: rtranclp_induct) (use ok1 lost forgotten_step [OF libs] in blast)+
  then show ?thesis by (auto simp: sys_ok_def forgotten_def mgmt_invD(4))
qed

lemma full_queue: "n \<le> 256 \<Longrightarrow> \<exists>q. ring_inv q \<and> length (buff q) = 256 \<and> contents q = replicate n (Generation_report r)"
proof (induction n)
  case 0
  then show ?case using queues_new(4-6) by auto
next
  case (Suc n)
  then obtain q where q: "ring_inv q" "length (buff q) = 256" "contents q = replicate n (Generation_report r)" by auto
  obtain q' where "ring_inv q'" "length (buff q') = length (buff q)"
    "contents q' = (if length (contents q) < length (buff q) then contents q @ [Generation_report r] else contents q)"
    using enqueue_spec [OF q(1), of "Generation_report r"] by blast
  then show ?case using q Suc.prems by (intro exI [of _ q']) (simp add: replicate_append_same)
qed

theorem lost_answer_blocks_client_witness:
  "\<exists>(s :: ((timer \<times> ctx) list \<times> timer list, unit) sys) s1.
     gen_turn as_meant sample_gen_libs s = Inr s1 \<and>
     (\<forall>s2. (sys_step sample_gen_libs sample_mgmt_libs)\<^sup>*\<^sup>* s1 s2 \<longrightarrow> 0 \<in> waiting (mm_server (sy_mgmt s2)))"
proof -
  obtain q where q: "ring_inv q" "length (buff q) = 256"
    "contents q = replicate 256 (Generation_report undefined)"
    using full_queue [of 256 undefined] by auto
  have "answers h (replicate n (Generation_report r)) = 0" for h n r by (induction n) simp_all
  then obtain s :: "((timer \<times> ctx) list \<times> timer list, unit) sys" where
    s: "sys_ok sample_gen_libs sample_busy sample_armed s" "contents (mm_out (sy_mgmt s)) = [Req_stop_generation]"
    "mg_out (sy_gen s) = q" "pending Stop_handler (sy_mgmt s) = Some 0"
    using sample_waiting_sys [OF q(1,2)] q(3) by metis
  obtain s1 where s1: "gen_turn as_meant sample_gen_libs s = Inr s1"
    using gen_turn_sys_ok [OF s(1)] by blast
  have "256 \<le> length (contents (mg_out (sy_gen s)))" "pending (request_handler Req_stop_generation) (sy_mgmt s) = Some 0"
    using s(3,4) q(3) by simp_all
  from lost_answer_blocks_client [OF s(1) sample_mgmt_libs_ok s(2) this s1] s1 show ?thesis by blast
qed

end
