(* ===== verification/Interleaving.thy ===== *)
theory Interleaving
  imports System
begin

section \<open>The rounds of the two managers, interleaved\<close>

text \<open>
  In theory \<open>System\<close> a step is a whole round of one thread. Here a round is cut where the other
  thread can see it: at its operations on the queues. The generation thread takes a batch of
  requests, handles each of them, which puts one answer into the other queue, and finishes the
  round. The management thread polls the io context, which may put a request into its queue, takes
  a batch of messages, and handles each of them, which touches no queue. Between any two of these
  steps the other thread may take any number of its own. An operation on a queue is atomic: theory
  \<open>Spsc_Concurrent\<close> shows that the ring is a refinement of a queue with atomic operations. The
  reports of the flows, which the management thread ignores, are put into the queue by the step
  that finishes the round.
\<close>

datatype gen_pc = G_idle | G_batch "out_msg list"

datatype mgmt_pc = M_idle | M_polled | M_batch "inc_msg list"

record ('l, 'w) isys =
  whole :: "('l, 'w) sys"
  g_pc :: gen_pc
  m_pc :: mgmt_pc

definition isys_start :: "('l, 'w) sys \<Rightarrow> ('l, 'w) isys" where
  "isys_start s = \<lparr>whole = s, g_pc = G_idle, m_pc = M_idle\<rparr>"

definition take_batch :: "'m ring \<Rightarrow> ('m list \<times> 'm ring) res" where
  "take_batch q = bind_res (try_pop_n (min (ring_capacity q) 8) q) (\<lambda>(cnt, msgs, q'). Inr (msgs, q'))"

definition gen_micro :: "build \<Rightarrow> ('l, 'w) gen_libs \<Rightarrow> ('l, 'w) isys \<Rightarrow> ('l, 'w) isys res" where
  "gen_micro bld L s =
     (let x = whole s in
      case g_pc s of
        G_idle \<Rightarrow>
          bind_res (take_batch (mm_out (sy_mgmt x))) (\<lambda>(msgs, q).
            Inr (s\<lparr>whole := x\<lparr>sy_mgmt := (sy_mgmt x)\<lparr>mm_out := q\<rparr>\<rparr>, g_pc := G_batch msgs\<rparr>))
      | G_batch (msg # msgs) \<Rightarrow>
          bind_res (noexcept (gen_on_msg bld L msg (sy_gen x))) (\<lambda>g.
            Inr (s\<lparr>whole := x\<lparr>sy_gen := g\<rparr>, g_pc := G_batch msgs\<rparr>))
      | G_batch [] \<Rightarrow>
          bind_res (after_messages bld L (sy_gen x)) (\<lambda>g.
            Inr (s\<lparr>whole := x\<lparr>sy_gen := g\<rparr>, g_pc := G_idle\<rparr>)))"

definition mgmt_micro ::
  "build \<Rightarrow> mgmt_libs \<Rightarrow> io_event option \<Rightarrow> ('l, 'w) isys \<Rightarrow> ('l, 'w) isys res" where
  "mgmt_micro bld ml ev s =
     (let x = whole s in
      case m_pc s of
        M_idle \<Rightarrow>
          bind_res (poll_one ml ev (sy_mgmt x)) (\<lambda>m.
            Inr (s\<lparr>whole := x\<lparr>sy_mgmt := m\<rparr>, m_pc := M_polled\<rparr>))
      | M_polled \<Rightarrow>
          bind_res (take_batch (mg_out (sy_gen x))) (\<lambda>(msgs, q).
            Inr (s\<lparr>whole := x\<lparr>sy_gen := (sy_gen x)\<lparr>mg_out := q\<rparr>\<rparr>, m_pc := M_batch msgs\<rparr>))
      | M_batch (msg # msgs) \<Rightarrow>
          bind_res (noexcept (mgmt_on_msg bld ml msg (sy_mgmt x))) (\<lambda>m.
            Inr (s\<lparr>whole := x\<lparr>sy_mgmt := m\<rparr>, m_pc := M_batch msgs\<rparr>))
      | M_batch [] \<Rightarrow> Inr (s\<lparr>m_pc := M_idle\<rparr>))"

text \<open>An event of the io context is possible when the management thread polls.\<close>

definition micro_event_ok :: "mgmt_libs \<Rightarrow> ('l, 'w) isys \<Rightarrow> io_event option \<Rightarrow> bool" where
  "micro_event_ok ml s ev \<longleftrightarrow> (m_pc s = M_idle \<longrightarrow> events_ok ml (sy_mgmt (whole s)) ev)"

definition gen_moves :: "('l, 'w) gen_libs \<Rightarrow> ('l, 'w) isys \<Rightarrow> ('l, 'w) isys \<Rightarrow> bool" where
  "gen_moves L s s' \<longleftrightarrow> gen_micro as_meant L s = Inr s'"

definition mgmt_moves :: "mgmt_libs \<Rightarrow> ('l, 'w) isys \<Rightarrow> ('l, 'w) isys \<Rightarrow> bool" where
  "mgmt_moves ml s s' \<longleftrightarrow> (\<exists>ev. micro_event_ok ml s ev \<and> mgmt_micro as_meant ml ev s = Inr s')"

inductive isys_reach :: "('l, 'w) gen_libs \<Rightarrow> mgmt_libs \<Rightarrow> ('l, 'w) isys \<Rightarrow> bool" for L ml where
    start: "sys_init L x \<Longrightarrow> isys_reach L ml (isys_start x)"
  | gen: "isys_reach L ml s \<Longrightarrow> gen_moves L s s' \<Longrightarrow> isys_reach L ml s'"
  | mgmt: "isys_reach L ml s \<Longrightarrow> mgmt_moves ml s s' \<Longrightarrow> isys_reach L ml s'"

subsection \<open>The steps of a round make up the round\<close>

text \<open>Taken without an interruption, the steps of a thread are its round.\<close>

fun gen_steps :: "build \<Rightarrow> ('l, 'w) gen_libs \<Rightarrow> nat \<Rightarrow> ('l, 'w) isys \<Rightarrow> ('l, 'w) isys res" where
  "gen_steps bld L 0 s = Inr s"
| "gen_steps bld L (Suc n) s = bind_res (gen_micro bld L s) (gen_steps bld L n)"

lemma gen_steps_batch:
  assumes "fold_res (gen_on_msg bld L) msgs g = Inr g1" and "after_messages bld L g1 = Inr g'"
  shows "gen_steps bld L (Suc (length msgs)) \<lparr>whole = \<lparr>sy_gen = g, sy_mgmt = m\<rparr>, g_pc = G_batch msgs, m_pc = p\<rparr> =
    Inr \<lparr>whole = \<lparr>sy_gen = g', sy_mgmt = m\<rparr>, g_pc = G_idle, m_pc = p\<rparr>"
  using assms
proof (induction msgs arbitrary: g)
  case Nil
  then show ?case by (simp add: gen_micro_def)
next
  case (Cons msg msgs)
  then obtain g0 where "gen_on_msg bld L msg g = Inr g0" "fold_res (gen_on_msg bld L) msgs g0 = Inr g1"
    by (auto simp: res_simps)
  then show ?case using Cons.IH [of g0] Cons.prems(2) by (simp add: gen_micro_def)
qed

lemma gen_steps_round:
  assumes "gen_turn bld L s = Inr s'"
  shows "\<exists>n. gen_steps bld L n (isys_start s) = Inr (isys_start s')"
proof -
  obtain cnt msgs q g1 g' where pop: "try_pop_n (min (ring_capacity (mm_out (sy_mgmt s))) 8) (mm_out (sy_mgmt s)) =
      Inr (cnt, msgs, q)" and msgs: "fold_res (gen_on_msg bld L) msgs (sy_gen s) = Inr g1"
    and after: "after_messages bld L g1 = Inr g'"
    and s': "s' = \<lparr>sy_gen = g', sy_mgmt = (sy_mgmt s)\<lparr>mm_out := q\<rparr>\<rparr>"
    using assms by (auto simp: gen_turn_def gen_process_events_def dequeue_def res_simps)
  have "gen_micro bld L (isys_start s) = Inr \<lparr>whole = \<lparr>sy_gen = sy_gen s, sy_mgmt = (sy_mgmt s)\<lparr>mm_out := q\<rparr>\<rparr>,
      g_pc = G_batch msgs, m_pc = M_idle\<rparr>"
    by (cases s) (use pop in \<open>simp add: gen_micro_def isys_start_def take_batch_def\<close>)
  then have "gen_steps bld L (Suc (Suc (length msgs))) (isys_start s) = Inr (isys_start s')"
    using gen_steps_batch [OF msgs after] by (simp only: gen_steps.simps(2) bind_res.simps isys_start_def s')
  then show ?thesis by blast
qed

fun mgmt_steps :: "build \<Rightarrow> mgmt_libs \<Rightarrow> io_event option \<Rightarrow> nat \<Rightarrow> ('l, 'w) isys \<Rightarrow> ('l, 'w) isys res" where
  "mgmt_steps bld ml ev 0 s = Inr s"
| "mgmt_steps bld ml ev (Suc n) s = bind_res (mgmt_micro bld ml ev s) (mgmt_steps bld ml ev n)"

lemma mgmt_steps_batch:
  assumes "fold_res (mgmt_on_msg bld ml) msgs m = Inr m'"
  shows "mgmt_steps bld ml ev (Suc (length msgs)) \<lparr>whole = \<lparr>sy_gen = g, sy_mgmt = m\<rparr>, g_pc = p, m_pc = M_batch msgs\<rparr> =
    Inr \<lparr>whole = \<lparr>sy_gen = g, sy_mgmt = m'\<rparr>, g_pc = p, m_pc = M_idle\<rparr>"
  using assms
proof (induction msgs arbitrary: m)
  case Nil
  then show ?case by (simp add: mgmt_micro_def)
next
  case (Cons msg msgs)
  then obtain m0 where "mgmt_on_msg bld ml msg m = Inr m0" "fold_res (mgmt_on_msg bld ml) msgs m0 = Inr m'"
    by (auto simp: res_simps)
  then show ?case using Cons.IH [of m0] by (simp add: mgmt_micro_def)
qed

lemma mgmt_steps_round:
  assumes "mgmt_turn bld ml ev s = Inr s'"
  shows "\<exists>n. mgmt_steps bld ml ev n (isys_start s) = Inr (isys_start s')"
proof -
  obtain m1 cnt msgs q m' where poll: "poll_one ml ev (sy_mgmt s) = Inr m1"
    and pop: "try_pop_n (min (ring_capacity (mg_out (sy_gen s))) 8) (mg_out (sy_gen s)) = Inr (cnt, msgs, q)"
    and msgs: "fold_res (mgmt_on_msg bld ml) msgs m1 = Inr m'"
    and s': "s' = \<lparr>sy_gen = (sy_gen s)\<lparr>mg_out := q\<rparr>, sy_mgmt = m'\<rparr>"
    using assms by (auto simp: mgmt_turn_def mgmt_process_events_def dequeue_def res_simps)
  have one: "mgmt_micro bld ml ev (isys_start s) =
      Inr \<lparr>whole = \<lparr>sy_gen = sy_gen s, sy_mgmt = m1\<rparr>, g_pc = G_idle, m_pc = M_polled\<rparr>"
    by (cases s) (use poll in \<open>simp add: mgmt_micro_def isys_start_def\<close>)
  have two: "mgmt_micro bld ml ev \<lparr>whole = \<lparr>sy_gen = sy_gen s, sy_mgmt = m1\<rparr>, g_pc = G_idle, m_pc = M_polled\<rparr> =
      Inr \<lparr>whole = \<lparr>sy_gen = (sy_gen s)\<lparr>mg_out := q\<rparr>, sy_mgmt = m1\<rparr>, g_pc = G_idle, m_pc = M_batch msgs\<rparr>"
    using pop by (simp add: mgmt_micro_def take_batch_def)
  have "mgmt_steps bld ml ev (Suc (Suc (Suc (length msgs)))) (isys_start s) = Inr (isys_start s')"
    using mgmt_steps_batch [OF msgs] by (simp only: mgmt_steps.simps(2) bind_res.simps one [unfolded isys_start_def] two isys_start_def s')
  then show ?thesis by blast
qed

subsection \<open>The invariant\<close>

fun g_held :: "gen_pc \<Rightarrow> out_msg list" where
  "g_held (G_batch msgs) = msgs"
| "g_held G_idle = []"

fun m_held :: "mgmt_pc \<Rightarrow> inc_msg list" where
  "m_held (M_batch msgs) = msgs"
| "m_held _ = []"

abbreviation to_gen :: "('l, 'w) isys \<Rightarrow> out_msg list" where "to_gen s \<equiv> contents (mm_out (sy_mgmt (whole s)))"
abbreviation to_mgmt :: "('l, 'w) isys \<Rightarrow> inc_msg list" where "to_mgmt s \<equiv> contents (mg_out (sy_gen (whole s)))"
abbreviation held_for :: "req_handler \<Rightarrow> ('l, 'w) isys \<Rightarrow> nat option" where
  "held_for h s \<equiv> pending h (sy_mgmt (whole s))"

abbreviation started :: "('l, 'w) isys \<Rightarrow> bool" where "started s \<equiv> generation_started (sy_gen (whole s))"

text \<open>Where the request of a client, or its answer, can be: in a queue or in the hands of a thread.\<close>

definition around :: "req_handler \<Rightarrow> ('l, 'w) isys \<Rightarrow> nat" where
  "around h s = requests h (g_held (g_pc s)) + requests h (to_gen s) +
     (answers h (m_held (m_pc s)) + answers h (to_mgmt s))"

definition isys_ok ::
  "('l, 'w) gen_libs \<Rightarrow> ('l \<Rightarrow> timer set) \<Rightarrow> ('l \<Rightarrow> timer \<Rightarrow> ctx option) \<Rightarrow> ('l, 'w) isys \<Rightarrow> bool" where
  "isys_ok L bs ar s \<longleftrightarrow>
     mgr_ok L bs ar (sy_gen (whole s)) \<and> mgmt_inv (sy_mgmt (whole s)) \<and>
     (\<forall>msg \<in> set (g_held (g_pc s)). request_ok msg) \<and>
     length (g_held (g_pc s)) \<le> 8 \<and> length (m_held (m_pc s)) \<le> 8 \<and>
     (\<forall>h. around h s \<le> waits h (sy_mgmt (whole s)))"

lemma isys_ok_start: "sys_ok L bs ar x \<Longrightarrow> isys_ok L bs ar (isys_start x)"
  by (simp add: isys_ok_def sys_ok_def isys_start_def around_def under_way_def)

lemma take_batch_ok:
  assumes "ring_inv q" "0 < length (buff q)" "length (buff q) < 2 ^ 64"
  obtains msgs q' where "take_batch q = Inr (msgs, q')" "ring_inv q'" "length (buff q') = length (buff q)"
    "contents q = msgs @ contents q'" "length msgs \<le> 8" "msgs = [] \<longleftrightarrow> contents q = []"
  by (rule dequeue_pop [OF assms]) (simp add: take_batch_def that)

lemma mgmt_inv_take:
  assumes "mgmt_inv m" "ring_inv q" "length (buff q) = 32" "contents (mm_out m) = msgs @ contents q"
  shows "mgmt_inv (m\<lparr>mm_out := q\<rparr>)"
  using mgmt_inv_out [OF assms(1-3)] mgmt_invD(3) [OF assms(1)] assms(4) by simp

lemma pending_out [simp]: "pending h (m\<lparr>mm_out := q\<rparr>) = pending h m"
  by (cases h) (simp_all add: pending.simps)

lemma waits_out [simp]: "waits h (m\<lparr>mm_out := q\<rparr>) = waits h m"
  by (simp add: waits_def)

text \<open>A step of the generation thread, by the place it is at.\<close>

lemma gen_micro_idle:
  assumes ok: "isys_ok L bs ar s" and pc: "g_pc s = G_idle"
  obtains msgs s' where "gen_micro bld L s = Inr s'" "isys_ok L bs ar s'" "g_pc s' = G_batch msgs"
    "m_pc s' = m_pc s" "to_gen s = msgs @ to_gen s'" "msgs = [] \<longleftrightarrow> to_gen s = []" "length msgs \<le> 8"
    "to_mgmt s' = to_mgmt s" "\<And>h. held_for h s' = held_for h s" "started s' \<longleftrightarrow> started s"
proof -
  let ?x = "whole s" and ?q = "mm_out (sy_mgmt (whole s))"
  have inv: "mgmt_inv (sy_mgmt ?x)" using ok by (simp add: isys_ok_def)
  have "0 < length (buff ?q)" "length (buff ?q) < 2 ^ 64" by (simp_all add: mgmt_invD(2) [OF inv])
  then obtain msgs q where q: "take_batch ?q = Inr (msgs, q)" "ring_inv q" "length (buff q) = length (buff ?q)"
    "contents ?q = msgs @ contents q" "length msgs \<le> 8" "msgs = [] \<longleftrightarrow> contents ?q = []"
    by (rule take_batch_ok [OF mgmt_invD(1) [OF inv]])
  define s' where "s' = s\<lparr>whole := ?x\<lparr>sy_mgmt := (sy_mgmt ?x)\<lparr>mm_out := q\<rparr>\<rparr>, g_pc := G_batch msgs\<rparr>"
  have "mgmt_inv (sy_mgmt (whole s'))"
    using mgmt_inv_take [OF inv q(2) _ q(4)] q(3) mgmt_invD(2) [OF inv] by (simp add: s'_def)
  moreover have "\<forall>msg \<in> set msgs. request_ok msg" using mgmt_invD(3) [OF inv] q(4) by simp
  moreover have "around h s' = around h s" for h by (simp add: around_def s'_def pc q(4))
  ultimately have "isys_ok L bs ar s'" using ok q(5) by (simp add: isys_ok_def) (simp add: s'_def)
  moreover have "gen_micro bld L s = Inr s'" using q(1) by (simp add: gen_micro_def pc Let_def s'_def)
  ultimately show ?thesis using q by (intro that [of s' msgs]) (simp_all add: s'_def)
qed

lemma gen_micro_handle:
  assumes ok: "isys_ok L bs ar s" and pc: "g_pc s = G_batch (msg # msgs)"
  obtains res s' where "gen_micro as_meant L s = Inr s'" "isys_ok L bs ar s'" "g_pc s' = G_batch msgs"
    "m_pc s' = m_pc s" "to_gen s' = to_gen s" "answer_handler res = Some (request_handler msg)"
    "to_mgmt s' = queued res (to_mgmt s)" "\<And>h. held_for h s' = held_for h s"
    "answer_ok L (sy_gen (whole s)) msg res (sy_gen (whole s'))"
proof -
  let ?x = "whole s"
  have gen: "mgr_ok L bs ar (sy_gen ?x)" and req: "request_ok msg" using ok by (simp_all add: isys_ok_def pc)
  obtain res g where g: "gen_on_msg as_meant L msg (sy_gen ?x) = Inr g" "mgr_ok L bs ar g"
    "contents (mg_out g) = queued res (to_mgmt s)" "answer_ok L (sy_gen ?x) msg res g"
    using gen_on_msg_ok [OF gen req] by blast
  have res: "answer_handler res = Some (request_handler msg)" by (rule answer_ok_handler [OF g(4)])
  define s' where "s' = s\<lparr>whole := ?x\<lparr>sy_gen := g\<rparr>, g_pc := G_batch msgs\<rparr>"
  have "around h s' \<le> around h s" for h
    using res by (simp add: around_def s'_def pc g(3) queued_def)
  then have "\<forall>h. around h s' \<le> waits h (sy_mgmt ?x)" using ok by (meson isys_ok_def le_trans)
  then have "isys_ok L bs ar s'" using ok g(2) pc by (simp add: isys_ok_def) (simp add: s'_def)
  moreover have "gen_micro as_meant L s = Inr s'" using g(1) by (simp add: gen_micro_def pc Let_def s'_def)
  ultimately show ?thesis using res g(4) by (intro that [of s' res]) (simp_all add: s'_def g(3))
qed

lemma gen_micro_finish:
  assumes ok: "isys_ok L bs ar s" and pc: "g_pc s = G_batch []"
  obtains rs s' where "gen_micro as_meant L s = Inr s'" "isys_ok L bs ar s'" "g_pc s' = G_idle"
    "m_pc s' = m_pc s" "to_gen s' = to_gen s"
    "to_mgmt s' = to_mgmt s @ map Generation_report rs" "\<And>h. held_for h s' = held_for h s"
    "started s' \<Longrightarrow> started s"
proof -
  let ?x = "whole s"
  have gen: "mgr_ok L bs ar (sy_gen ?x)" using ok by (simp add: isys_ok_def)
  obtain rs g where g: "after_messages as_meant L (sy_gen ?x) = Inr g" "mgr_ok L bs ar g"
    "contents (mg_out g) = to_mgmt s @ map Generation_report rs"
    and none: "case mg_cycles (sy_gen ?x) of None \<Rightarrow> mg_cycles g = None
      | Some (first, duration) \<Rightarrow> mg_cycles g = None \<longrightarrow> ar (lib_state (mg_sched g)) = Map.empty"
    using after_messages_ok [OF gen] by blast
  have ends: "mg_cycles g \<noteq> None \<Longrightarrow> mg_cycles (sy_gen ?x) \<noteq> None" using none by (cases "mg_cycles (sy_gen ?x)") auto
  define s' where "s' = s\<lparr>whole := ?x\<lparr>sy_gen := g\<rparr>, g_pc := G_idle\<rparr>"
  have "around h s' = around h s" for h by (simp add: around_def s'_def pc g(3))
  then have "isys_ok L bs ar s'" using ok g(2) by (simp add: isys_ok_def) (simp add: s'_def)
  moreover have "gen_micro as_meant L s = Inr s'" using g(1) by (simp add: gen_micro_def pc Let_def s'_def)
  ultimately show ?thesis using ends by (intro that [of s' rs]) (simp_all add: s'_def g(3) generation_started_def)
qed

text \<open>A step of the management thread.\<close>

lemma mgmt_micro_idle:
  assumes libs: "arrays_bounded (cfg_libs ml)" and ok: "isys_ok L bs ar s" and pc: "m_pc s = M_idle"
    and ev: "micro_event_ok ml s ev"
  obtains s' where "mgmt_micro bld ml ev s = Inr s'" "isys_ok L bs ar s'" "m_pc s' = M_polled"
    "g_pc s' = g_pc s" "to_mgmt s' = to_mgmt s" "mgmt_change (sy_mgmt (whole s)) (sy_mgmt (whole s'))"
    "started s' \<longleftrightarrow> started s"
proof -
  let ?x = "whole s"
  have inv: "mgmt_inv (sy_mgmt ?x)" using ok by (simp add: isys_ok_def)
  have "event_ok ml (sy_mgmt ?x) e" if "ev = Some e" for e
    using ev that by (simp add: micro_event_ok_def events_ok_def pc)
  then obtain m where m: "poll_one ml ev (sy_mgmt ?x) = Inr m" "mgmt_inv m" "mgmt_change (sy_mgmt ?x) m"
    using poll_one_ok [OF inv libs] by blast
  define s' where "s' = s\<lparr>whole := ?x\<lparr>sy_mgmt := m\<rparr>, m_pc := M_polled\<rparr>"
  have all: "around h s \<le> waits h (sy_mgmt ?x)" for h using ok by (simp add: isys_ok_def)
  have "around h s' \<le> waits h m" for h
    using m(3) all [of h] unfolding mgmt_change_def
    by (elim disjE exE conjE) (auto simp: around_def s'_def pc waits_def split: if_splits)
  then have "isys_ok L bs ar s'" using ok m(2) by (simp add: isys_ok_def) (simp add: s'_def)
  moreover have "mgmt_micro bld ml ev s = Inr s'" using m(1) by (simp add: mgmt_micro_def pc Let_def s'_def)
  ultimately show ?thesis by (intro that [of s']) (simp_all add: s'_def m(3))
qed

lemma mgmt_micro_polled:
  assumes ok: "isys_ok L bs ar s" and pc: "m_pc s = M_polled"
  obtains msgs s' where "mgmt_micro bld ml ev s = Inr s'" "isys_ok L bs ar s'" "m_pc s' = M_batch msgs"
    "g_pc s' = g_pc s" "to_mgmt s = msgs @ to_mgmt s'" "msgs = [] \<longleftrightarrow> to_mgmt s = []" "length msgs \<le> 8"
    "to_gen s' = to_gen s" "\<And>h. held_for h s' = held_for h s" "started s' \<longleftrightarrow> started s"
    "sy_mgmt (whole s') = sy_mgmt (whole s)"
proof -
  let ?x = "whole s" and ?q = "mg_out (sy_gen (whole s))"
  have gen: "mgr_ok L bs ar (sy_gen ?x)" using ok by (simp add: isys_ok_def)
  note out = mgr_ok_out_inv [OF gen]
  have "0 < length (buff ?q)" "length (buff ?q) < 2 ^ 64" by (simp_all add: out(2))
  then obtain msgs q where q: "take_batch ?q = Inr (msgs, q)" "ring_inv q" "length (buff q) = length (buff ?q)"
    "contents ?q = msgs @ contents q" "length msgs \<le> 8" "msgs = [] \<longleftrightarrow> contents ?q = []"
    by (rule take_batch_ok [OF out(1)])
  define s' where "s' = s\<lparr>whole := ?x\<lparr>sy_gen := (sy_gen ?x)\<lparr>mg_out := q\<rparr>\<rparr>, m_pc := M_batch msgs\<rparr>"
  have "mgr_ok L bs ar ((sy_gen ?x)\<lparr>mg_out := q\<rparr>)"
    using mgr_ok_out_ring [OF gen q(2)] q(3) out(2) by simp
  moreover have "around h s' = around h s" for h by (simp add: around_def s'_def pc q(4))
  ultimately have "isys_ok L bs ar s'" using ok q(5) by (simp add: isys_ok_def) (simp add: s'_def)
  moreover have "mgmt_micro bld ml ev s = Inr s'" using q(1) by (simp add: mgmt_micro_def pc Let_def s'_def)
  ultimately show ?thesis using q by (intro that [of s' msgs]) (simp_all add: s'_def generation_started_def)
qed

lemma mgmt_micro_handle:
  assumes hz: "counter_hz ml \<noteq> 0" and ok: "isys_ok L bs ar s" and pc: "m_pc s = M_batch (msg # msgs)"
  obtains s' where "mgmt_micro as_meant ml ev s = Inr s'" "isys_ok L bs ar s'" "m_pc s' = M_batch msgs"
    "g_pc s' = g_pc s" "to_mgmt s' = to_mgmt s" "to_gen s' = to_gen s"
    "\<And>h. held_for h s' = (if answer_handler msg = Some h then None else held_for h s)" "started s' \<longleftrightarrow> started s"
proof -
  let ?x = "whole s"
  have inv: "mgmt_inv (sy_mgmt ?x)" using ok by (simp add: isys_ok_def)
  have all: "around h s \<le> waits h (sy_mgmt ?x)" for h using ok by (simp add: isys_ok_def)
  have "answers h [msg] + 0 \<le> waits h (sy_mgmt ?x)" for h
    using all [of h] by (simp add: around_def pc split: if_splits)
  from mgmt_messages_ok [OF hz inv this] obtain m where
    "fold_res (mgmt_on_msg as_meant ml) [msg] (sy_mgmt ?x) = Inr m" "mgmt_inv m" "mm_out m = mm_out (sy_mgmt ?x)"
    "\<And>h. pending h m = (if answers h [msg] = 0 then held_for h s else None)" by blast
  then have m: "mgmt_on_msg as_meant ml msg (sy_mgmt ?x) = Inr m" "mgmt_inv m" "mm_out m = mm_out (sy_mgmt ?x)"
    "\<And>h. pending h m = (if answer_handler msg = Some h then None else held_for h s)"
    by (auto simp: res_simps)
  define s' where "s' = s\<lparr>whole := ?x\<lparr>sy_mgmt := m\<rparr>, m_pc := M_batch msgs\<rparr>"
  have "around h s' \<le> waits h m" for h
    using all [of h] by (auto simp: around_def s'_def pc waits_def m(3,4) split: if_splits)
  then have "isys_ok L bs ar s'" using ok m(2) pc by (simp add: isys_ok_def) (simp add: s'_def)
  moreover have "mgmt_micro as_meant ml ev s = Inr s'" using m(1) by (simp add: mgmt_micro_def pc Let_def s'_def)
  ultimately show ?thesis by (intro that [of s']) (simp_all add: s'_def m(3,4))
qed

lemma mgmt_micro_done:
  assumes ok: "isys_ok L bs ar s" and pc: "m_pc s = M_batch []"
  obtains s' where "mgmt_micro bld ml ev s = Inr s'" "isys_ok L bs ar s'" "m_pc s' = M_idle"
    "g_pc s' = g_pc s" "to_mgmt s' = to_mgmt s" "to_gen s' = to_gen s" "\<And>h. held_for h s' = held_for h s"
    "started s' \<longleftrightarrow> started s"
proof -
  have "isys_ok L bs ar (s\<lparr>m_pc := M_idle\<rparr>)" using ok by (simp add: isys_ok_def around_def pc)
  moreover have "mgmt_micro bld ml ev s = Inr (s\<lparr>m_pc := M_idle\<rparr>)" by (simp add: mgmt_micro_def pc)
  ultimately show ?thesis by (intro that [of "s\<lparr>m_pc := M_idle\<rparr>"]) simp_all
qed

subsection \<open>No step faults\<close>

lemma gen_micro_ok:
  assumes "isys_ok L bs ar s"
  shows "\<exists>s'. gen_micro as_meant L s = Inr s' \<and> isys_ok L bs ar s'"
proof (cases "g_pc s")
  case G_idle
  then show ?thesis by (rule gen_micro_idle [OF assms]) blast
next
  case (G_batch msgs)
  then show ?thesis
    by (cases msgs) (auto elim: gen_micro_finish [OF assms] gen_micro_handle [OF assms])
qed

lemma mgmt_micro_ok:
  assumes "arrays_bounded (cfg_libs ml)" "counter_hz ml \<noteq> 0" "isys_ok L bs ar s" "micro_event_ok ml s ev"
  shows "\<exists>s'. mgmt_micro as_meant ml ev s = Inr s' \<and> isys_ok L bs ar s'"
proof (cases "m_pc s")
  case M_idle
  then show ?thesis by (rule mgmt_micro_idle [OF assms(1,3) _ assms(4)]) blast
next
  case M_polled
  then show ?thesis by (rule mgmt_micro_polled [OF assms(3)]) blast
next
  case (M_batch msgs)
  then show ?thesis
    by (cases msgs) (auto elim: mgmt_micro_done [OF assms(3)] mgmt_micro_handle [OF assms(2,3)])
qed

lemma isys_reach_ok:
  assumes "libs_documented L bs ar" "arrays_bounded (cfg_libs ml)" "counter_hz ml \<noteq> 0"
  shows "isys_reach L ml s \<Longrightarrow> isys_ok L bs ar s"
proof (induction rule: isys_reach.induct)
  case (start x)
  then show ?case by (intro isys_ok_start sys_ok_init [OF assms(1)])
next
  case (gen s s')
  then show ?case using gen_micro_ok [OF gen.IH] by (auto simp: gen_moves_def)
next
  case (mgmt s s')
  then obtain ev where "micro_event_ok ml s ev" "mgmt_micro as_meant ml ev s = Inr s'"
    by (auto simp: mgmt_moves_def)
  then show ?case using mgmt_micro_ok [OF assms(2,3) mgmt.IH] by fastforce
qed



end
