(* ===== verification/Service.thy ===== *)
theory Service
  imports Interleaving
begin

section \<open>The program as a service to its clients\<close>

text \<open>
  What the two threads and their queues amount to for a client: a service that serves one request at
  a time. Its state is whether a generation runs, the requests that have been accepted and not served
  yet, the answers not delivered yet, and the client each kind of request is held for. The threads
  refine it: each of their steps, in any interleaving, is a step of the service or changes nothing of
  it. So every request takes effect at one moment between its acceptance and its answer, in the order
  in which the requests were accepted.
\<close>

record service =
  sv_running :: bool
  sv_asked :: "out_msg list"
  sv_ready :: "inc_msg list"
  sv_client :: "req_handler \<Rightarrow> nat option"

definition service_new :: service where
  "service_new = \<lparr>sv_running = False, sv_asked = [], sv_ready = [], sv_client = (\<lambda>h. None)\<rparr>"

text \<open>
  A request is accepted from a client, served with an answer (None when the answer is lost) and
  replied to; a generation expires; anything else is not seen.
\<close>

datatype service_event =
    Accept nat out_msg
  | Serve out_msg "inc_msg option"
  | Reply nat inc_msg
  | Expire
  | Internal

text \<open>Which answers a request may get, by whether a generation runs before and after it is served.\<close>

fun serves :: "bool \<Rightarrow> out_msg \<Rightarrow> inc_msg \<Rightarrow> bool \<Rightarrow> bool" where
  "serves run (Req_start_generation cfg) (Res_start_generation res) run' =
     (if run then res = Some ''Already started'' \<and> run' else run' \<longleftrightarrow> res = None)"
| "serves run Req_stop_generation (Res_stop_generation res) run' = (\<not> run' \<and> (run \<or> detailed res = []))"
| "serves run Req_stats_report (Res_stats_report res) run' = (run' \<longleftrightarrow> run)"
| "serves run msg ans run' = False"

inductive service_step :: "service \<Rightarrow> service_event \<Rightarrow> service \<Rightarrow> bool" where
    accept: "sv_client v (request_handler msg) = None \<Longrightarrow> \<forall>h. sv_client v h \<noteq> Some i \<Longrightarrow>
      service_step v (Accept i msg)
        (v\<lparr>sv_asked := sv_asked v @ [msg], sv_client := (sv_client v)(request_handler msg := Some i)\<rparr>)"
  | serve: "sv_asked v = msg # rest \<Longrightarrow> serves (sv_running v) msg ans run' \<Longrightarrow>
      service_step v (Serve msg (Some ans))
        (v\<lparr>sv_running := run', sv_asked := rest, sv_ready := sv_ready v @ [ans]\<rparr>)"
  | serve_lost: "sv_asked v = msg # rest \<Longrightarrow> serves (sv_running v) msg ans run' \<Longrightarrow>
      service_step v (Serve msg None) (v\<lparr>sv_running := run', sv_asked := rest\<rparr>)"
  | reply: "sv_ready v = ans # rest \<Longrightarrow> answer_handler ans = Some h \<Longrightarrow> sv_client v h = Some i \<Longrightarrow>
      service_step v (Reply i ans) (v\<lparr>sv_ready := rest, sv_client := (sv_client v)(h := None)\<rparr>)"
  | expire: "sv_running v \<Longrightarrow> service_step v Expire (v\<lparr>sv_running := False\<rparr>)"
  | internal: "service_step v Internal v"

inductive_cases service_stepE: "service_step v e v'"

inductive service_run :: "service_event list \<Rightarrow> service \<Rightarrow> bool" where
    new: "service_run [] service_new"
  | step: "service_run tr v \<Longrightarrow> service_step v e v' \<Longrightarrow> service_run (tr @ [e]) v'"

subsection \<open>The service in the program\<close>

definition service_of :: "('l, 'w) isys \<Rightarrow> service" where
  "service_of s =
     \<lparr>sv_running = started s, sv_asked = g_held (g_pc s) @ to_gen s,
      sv_ready = filter (\<lambda>msg. answer_handler msg \<noteq> None) (m_held (m_pc s) @ to_mgmt s),
      sv_client = (\<lambda>h. held_for h s)\<rparr>"

text \<open>The event a step of a thread is, read off the states before and after it.\<close>

definition gen_seen :: "('l, 'w) isys \<Rightarrow> ('l, 'w) isys \<Rightarrow> service_event" where
  "gen_seen s s' =
     (case g_pc s of
        G_batch (msg # _) \<Rightarrow>
          Serve msg (if length (to_mgmt s) < length (to_mgmt s') then Some (last (to_mgmt s')) else None)
      | G_batch [] \<Rightarrow> if started s \<and> \<not> started s' then Expire else Internal
      | G_idle \<Rightarrow> Internal)"

definition mgmt_seen :: "('l, 'w) isys \<Rightarrow> ('l, 'w) isys \<Rightarrow> service_event" where
  "mgmt_seen s s' =
     (case m_pc s of
        M_idle \<Rightarrow>
          if length (to_gen s) < length (to_gen s')
          then Accept (the (held_for (request_handler (last (to_gen s'))) s')) (last (to_gen s'))
          else Internal
      | M_batch (msg # _) \<Rightarrow>
          (case answer_handler msg of Some h \<Rightarrow> Reply (the (held_for h s)) msg | None \<Rightarrow> Internal)
      | _ \<Rightarrow> Internal)"

inductive isys_history :: "('l, 'w) gen_libs \<Rightarrow> mgmt_libs \<Rightarrow> service_event list \<Rightarrow> ('l, 'w) isys \<Rightarrow> bool"
  for L ml where
    hist_start: "sys_init L x \<Longrightarrow> isys_history L ml [] (isys_start x)"
  | hist_gen: "isys_history L ml tr s \<Longrightarrow> gen_moves L s s' \<Longrightarrow> isys_history L ml (tr @ [gen_seen s s']) s'"
  | hist_mgmt: "isys_history L ml tr s \<Longrightarrow> mgmt_moves ml s s' \<Longrightarrow> isys_history L ml (tr @ [mgmt_seen s s']) s'"

lemma isys_history_reach: "isys_history L ml tr s \<Longrightarrow> isys_reach L ml s"
  by (induction rule: isys_history.induct) (auto intro: isys_reach.intros)

lemma service_of_start:
  assumes "sys_init L x"
  shows "service_of (isys_start x) = service_new"
proof -
  obtain cfg w w' g v listen_at nam endpoint where g: "gen_mgr_new L cfg inc_queue_new w = (Inr g, w')"
    and gen: "sy_gen x = g\<lparr>mg_world := v\<rparr>" and m: "mgmt_new listen_at nam endpoint out_queue_new = Inr (sy_mgmt x)"
    using assms by (auto simp: sys_init_def)
  have mgmt: "sy_mgmt x = \<lparr>mm_server = server_new nam, mm_out = out_queue_new, mm_start_cb = None,
      mm_stop_cb = None, mm_stats_cb = None\<rparr>"
    using m by (auto simp: mgmt_new_def res_simps)
  have "pending h (sy_mgmt x) = None" for h by (cases h) (simp_all add: mgmt pending.simps)
  moreover have "mg_out g = inc_queue_new" "mg_cycles g = None"
    using g by (auto simp: gen_mgr_new_def split: prod.splits sum.splits)
  ultimately show ?thesis
    by (simp add: service_of_def service_new_def isys_start_def gen generation_started_def mgmt queues_new)
qed

subsection \<open>A step of the generation thread\<close>

lemma answer_ok_serves:
  assumes "mgr_ok L bs ar m" and "answer_ok L m msg res m'"
  shows "serves (generation_started m) msg res (generation_started m')"
proof -
  have none: "mg_gens m = []" if "\<not> generation_started m"
    using assms(1) that by (auto simp: mgr_ok_def generation_started_def)
  show ?thesis
    using assms(2) none
    by (cases "(L, m, msg, res, m')" rule: answer_ok.cases)
       (auto simp: generation_started_def detailed_stats_def split: if_splits)
qed

lemma gen_moves_service:
  assumes ok: "isys_ok L bs ar s" and moves: "gen_moves L s s'"
  shows "service_step (service_of s) (gen_seen s s') (service_of s')"
proof (cases "g_pc s")
  case G_idle
  obtain msgs s1 where s1: "gen_micro as_meant L s = Inr s1" "g_pc s1 = G_batch msgs" "m_pc s1 = m_pc s"
    "to_gen s = msgs @ to_gen s1" "to_mgmt s1 = to_mgmt s" "\<And>h. held_for h s1 = held_for h s"
    "started s1 \<longleftrightarrow> started s"
    by (rule gen_micro_idle [OF ok G_idle]) (rule that, assumption+)
  have "s1 = s'" using s1(1) moves by (simp add: gen_moves_def)
  moreover have "service_of s1 = service_of s" by (simp add: service_of_def G_idle s1(2-7))
  ultimately show ?thesis by (simp add: gen_seen_def G_idle service_step.internal)
next
  case (G_batch msgs)
  show ?thesis
  proof (cases msgs)
    case Nil
    obtain rs s1 where s1: "gen_micro as_meant L s = Inr s1" "g_pc s1 = G_idle" "m_pc s1 = m_pc s"
      "to_gen s1 = to_gen s" "to_mgmt s1 = to_mgmt s @ map Generation_report rs"
      "\<And>h. held_for h s1 = held_for h s" "started s1 \<Longrightarrow> started s"
      by (rule gen_micro_finish [OF ok G_batch [unfolded Nil]]) (rule that, assumption+)
    have eq: "s1 = s'" using s1(1) moves by (simp add: gen_moves_def)
    have "service_of s1 = (service_of s)\<lparr>sv_running := started s1\<rparr>"
      by (simp add: service_of_def G_batch Nil s1(2-6) filter_empty_conv)
    moreover have "(service_of s)\<lparr>sv_running := started s\<rparr> = service_of s" by (simp add: service_of_def)
    then have "service_step (service_of s) Internal ((service_of s)\<lparr>sv_running := started s\<rparr>)"
      by (simp only: service_step.internal)
    moreover have "sv_running (service_of s) = started s" by (simp add: service_of_def)
    moreover have "started s1 \<longleftrightarrow> started s" if "\<not> (started s \<and> \<not> started s1)" using s1(7) that by blast
    ultimately show ?thesis
      using service_step.expire [of "service_of s"]
      by (cases "started s \<and> \<not> started s1") (simp_all add: gen_seen_def G_batch Nil flip: eq)
  next
    case (Cons msg rest)
    obtain res s1 where s1: "gen_micro as_meant L s = Inr s1" "g_pc s1 = G_batch rest" "m_pc s1 = m_pc s"
      "to_gen s1 = to_gen s" "answer_handler res = Some (request_handler msg)"
      "to_mgmt s1 = queued res (to_mgmt s)" "\<And>h. held_for h s1 = held_for h s"
      "answer_ok L (sy_gen (whole s)) msg res (sy_gen (whole s1))"
      by (rule gen_micro_handle [OF ok G_batch [unfolded Cons]]) (rule that, assumption+)
    have eq: "s1 = s'" using s1(1) moves by (simp add: gen_moves_def)
    have "mgr_ok L bs ar (sy_gen (whole s))" using ok by (simp add: isys_ok_def)
    then have serves: "serves (sv_running (service_of s)) msg res (started s1)"
      using answer_ok_serves s1(8) by (simp add: service_of_def)
    have asked: "sv_asked (service_of s) = msg # (rest @ to_gen s)" by (simp add: service_of_def G_batch Cons)
    have after: "service_of s1 = (service_of s)\<lparr>sv_running := started s1, sv_asked := rest @ to_gen s,
        sv_ready := sv_ready (service_of s) @ (if length (to_mgmt s) < 256 then [res] else [])\<rparr>"
      by (simp add: service_of_def G_batch Cons s1(2-7) queued_def)
    show ?thesis
      using service_step.serve [OF asked serves] service_step.serve_lost [OF asked serves] after
      by (auto simp: gen_seen_def G_batch Cons s1(6) queued_def eq [symmetric])
  qed
qed

subsection \<open>A step of the management thread\<close>

text \<open>
  What the clients see of a step: the one whose request is accepted sent it, and waits now; the one
  that is replied to gets the response that stands for the answer; and nothing happens to any other
  client that waits.
\<close>

definition accepted_from :: "mgmt_libs \<Rightarrow> nat \<Rightarrow> out_msg \<Rightarrow> server \<Rightarrow> server \<Rightarrow> bool" where
  "accepted_from ml i msg sv sv' \<longleftrightarrow>
     (\<exists>req. i < length (conns sv) \<and> conns sv ! i = Reading \<and> conns sv' = (conns sv)[i := Waiting req] \<and>
        map_of req_handlers (rq_target req) = Some (request_handler msg) \<and>
        message_for ml (request_handler msg) (rq_body req) = Inr msg)"

fun clients_see :: "mgmt_libs \<Rightarrow> service_event \<Rightarrow> server \<Rightarrow> server \<Rightarrow> bool" where
  "clients_see ml (Accept i msg) sv sv' = accepted_from ml i msg sv sv'"
| "clients_see ml (Reply i ans) sv sv' =
     (\<exists>code body. response_for (counter_hz ml) ans = Inr (code, body) \<and> answered i code body sv sv')"
| "clients_see ml _ sv sv' = (\<forall>i \<in> waiting sv. conns sv' ! i = conns sv ! i)"

text \<open>A request that is read: it is accepted, or its client is answered at once and no other.\<close>

lemma request_outcome_seen:
  assumes out: "request_outcome ml (rq_target req) (rq_body req) i m m'"
    and i: "i < length (conns sv)" "conns sv ! i = Reading"
    and m: "conns (mm_server m) = (conns sv)[i := Waiting req]"
  shows "(contents (mm_out m') = contents (mm_out m) \<and> (\<forall>h. pending h m' = pending h m) \<and>
      (\<forall>j. j \<noteq> i \<longrightarrow> conns (mm_server m') ! j = conns sv ! j)) \<or>
    (\<exists>msg. contents (mm_out m') = contents (mm_out m) @ [msg] \<and> pending (request_handler msg) m = None \<and>
      (\<forall>h. pending h m' = (if h = request_handler msg then Some i else pending h m)) \<and>
      accepted_from ml i msg sv (mm_server m'))"
proof -
  have other: "conns (mm_server m') ! j = conns sv ! j"
    if "answered i code body (mm_server m) (mm_server m')" "j \<noteq> i" for code body j
    using that m by (simp add: answered_def)
  show ?thesis
  proof (cases "map_of req_handlers (rq_target req)")
    case None
    then show ?thesis using out other by (auto simp: request_outcome_def)
  next
    case (Some h)
    show ?thesis
    proof (cases "pending h m = None \<and> (\<exists>msg. message_for ml h (rq_body req) = Inr msg) \<and> length (contents (mm_out m)) < 32")
      case True
      then obtain msg where msg: "message_for ml h (rq_body req) = Inr msg" by blast
      note h = message_for_handler [OF msg]
      have "accepted_from ml i msg sv (mm_server m')"
        using out True msg Some h i m by (auto simp: request_outcome_def accepted_from_def)
      then show ?thesis using out True msg Some h by (auto simp: request_outcome_def)
    next
      case False
      then show ?thesis
        using out other Some by (auto simp: request_outcome_def split: if_splits sum.splits fault.splits)
    qed
  qed
qed

lemma server_errors_seen:
  assumes "io_possible e sv" and "server_step e sv = (calls, sv')" and "\<And>i req. e \<noteq> Read_done i (Inr req)"
    and "i \<in> waiting sv"
  shows "conns sv' ! i = conns sv ! i"
  using assms
  by (cases e) (auto simp: waiting_def accept_done_def read_done_def write_done_def nth_append nth_list_update
      split: sum.splits if_splits)

lemma poll_one_seen:
  assumes inv: "mgmt_inv m" and libs: "arrays_bounded (cfg_libs ml)"
    and ev: "\<And>e. ev = Some e \<Longrightarrow> event_ok ml m e" and poll: "poll_one ml ev m = Inr m'"
  shows "(contents (mm_out m') = contents (mm_out m) \<and> (\<forall>h. pending h m' = pending h m) \<and>
      (\<forall>i \<in> waiting (mm_server m). conns (mm_server m') ! i = conns (mm_server m) ! i)) \<or>
    (\<exists>i msg. contents (mm_out m') = contents (mm_out m) @ [msg] \<and> pending (request_handler msg) m = None \<and>
      (\<forall>h. pending h m' = (if h = request_handler msg then Some i else pending h m)) \<and>
      i \<notin> waiting (mm_server m) \<and> accepted_from ml i msg (mm_server m) (mm_server m'))"
proof (cases ev)
  case None
  then show ?thesis using poll by (simp add: poll_one_def)
next
  case (Some e)
  obtain calls s where step: "server_step e (mm_server m) = (calls, s)" by force
  have ok: "event_ok ml m e" by (rule ev [OF Some])
  then have possible: "io_possible e (mm_server m)" by (simp add: event_ok_def)
  note w = server_step_waiting [OF possible step]
  define m1 where "m1 = m\<lparr>mm_server := s\<rparr>"
  have run: "fold_res (on_server_call ml) calls m1 = Inr m'" using poll by (simp add: poll_one_def Some step m1_def)
  show ?thesis
  proof (cases "\<exists>i req. e = Read_done i (Inr req)")
    case True
    then obtain i req where e: "e = Read_done i (Inr req)" by blast
    have call: "calls = [Handle_request (rq_target req) (rq_body req) i]" "i \<notin> waiting (mm_server m)"
      "waiting s = insert i (waiting (mm_server m))"
      using w by (simp_all add: e)
    have i: "i < length (conns (mm_server m))" "conns (mm_server m) ! i = Reading" using possible by (simp_all add: e)
    have s: "conns (mm_server m1) = (conns (mm_server m))[i := Waiting req]"
      using step by (auto simp: e m1_def read_done_def)
    have "arriving i m1" using inv call(2,3) by (auto simp: arriving_def mgmt_inv_def m1_def)
    moreover have "text_defined ml (rq_body req)" using ok by (simp add: event_ok_def e)
    ultimately obtain m2 where "on_http_request ml (rq_target req) (rq_body req) i m1 = Inr m2"
      "request_outcome ml (rq_target req) (rq_body req) i m1 m2"
      using on_http_request_ok [OF _ _ libs] by blast
    then have out: "request_outcome ml (rq_target req) (rq_body req) i m1 m'" using run by (simp add: call(1))
    have same: "mm_out m1 = mm_out m" "\<And>h. pending h m1 = pending h m" by (simp_all add: m1_def)
    show ?thesis using request_outcome_seen [OF out i s] call(2) unfolding same
      by (elim disjE) (rule disjI1, fastforce, rule disjI2, blast)
  next
    case False
    then have "\<forall>c \<in> set calls. \<exists>info err. c = Handle_error info err"
      using w by (auto split: io_event.splits sum.splits)
    then have "m' = m1" using run by (simp add: on_server_errors)
    then show ?thesis using server_errors_seen [OF possible step] False by (auto simp: m1_def)
  qed
qed

lemma service_client_waits:
  assumes "isys_ok L bs ar s"
  shows "sv_client (service_of s) h = Some i \<Longrightarrow> i \<in> waiting (mm_server (sy_mgmt (whole s)))"
  using assms mgmt_invD(4) [of "sy_mgmt (whole s)" i] by (auto simp: service_of_def isys_ok_def)

lemma mgmt_idle_service:
  assumes libs: "arrays_bounded (cfg_libs ml)" and ok: "isys_ok L bs ar s" and pc: "m_pc s = M_idle"
    and ev: "micro_event_ok ml s ev" and moves: "mgmt_micro as_meant ml ev s = Inr s'"
  shows "service_step (service_of s) (mgmt_seen s s') (service_of s') \<and>
    clients_see ml (mgmt_seen s s') (mm_server (sy_mgmt (whole s))) (mm_server (sy_mgmt (whole s')))"
proof -
  let ?m = "sy_mgmt (whole s)" and ?m' = "sy_mgmt (whole s')"
  have inv: "mgmt_inv ?m" using ok by (simp add: isys_ok_def)
  have event: "event_ok ml ?m e" if "ev = Some e" for e
    using ev that by (simp add: micro_event_ok_def events_ok_def pc)
  have poll: "poll_one ml ev ?m = Inr ?m'" and s': "s' = s\<lparr>whole := (whole s)\<lparr>sy_mgmt := ?m'\<rparr>, m_pc := M_polled\<rparr>"
    using moves by (auto simp: mgmt_micro_def pc Let_def res_simps)
  have gen: "sy_gen (whole s') = sy_gen (whole s)" "g_pc s' = g_pc s" "m_pc s' = M_polled" by (subst s', simp)+
  have "(to_gen s' = to_gen s \<and> (\<forall>h. held_for h s' = held_for h s) \<and>
      (\<forall>i \<in> waiting (mm_server ?m). conns (mm_server ?m') ! i = conns (mm_server ?m) ! i)) \<or>
    (\<exists>i msg. to_gen s' = to_gen s @ [msg] \<and> held_for (request_handler msg) s = None \<and>
      (\<forall>h. held_for h s' = (if h = request_handler msg then Some i else held_for h s)) \<and>
      i \<notin> waiting (mm_server ?m) \<and> accepted_from ml i msg (mm_server ?m) (mm_server ?m'))"
    by (rule poll_one_seen [OF inv libs _ poll]) (rule event)
  then show ?thesis
  proof (elim disjE exE conjE)
    assume same: "to_gen s' = to_gen s" "\<forall>h. held_for h s' = held_for h s"
      "\<forall>i \<in> waiting (mm_server ?m). conns (mm_server ?m') ! i = conns (mm_server ?m) ! i"
    then have "service_of s' = service_of s" by (simp add: service_of_def gen pc)
    then show ?thesis using same by (simp add: mgmt_seen_def pc service_step.internal)
  next
    fix i msg
    assume new: "to_gen s' = to_gen s @ [msg]" "held_for (request_handler msg) s = None"
      "\<forall>h. held_for h s' = (if h = request_handler msg then Some i else held_for h s)"
      "i \<notin> waiting (mm_server ?m)" "accepted_from ml i msg (mm_server ?m) (mm_server ?m')"
    have seen: "mgmt_seen s s' = Accept i msg" using new(1,3) by (simp add: mgmt_seen_def pc)
    have "\<forall>h. sv_client (service_of s) h \<noteq> Some i" using service_client_waits [OF ok] new(4) by blast
    moreover have "sv_client (service_of s) (request_handler msg) = None" using new(2) by (simp add: service_of_def)
    moreover have "service_of s' = (service_of s)\<lparr>sv_asked := sv_asked (service_of s) @ [msg],
        sv_client := (sv_client (service_of s))(request_handler msg := Some i)\<rparr>"
      using new(1,3) by (simp add: service_of_def gen pc fun_eq_iff)
    ultimately show ?thesis using new(5) by (simp add: seen service_step.accept)
  qed
qed

lemma mgmt_handle_service:
  assumes hz: "counter_hz ml \<noteq> 0" and ok: "isys_ok L bs ar s" and pc: "m_pc s = M_batch (msg # rest)"
    and moves: "mgmt_micro as_meant ml ev s = Inr s'"
  shows "service_step (service_of s) (mgmt_seen s s') (service_of s') \<and>
    clients_see ml (mgmt_seen s s') (mm_server (sy_mgmt (whole s))) (mm_server (sy_mgmt (whole s')))"
proof -
  let ?m = "sy_mgmt (whole s)" and ?m' = "sy_mgmt (whole s')"
  obtain s1 where s1: "mgmt_micro as_meant ml ev s = Inr s1" "m_pc s1 = M_batch rest" "g_pc s1 = g_pc s"
    "to_mgmt s1 = to_mgmt s" "to_gen s1 = to_gen s"
    "\<And>h. held_for h s1 = (if answer_handler msg = Some h then None else held_for h s)" "started s1 \<longleftrightarrow> started s"
    by (rule mgmt_micro_handle [OF hz ok pc]) (rule that, assumption+)
  have eq: "s1 = s'" using s1(1) moves by simp
  have run: "mgmt_on_msg as_meant ml msg ?m = Inr ?m'"
    using moves by (auto simp: mgmt_micro_def pc Let_def res_simps)
  show ?thesis
  proof (cases "answer_handler msg")
    case None
    then have "service_of s1 = service_of s" by (simp add: service_of_def pc s1(2-7))
    moreover have "?m' = ?m" using run None by (cases msg) auto
    ultimately show ?thesis using None by (simp add: mgmt_seen_def pc eq service_step.internal)
  next
    case (Some h)
    have inv: "mgmt_inv ?m" and "around h s \<le> waits h ?m" using ok by (simp_all add: isys_ok_def)
    then obtain i where i: "held_for h s = Some i" using Some by (auto simp: around_def pc waits_def split: if_splits)
    obtain code body where r: "response_for (counter_hz ml) msg = Inr (code, body)" using response_total [OF Some hz] .
    have ans: "answered i code body (mm_server ?m) (mm_server ?m')" using mgmt_on_msg_ok [OF inv Some i r] run by auto
    have ready: "sv_ready (service_of s) = msg # sv_ready (service_of s1)"
      using Some by (simp add: service_of_def pc s1(2-4))
    have "sv_client (service_of s) h = Some i" using i by (simp add: service_of_def)
    note service_step.reply [OF ready Some this]
    moreover have "service_of s1 = (service_of s)\<lparr>sv_ready := sv_ready (service_of s1),
        sv_client := (sv_client (service_of s))(h := None)\<rparr>"
      using Some s1(6) by (simp add: service_of_def s1(2-7) fun_eq_iff)
    ultimately show ?thesis using r ans Some i by (simp add: mgmt_seen_def pc flip: eq)
  qed
qed

lemma mgmt_moves_service:
  assumes libs: "arrays_bounded (cfg_libs ml)" "counter_hz ml \<noteq> 0" and ok: "isys_ok L bs ar s"
    and moves: "mgmt_moves ml s s'"
  shows "service_step (service_of s) (mgmt_seen s s') (service_of s') \<and>
    clients_see ml (mgmt_seen s s') (mm_server (sy_mgmt (whole s))) (mm_server (sy_mgmt (whole s')))"
proof -
  obtain ev where ev: "micro_event_ok ml s ev" "mgmt_micro as_meant ml ev s = Inr s'"
    using moves by (auto simp: mgmt_moves_def)
  show ?thesis
  proof (cases "m_pc s")
    case M_idle
    then show ?thesis by (rule mgmt_idle_service [OF libs(1) ok _ ev])
  next
    case M_polled
    obtain msgs s1 where s1: "mgmt_micro as_meant ml ev s = Inr s1" "m_pc s1 = M_batch msgs" "g_pc s1 = g_pc s"
      "to_mgmt s = msgs @ to_mgmt s1" "to_gen s1 = to_gen s" "\<And>h. held_for h s1 = held_for h s"
      "started s1 \<longleftrightarrow> started s" "sy_mgmt (whole s1) = sy_mgmt (whole s)"
      by (rule mgmt_micro_polled [OF ok M_polled]) (rule that, assumption+)
    then have "s1 = s'" "service_of s1 = service_of s" using ev(2) by (simp_all add: service_of_def M_polled)
    then show ?thesis using s1(8) by (simp add: mgmt_seen_def M_polled service_step.internal)
  next
    case (M_batch msgs)
    show ?thesis
    proof (cases msgs)
      case Nil
      then have "s' = s\<lparr>m_pc := M_idle\<rparr>" using ev(2) by (simp add: mgmt_micro_def M_batch)
      then show ?thesis by (simp add: mgmt_seen_def M_batch Nil service_of_def service_step.internal)
    next
      case (Cons msg rest)
      then show ?thesis using mgmt_handle_service [OF libs(2) ok _ ev(2)] M_batch by simp
    qed
  qed
qed

subsection \<open>Histories\<close>

inductive_cases service_run_snocE: "service_run (tr @ [e]) v"

lemma service_run_snoc:
  "service_run (tr @ [e]) v' \<longleftrightarrow> (\<exists>v. service_run tr v \<and> service_step v e v')"
  by (auto elim: service_run_snocE intro: service_run.step)

lemma service_run_prefix: "service_run (us @ vs) v' \<Longrightarrow> \<exists>v. service_run us v"
proof (induction vs arbitrary: v' rule: rev_induct)
  case (snoc e vs)
  then show ?case by (simp add: service_run_snoc flip: append_assoc) blast
qed auto

lemma service_run_middle:
  assumes "service_run (us @ e # vs) v'"
  obtains v v1 where "service_run us v" "service_step v e v1"
  using service_run_prefix [of "us @ [e]" vs v'] assms by (auto simp: service_run_snoc)

text \<open>A generation that was started runs until it is stopped or expires.\<close>

lemma runs_until_stopped:
  assumes "service_run (us @ Serve (Req_start_generation cfg) (Some (Res_start_generation None)) # vs) v"
    and "Expire \<notin> set vs" "\<And>res. Serve Req_stop_generation res \<notin> set vs"
  shows "sv_running v"
  using assms
proof (induction vs arbitrary: v rule: rev_induct)
  case Nil
  then show ?case by (auto simp: service_run_snoc elim!: service_stepE split: if_splits)
next
  case (snoc e vs)
  then obtain v0 where v0: "service_run (us @ Serve (Req_start_generation cfg) (Some (Res_start_generation None)) # vs) v0"
    "service_step v0 e v" by (simp add: service_run_snoc flip: append_assoc append_Cons) blast
  have run: "sv_running v0" using snoc.IH [OF v0(1)] snoc.prems(2,3) by auto
  have "sv_running v" if "serves True msg ans (sv_running v)" "msg \<noteq> Req_stop_generation" for msg ans
    using that by (cases "(True, msg, ans, sv_running v)" rule: serves.cases) auto
  with v0(2) run snoc.prems(2,3) show ?case by (elim service_stepE) auto
qed

text \<open>Where the requests of a kind are: the stage is read off the history and off the state.\<close>

fun event_kind :: "service_event \<Rightarrow> req_handler option" where
  "event_kind (Accept i msg) = Some (request_handler msg)"
| "event_kind (Serve msg res) = Some (request_handler msg)"
| "event_kind (Reply i ans) = answer_handler ans"
| "event_kind Expire = None"
| "event_kind Internal = None"

datatype stage = Free | Asked nat out_msg | Served nat inc_msg | Lost nat

fun advance :: "service_event \<Rightarrow> stage \<Rightarrow> stage" where
  "advance (Accept i msg) st = Asked i msg"
| "advance (Serve msg (Some ans)) (Asked i msg') = Served i ans"
| "advance (Serve msg None) (Asked i msg') = Lost i"
| "advance (Reply i ans) st = Free"
| "advance e st = st"

definition stage_after :: "req_handler \<Rightarrow> service_event list \<Rightarrow> stage" where
  "stage_after h tr = fold (\<lambda>e st. if event_kind e = Some h then advance e st else st) tr Free"

lemma stage_after_snoc:
  "stage_after h (tr @ [e]) = (if event_kind e = Some h then advance e (stage_after h tr) else stage_after h tr)"
  by (simp add: stage_after_def)

definition asked_of :: "req_handler \<Rightarrow> service \<Rightarrow> out_msg list" where
  "asked_of h v = filter (\<lambda>msg. request_handler msg = h) (sv_asked v)"

definition ready_of :: "req_handler \<Rightarrow> service \<Rightarrow> inc_msg list" where
  "ready_of h v = filter (\<lambda>ans. answer_handler ans = Some h) (sv_ready v)"

fun in_stage :: "req_handler \<Rightarrow> service \<Rightarrow> stage \<Rightarrow> bool" where
  "in_stage h v Free \<longleftrightarrow> sv_client v h = None \<and> asked_of h v = [] \<and> ready_of h v = []"
| "in_stage h v (Asked i msg) \<longleftrightarrow> sv_client v h = Some i \<and> asked_of h v = [msg] \<and> ready_of h v = []"
| "in_stage h v (Served i ans) \<longleftrightarrow> sv_client v h = Some i \<and> asked_of h v = [] \<and> ready_of h v = [ans]"
| "in_stage h v (Lost i) \<longleftrightarrow> sv_client v h = Some i \<and> asked_of h v = [] \<and> ready_of h v = []"

lemma serves_kind: "serves run msg ans run' \<Longrightarrow> answer_handler ans = Some (request_handler msg)"
  by (cases "(run, msg, ans, run')" rule: serves.cases) auto

lemma step_stage:
  assumes "service_step v e v'" and "in_stage h v st"
  shows "in_stage h v' (if event_kind e = Some h then advance e st else st)"
  using assms
  by (cases st) (auto elim!: service_stepE simp: asked_of_def ready_of_def serves_kind dest: serves_kind split: if_splits)

lemma run_stage: "service_run tr v \<Longrightarrow> in_stage h v (stage_after h tr)"
proof (induction rule: service_run.induct)
  case new
  then show ?case by (simp add: stage_after_def service_new_def asked_of_def ready_of_def)
next
  case (step tr v e v')
  then show ?case using step_stage by (simp only: stage_after_snoc)
qed

text \<open>The events that brought a request to its stage.\<close>

lemma asked_history:
  assumes "stage_after h tr = Asked i msg"
  shows "\<exists>as bs. tr = as @ Accept i msg # bs \<and> request_handler msg = h \<and> (\<forall>e \<in> set bs. event_kind e \<noteq> Some h)"
  using assms
proof (induction tr rule: rev_induct)
  case Nil
  then show ?case by (simp add: stage_after_def)
next
  case (snoc e tr)
  show ?case
  proof (cases "event_kind e = Some h")
    case True
    then have "e = Accept i msg \<and> request_handler msg = h"
      using snoc.prems by (cases "(e, stage_after h tr)" rule: advance.cases) (auto simp: stage_after_snoc)
    then show ?thesis by (intro exI [of _ tr] exI [of _ "[]"]) simp
  next
    case False
    then obtain as bs where "tr = as @ Accept i msg # bs" "request_handler msg = h" "\<forall>e \<in> set bs. event_kind e \<noteq> Some h"
      using snoc by (auto simp: stage_after_snoc)
    then show ?thesis using False by (intro exI [of _ as] exI [of _ "bs @ [e]"]) auto
  qed
qed

lemma served_history:
  assumes "service_run tr v" and "stage_after h tr = Served i ans"
  shows "\<exists>as bs cs msg. tr = as @ Accept i msg # bs @ Serve msg (Some ans) # cs \<and> request_handler msg = h \<and>
    (\<forall>e \<in> set bs \<union> set cs. event_kind e \<noteq> Some h)"
  using assms
proof (induction rule: service_run.induct)
  case new
  then show ?case by (simp add: stage_after_def)
next
  case (step tr v e v')
  show ?case
  proof (cases "event_kind e = Some h")
    case True
    then have "advance e (stage_after h tr) = Served i ans" using step.prems by (simp add: stage_after_snoc)
    then obtain msg msg' where e: "e = Serve msg (Some ans)" "stage_after h tr = Asked i msg'"
      using True run_stage [OF step.hyps(1), of h] step.hyps(2)
      by (cases "(e, stage_after h tr)" rule: advance.cases)
         (auto elim!: service_stepE simp: asked_of_def)
    have "asked_of h v = [msg']" using run_stage [OF step.hyps(1), of h] e(2) by simp
    then have "msg = msg'" using step.hyps(2) True by (auto simp: e(1) asked_of_def elim!: service_stepE)
    then obtain as bs where "tr = as @ Accept i msg # bs" "request_handler msg = h" "\<forall>e \<in> set bs. event_kind e \<noteq> Some h"
      using asked_history e(2) by blast
    then show ?thesis by (intro exI [of _ as] exI [of _ bs] exI [of _ "[]"] exI [of _ msg]) (simp add: e(1))
  next
    case False
    then obtain as bs cs msg where "tr = as @ Accept i msg # bs @ Serve msg (Some ans) # cs" "request_handler msg = h"
      "\<forall>e \<in> set bs \<union> set cs. event_kind e \<noteq> Some h"
      using step.IH step.prems by (auto simp: stage_after_snoc)
    then show ?thesis using False
      by (intro exI [of _ as] exI [of _ bs] exI [of _ "cs @ [e]"] exI [of _ msg]) auto
  qed
qed

lemma reply_history:
  assumes "service_run (us @ Reply i ans # vs) v'"
  shows "\<exists>as bs cs msg. us = as @ Accept i msg # bs @ Serve msg (Some ans) # cs \<and>
    answer_handler ans = Some (request_handler msg) \<and>
    (\<forall>e \<in> set bs \<union> set cs. event_kind e \<noteq> Some (request_handler msg))"
proof -
  obtain v v1 where v: "service_run us v" "service_step v (Reply i ans) v1" by (rule service_run_middle [OF assms])
  obtain h rest where h: "sv_ready v = ans # rest" "answer_handler ans = Some h" "sv_client v h = Some i"
    using v(2) by (auto elim: service_stepE)
  have "in_stage h v (stage_after h us)" by (rule run_stage [OF v(1)])
  then have "stage_after h us = Served i ans" using h by (cases "stage_after h us") (auto simp: ready_of_def)
  from served_history [OF v(1) this] h(2) show ?thesis by auto
qed

text \<open>Requests are served in the order they were accepted, and replied to in the order they were served.\<close>

definition accepted_msgs :: "service_event list \<Rightarrow> out_msg list" where
  "accepted_msgs tr = concat (map (\<lambda>e. case e of Accept i msg \<Rightarrow> [msg] | _ \<Rightarrow> []) tr)"

definition served_msgs :: "service_event list \<Rightarrow> out_msg list" where
  "served_msgs tr = concat (map (\<lambda>e. case e of Serve msg res \<Rightarrow> [msg] | _ \<Rightarrow> []) tr)"

definition served_answers :: "service_event list \<Rightarrow> inc_msg list" where
  "served_answers tr = concat (map (\<lambda>e. case e of Serve msg (Some ans) \<Rightarrow> [ans] | _ \<Rightarrow> []) tr)"

definition replied_answers :: "service_event list \<Rightarrow> inc_msg list" where
  "replied_answers tr = concat (map (\<lambda>e. case e of Reply i ans \<Rightarrow> [ans] | _ \<Rightarrow> []) tr)"

lemmas history_defs = accepted_msgs_def served_msgs_def served_answers_def replied_answers_def

lemma service_in_order:
  "service_run tr v \<Longrightarrow> accepted_msgs tr = served_msgs tr @ sv_asked v \<and>
     served_answers tr = replied_answers tr @ sv_ready v"
  by (induction rule: service_run.induct) (auto simp: history_defs service_new_def elim!: service_stepE)

subsection \<open>The threads refine the service\<close>

lemma gen_moves_server:
  assumes "gen_moves L s s'"
  shows "mm_server (sy_mgmt (whole s')) = mm_server (sy_mgmt (whole s))"
  using assms by (auto simp: gen_moves_def gen_micro_def Let_def res_simps split: gen_pc.splits list.splits)

lemma history_service:
  assumes libs: "libs_documented L bs ar" "arrays_bounded (cfg_libs ml)" "counter_hz ml \<noteq> 0"
  shows "isys_history L ml tr s \<Longrightarrow> service_run tr (service_of s)"
proof (induction rule: isys_history.induct)
  case (hist_start x)
  then show ?case by (simp add: service_of_start service_run.new)
next
  case (hist_gen tr s s')
  have "isys_ok L bs ar s" by (rule isys_reach_ok [OF libs isys_history_reach [OF hist_gen.hyps(1)]])
  from service_run.step [OF hist_gen.IH gen_moves_service [OF this hist_gen.hyps(2)]] show ?case .
next
  case (hist_mgmt tr s s')
  have "isys_ok L bs ar s" by (rule isys_reach_ok [OF libs isys_history_reach [OF hist_mgmt.hyps(1)]])
  from service_run.step [OF hist_mgmt.IH conjunct1 [OF mgmt_moves_service [OF libs(2,3) this hist_mgmt.hyps(2)]]]
  show ?case .
qed

text \<open>
  Claim C2. The two threads with their queues refine a service that serves one request at a time: in
  every interleaving, from the state after construction on, the history of what is seen of their
  steps is a run of the service; each further step of a thread is the step of the service it is seen
  as; and the clients see just that: a client whose request is accepted has sent it, a client that is
  replied to gets the response of the answer, nothing else changes for a client that waits, and the
  steps of the generation thread touch no client.
\<close>

theorem threads_refine_service:
  assumes libs: "libs_documented L bs ar" "arrays_bounded (cfg_libs ml)" "counter_hz ml \<noteq> 0"
    and hist: "isys_history L ml tr s"
  shows "service_run tr (service_of s) \<and>
    (\<forall>s'. gen_moves L s s' \<longrightarrow> service_step (service_of s) (gen_seen s s') (service_of s') \<and>
       mm_server (sy_mgmt (whole s')) = mm_server (sy_mgmt (whole s))) \<and>
    (\<forall>s'. mgmt_moves ml s s' \<longrightarrow> service_step (service_of s) (mgmt_seen s s') (service_of s') \<and>
       clients_see ml (mgmt_seen s s') (mm_server (sy_mgmt (whole s))) (mm_server (sy_mgmt (whole s'))))"
proof -
  have ok: "isys_ok L bs ar s" by (rule isys_reach_ok [OF libs isys_history_reach [OF hist]])
  show ?thesis
    using history_service [OF libs hist] gen_moves_service [OF ok] gen_moves_server
      mgmt_moves_service [OF libs(2,3) ok] by blast
qed

text \<open>
  Claim C3. What follows for the history of a run. Each reply to a client is the answer of one request
  that was accepted from this client before and served in between, and nothing else happened to
  requests of its kind meanwhile; requests are served in the order in which they were accepted, and
  replied to in the order in which they were served; and between two starts that succeed there is
  always a stop or the end of the duration.
\<close>

theorem history_is_sequential:
  assumes libs: "libs_documented L bs ar" "arrays_bounded (cfg_libs ml)" "counter_hz ml \<noteq> 0"
    and hist: "isys_history L ml tr s"
  shows "(\<forall>us i ans vs. tr = us @ Reply i ans # vs \<longrightarrow>
      (\<exists>as bs cs msg. us = as @ Accept i msg # bs @ Serve msg (Some ans) # cs \<and>
         answer_handler ans = Some (request_handler msg) \<and>
         (\<forall>e \<in> set bs \<union> set cs. event_kind e \<noteq> Some (request_handler msg)))) \<and>
    prefix (served_msgs tr) (accepted_msgs tr) \<and> prefix (replied_answers tr) (served_answers tr) \<and>
    (\<forall>us cfg vs cfg' ws.
      tr = us @ Serve (Req_start_generation cfg) (Some (Res_start_generation None)) # vs @
             Serve (Req_start_generation cfg') (Some (Res_start_generation None)) # ws \<longrightarrow>
      Expire \<in> set vs \<or> (\<exists>res. Serve Req_stop_generation res \<in> set vs))"
proof -
  have run: "service_run tr (service_of s)" by (rule history_service [OF libs hist])
  have between: "Expire \<in> set vs \<or> (\<exists>res. Serve Req_stop_generation res \<in> set vs)"
    if tr: "tr = us @ Serve (Req_start_generation cfg) (Some (Res_start_generation None)) # vs @
             Serve (Req_start_generation cfg') (Some (Res_start_generation None)) # ws" for us cfg vs cfg' ws
  proof (rule ccontr)
    assume none: "\<not> ?thesis"
    let ?us = "us @ Serve (Req_start_generation cfg) (Some (Res_start_generation None)) # vs"
    obtain v v1 where v: "service_run ?us v"
      "service_step v (Serve (Req_start_generation cfg') (Some (Res_start_generation None))) v1"
      using service_run_middle [of ?us _ ws "service_of s"] run tr by auto
    have "sv_running v" using runs_until_stopped [OF v(1)] none by blast
    with v(2) show False by (auto elim!: service_stepE)
  qed
  show ?thesis
    using reply_history run service_in_order [OF run] between by (simp add: prefix_def) blast
qed

subsection \<open>A concrete history\<close>

text \<open>
  A client connects and asks for a stop; the generation thread takes the request and serves it; the
  management thread takes the answer and replies.
\<close>

definition stop_request :: http_request where
  "stop_request = \<lparr>rq_target = ''/stop_gen'', rq_version = 11, rq_body = []\<rparr>"

lemma hist_gen_micro:
  "isys_history L ml tr s \<Longrightarrow> gen_micro as_meant L s = Inr s' \<Longrightarrow> isys_history L ml (tr @ [gen_seen s s']) s'"
  by (rule hist_gen) (simp_all add: gen_moves_def)

lemma hist_mgmt_micro:
  "isys_history L ml tr s \<Longrightarrow> micro_event_ok ml s ev \<Longrightarrow> mgmt_micro as_meant ml ev s = Inr s' \<Longrightarrow>
   isys_history L ml (tr @ [mgmt_seen s s']) s'"
  by (rule hist_mgmt) (auto simp: mgmt_moves_def)

lemma no_event [simp]: "micro_event_ok ml s None"
  by (simp add: micro_event_ok_def events_ok_def)

abbreviation sample_history :: "service_event list \<Rightarrow> ((timer \<times> ctx) list \<times> timer list, unit) isys \<Rightarrow> bool" where
  "sample_history \<equiv> isys_history sample_gen_libs sample_mgmt_libs"

lemmas sample_history_ok =
  isys_reach_ok [OF sample_libs_documented sample_mgmt_libs_ok isys_history_reach [of sample_gen_libs sample_mgmt_libs]]

text \<open>The client has connected.\<close>

lemma sample_connected:
  obtains tr s where "sample_history tr s" "m_pc s = M_idle" "g_pc s = G_idle" "to_mgmt s = []"
    "sy_mgmt (whole s) = sample_mgmt_new\<lparr>mm_server := \<lparr>conns = [Reading], server_name = ''beast''\<rparr>\<rparr>"
proof -
  let ?m = "sample_mgmt_new\<lparr>mm_server := \<lparr>conns = [Reading], server_name = ''beast''\<rparr>\<rparr>"
  define s0 where "s0 = isys_start \<lparr>sy_gen = sample_mgr, sy_mgmt = sample_mgmt_new\<rparr>"
  define s1 where "s1 = s0\<lparr>whole := (whole s0)\<lparr>sy_mgmt := ?m\<rparr>, m_pc := M_polled\<rparr>"
  have h0: "sample_history [] s0" unfolding s0_def by (rule hist_start [OF sample_sys_init])
  have "micro_event_ok sample_mgmt_libs s0 (Some (Accept_done 0))"
    by (simp add: micro_event_ok_def events_ok_def event_ok_def)
  moreover have "mgmt_micro as_meant sample_mgmt_libs (Some (Accept_done 0)) s0 = Inr s1"
    by (simp add: mgmt_micro_def s0_def s1_def isys_start_def poll_one_def accept_done_def sample_mgmt_new_def server_new_def)
  ultimately have h1: "sample_history ([] @ [mgmt_seen s0 s1]) s1" by (rule hist_mgmt_micro [OF h0])
  have pc1: "m_pc s1 = M_polled" "g_pc s1 = G_idle" "to_mgmt s1 = []" "sy_mgmt (whole s1) = ?m"
    by (simp_all add: s1_def s0_def isys_start_def sample_mgr_def queues_new)
  obtain msgs s2 where s2: "mgmt_micro as_meant sample_mgmt_libs None s1 = Inr s2" "m_pc s2 = M_batch msgs"
    "g_pc s2 = g_pc s1" "to_mgmt s1 = msgs @ to_mgmt s2" "sy_mgmt (whole s2) = sy_mgmt (whole s1)"
    by (rule mgmt_micro_polled [OF sample_history_ok [OF h1] pc1(1)]) (rule that, assumption+)
  note h2 = hist_mgmt_micro [OF h1 no_event s2(1)]
  define s3 where "s3 = s2\<lparr>m_pc := M_idle\<rparr>"
  have "mgmt_micro as_meant sample_mgmt_libs None s2 = Inr s3" using s2(2,4) pc1(3) by (simp add: mgmt_micro_def s3_def)
  note h3 = hist_mgmt_micro [OF h2 no_event this]
  show ?thesis by (rule that [OF h3]) (use pc1 s2 in \<open>simp_all add: s3_def\<close>)
qed

lemma sample_requested:
  obtains tr s where "sample_history tr s" "m_pc s = M_polled" "g_pc s = G_idle" "to_mgmt s = []"
    "to_gen s = [Req_stop_generation]" "held_for Stop_handler s = Some 0"
proof -
  obtain tr s where s: "sample_history tr s" "m_pc s = M_idle" "g_pc s = G_idle" "to_mgmt s = []"
    "sy_mgmt (whole s) = sample_mgmt_new\<lparr>mm_server := \<lparr>conns = [Reading], server_name = ''beast''\<rparr>\<rparr>"
    by (rule sample_connected)
  obtain q where q: "enqueue Req_stop_generation out_queue_new = (True, q)" "contents q = [Req_stop_generation]"
    using enqueue_spec [OF queues_new(1), of Req_stop_generation] by (auto simp: queues_new)
  let ?ev = "Some (Read_done 0 (Inr stop_request))"
  define m where "m = sample_mgmt_new\<lparr>mm_server := \<lparr>conns = [Waiting stop_request], server_name = ''beast''\<rparr>,
    mm_out := q, mm_stop_cb := Some 0\<rparr>"
  define s1 where "s1 = s\<lparr>whole := (whole s)\<lparr>sy_mgmt := m\<rparr>, m_pc := M_polled\<rparr>"
  have "text_defined sample_mgmt_libs []"
    by (simp add: text_defined_def sample_mgmt_libs_def gen_config_new_def parse_sample)
  then have "micro_event_ok sample_mgmt_libs s ?ev"
    by (simp add: micro_event_ok_def events_ok_def event_ok_def s(2,5) stop_request_def)
  moreover have "mgmt_micro as_meant sample_mgmt_libs ?ev s = Inr s1"
    by (simp add: mgmt_micro_def s(2,5) s1_def m_def poll_one_def read_done_def stop_request_def
        on_http_request_def req_handlers_def on_req_stop_gen_def sample_mgmt_new_def q)
  ultimately have h: "sample_history (tr @ [mgmt_seen s s1]) s1" by (rule hist_mgmt_micro [OF s(1)])
  show ?thesis by (rule that [OF h]) (use s q in \<open>simp_all add: s1_def m_def pending.simps\<close>)
qed

lemma sample_replied:
  obtains tr s ans where "sample_history (tr @ [Reply 0 ans]) s"
proof -
  obtain tr s where s: "sample_history tr s" "m_pc s = M_polled" "g_pc s = G_idle" "to_mgmt s = []"
    "to_gen s = [Req_stop_generation]" "held_for Stop_handler s = Some 0"
    by (rule sample_requested)
  obtain msgs s1 where s1: "gen_micro as_meant sample_gen_libs s = Inr s1" "g_pc s1 = G_batch msgs" "m_pc s1 = m_pc s"
    "to_gen s = msgs @ to_gen s1" "msgs = [] \<longleftrightarrow> to_gen s = []" "to_mgmt s1 = to_mgmt s"
    "\<And>h. held_for h s1 = held_for h s"
    by (rule gen_micro_idle [OF sample_history_ok [OF s(1)] s(3)]) (rule that, assumption+)
  then have pc1: "g_pc s1 = G_batch [Req_stop_generation]" using s(5) by (cases msgs) auto
  note h1 = hist_gen_micro [OF s(1) s1(1)]
  obtain res s2 where s2: "gen_micro as_meant sample_gen_libs s1 = Inr s2" "m_pc s2 = m_pc s1"
    "answer_handler res = Some (request_handler Req_stop_generation)" "to_mgmt s2 = queued res (to_mgmt s1)"
    "\<And>h. held_for h s2 = held_for h s1"
    by (rule gen_micro_handle [OF sample_history_ok [OF h1] pc1]) (rule that, assumption+)
  note h2 = hist_gen_micro [OF h1 s2(1)]
  have pc2: "m_pc s2 = M_polled" "to_mgmt s2 = [res]" using s s1 s2 by (simp_all add: queued_def)
  obtain msgs s3 where s3: "mgmt_micro as_meant sample_mgmt_libs None s2 = Inr s3" "m_pc s3 = M_batch msgs"
    "to_mgmt s2 = msgs @ to_mgmt s3" "msgs = [] \<longleftrightarrow> to_mgmt s2 = []" "\<And>h. held_for h s3 = held_for h s2"
    by (rule mgmt_micro_polled [OF sample_history_ok [OF h2] pc2(1)]) (rule that, assumption+)
  then have pc3: "m_pc s3 = M_batch [res]" using pc2(2) by (cases msgs) auto
  note h3 = hist_mgmt_micro [OF h2 no_event s3(1)]
  obtain s4 where s4: "mgmt_micro as_meant sample_mgmt_libs None s3 = Inr s4"
    by (rule mgmt_micro_handle [OF sample_mgmt_libs_ok(2) sample_history_ok [OF h3] pc3]) (rule that, assumption+)
  have seen: "mgmt_seen s3 s4 = Reply 0 res" using s2(3) by (simp add: mgmt_seen_def pc3 s3(5) s2(5) s1(7) s(6))
  show ?thesis by (rule that) (rule hist_mgmt_micro [OF h3 no_event s4, unfolded seen])
qed

theorem threads_refine_service_witness:
  "\<exists>tr ans v. service_run (tr @ [Reply 0 ans]) v"
proof -
  obtain tr s ans where h: "sample_history (tr @ [Reply 0 ans]) s" by (rule sample_replied)
  from threads_refine_service [OF sample_libs_documented sample_mgmt_libs_ok h] show ?thesis by blast
qed

theorem history_is_sequential_witness:
  "\<exists>tr ans as bs cs msg s. sample_history (tr @ [Reply 0 ans]) s \<and> tr = as @ Accept 0 msg # bs @ Serve msg (Some ans) # cs \<and>
     answer_handler ans = Some (request_handler msg)"
proof -
  obtain tr s ans where h: "sample_history (tr @ [Reply 0 ans]) s" by (rule sample_replied)
  from conjunct1 [OF history_is_sequential [OF sample_libs_documented sample_mgmt_libs_ok h], rule_format, of tr 0 ans "[]"]
  obtain as bs cs msg where "tr = as @ Accept 0 msg # bs @ Serve msg (Some ans) # cs"
    "answer_handler ans = Some (request_handler msg)" by auto
  with h show ?thesis by (intro exI conjI)
qed

end
