(* ===== verification/System_Liveness.thy ===== *)
theory System_Liveness
  imports Service
begin

section \<open>Requests are answered in fair runs\<close>

text \<open>
  An infinite run of the two threads, in which both take their steps again and again, in any order
  and with any events. The request of a client that is held moves to the front of the queue to the
  generation thread, into the hands of that thread, becomes an answer, moves to the front of the
  queue to the management thread and into its hands, and the client is answered, unless the queue
  was full when the request was handled: then the answer is dropped, and theory \<open>System\<close> shows what
  follows.
\<close>

definition fair_run :: "('l, 'w) gen_libs \<Rightarrow> mgmt_libs \<Rightarrow> (nat \<Rightarrow> ('l, 'w) isys) \<Rightarrow> bool" where
  "fair_run L ml r \<longleftrightarrow>
     (\<forall>n. gen_moves L (r n) (r (Suc n)) \<or> mgmt_moves ml (r n) (r (Suc n))) \<and>
     (\<forall>n. \<exists>m\<ge>n. gen_moves L (r m) (r (Suc m))) \<and> (\<forall>n. \<exists>m\<ge>n. mgmt_moves ml (r m) (r (Suc m)))"

text \<open>The generation thread handles a request of the kind while its queue has no place.\<close>

definition drops :: "req_handler \<Rightarrow> ('l, 'w) isys \<Rightarrow> bool" where
  "drops h s \<longleftrightarrow> (\<exists>msg msgs. g_pc s = G_batch (msg # msgs) \<and> request_handler msg = h) \<and> 256 \<le> length (to_mgmt s)"

text \<open>A client of the kind that is held has its request or its answer under way.\<close>

definition kept :: "req_handler \<Rightarrow> ('l, 'w) isys \<Rightarrow> bool" where
  "kept h s \<longleftrightarrow> around h s = waits h (sy_mgmt (whole s))"

lemma kept_start:
  assumes "libs_documented L bs ar" "sys_init L x"
  shows "kept h (isys_start x)"
proof -
  obtain listen_at nam endpoint where m: "mgmt_new listen_at nam endpoint out_queue_new = Inr (sy_mgmt x)"
    using assms(2) by (auto simp: sys_init_def)
  have mgmt: "sy_mgmt x = \<lparr>mm_server = server_new nam, mm_out = out_queue_new, mm_start_cb = None,
      mm_stop_cb = None, mm_stats_cb = None\<rparr>"
    using m by (auto simp: mgmt_new_def res_simps)
  have "pending h (sy_mgmt x) = None" by (cases h) (simp_all add: mgmt pending.simps)
  then have none: "waits h (sy_mgmt x) = 0" by (simp add: waits_def)
  have "isys_ok L bs ar (isys_start x)" by (intro isys_ok_start sys_ok_init [OF assms])
  then have "around h (isys_start x) \<le> waits h (sy_mgmt (whole (isys_start x)))" by (simp add: isys_ok_def)
  then show ?thesis using none by (simp add: kept_def isys_start_def)
qed

subsection \<open>Places in a queue\<close>

definition ahead :: "('a \<Rightarrow> bool) \<Rightarrow> 'a list \<Rightarrow> nat" where
  "ahead p xs = length (takeWhile (\<lambda>x. \<not> p x) xs)"

lemma ahead_append: "x \<in> set xs \<Longrightarrow> p x \<Longrightarrow> ahead p (xs @ ys) = ahead p xs"
  by (simp add: ahead_def takeWhile_append1)

lemma ahead_behind: "(\<And>x. x \<in> set ms \<Longrightarrow> \<not> p x) \<Longrightarrow> ahead p (ms @ xs) = length ms + ahead p xs"
  by (simp add: ahead_def takeWhile_append2)

lemma requests_pos: "0 < requests h ms \<longleftrightarrow> (\<exists>msg \<in> set ms. request_handler msg = h)"
  by (auto simp: requests_def filter_empty_conv)

lemma answers_pos: "0 < answers h ms \<longleftrightarrow> (\<exists>msg \<in> set ms. answer_handler msg = Some h)"
  by (auto simp: answers_def filter_empty_conv)

lemma request_place_append:
  "0 < requests h xs \<Longrightarrow> ahead (\<lambda>msg. request_handler msg = h) (xs @ ys) = ahead (\<lambda>msg. request_handler msg = h) xs"
  by (auto simp: requests_pos intro: ahead_append)

lemma answer_place_append:
  "0 < answers h xs \<Longrightarrow> ahead (\<lambda>msg. answer_handler msg = Some h) (xs @ ys) =
     ahead (\<lambda>msg. answer_handler msg = Some h) xs"
  by (auto simp: answers_pos intro: ahead_append)

lemma request_place_behind:
  "requests h ms = 0 \<Longrightarrow> ahead (\<lambda>msg. request_handler msg = h) (ms @ xs) =
     length ms + ahead (\<lambda>msg. request_handler msg = h) xs"
  by (rule ahead_behind) (auto simp: requests_def filter_empty_conv)

lemma answer_place_behind:
  "answers h ms = 0 \<Longrightarrow> ahead (\<lambda>msg. answer_handler msg = Some h) (ms @ xs) =
     length ms + ahead (\<lambda>msg. answer_handler msg = Some h) xs"
  by (rule ahead_behind) (auto simp: answers_def filter_empty_conv)

text \<open>
  How far a request is from being handled: its place in the batch, and in the queue further away
  than any batch, by the steps to the next batch. The same for an answer.
\<close>

fun g_rest :: "gen_pc \<Rightarrow> nat" where
  "g_rest G_idle = 0"
| "g_rest (G_batch msgs) = Suc (length msgs)"

fun m_rest :: "mgmt_pc \<Rightarrow> nat" where
  "m_rest M_polled = 0"
| "m_rest M_idle = 1"
| "m_rest (M_batch msgs) = length msgs + 2"

definition request_dist :: "req_handler \<Rightarrow> ('l, 'w) isys \<Rightarrow> nat" where
  "request_dist h s =
     (if 0 < requests h (g_held (g_pc s)) then ahead (\<lambda>msg. request_handler msg = h) (g_held (g_pc s))
      else 10 * Suc (ahead (\<lambda>msg. request_handler msg = h) (to_gen s)) + g_rest (g_pc s))"

definition answer_dist :: "req_handler \<Rightarrow> ('l, 'w) isys \<Rightarrow> nat" where
  "answer_dist h s =
     (if 0 < answers h (m_held (m_pc s)) then ahead (\<lambda>msg. answer_handler msg = Some h) (m_held (m_pc s))
      else 12 * Suc (ahead (\<lambda>msg. answer_handler msg = Some h) (to_mgmt s)) + m_rest (m_pc s))"

lemma ahead_le_length: "ahead p xs \<le> length xs"
  by (simp add: ahead_def length_takeWhile_le)

lemma ahead_Cons: "ahead p (x # xs) = (if p x then 0 else Suc (ahead p xs))"
  by (simp add: ahead_def)

subsection \<open>What one step does to a request and to an answer\<close>

text \<open>A client that is held stays held, and requests of other kinds only go to the end of the queue.\<close>

lemma mgmt_change_held:
  assumes change: "mgmt_change m m1" and held: "pending h m = Some i"
  shows "pending h m1 = Some i \<and>
    (\<exists>new. contents (mm_out m1) = contents (mm_out m) @ new \<and> requests h new = 0)"
  using change unfolding mgmt_change_def
proof (elim disjE exE conjE)
  fix j msg
  assume new: "pending (request_handler msg) m = None"
    "\<forall>h. pending h m1 = (if h = request_handler msg then Some j else pending h m)"
    "contents (mm_out m1) = contents (mm_out m) @ [msg]"
  have "request_handler msg \<noteq> h" using new(1) held by auto
  then show ?thesis using new(3) spec [OF new(2), of h] held by simp
qed (use held in simp)

text \<open>The two stages of a client's wait.\<close>

definition awaits_gen :: "req_handler \<Rightarrow> nat \<Rightarrow> ('l, 'w) isys \<Rightarrow> bool" where
  "awaits_gen h i s \<longleftrightarrow> held_for h s = Some i \<and> requests h (g_held (g_pc s)) + requests h (to_gen s) = 1"

definition awaits_mgmt :: "req_handler \<Rightarrow> nat \<Rightarrow> ('l, 'w) isys \<Rightarrow> bool" where
  "awaits_mgmt h i s \<longleftrightarrow> held_for h s = Some i \<and> answers h (m_held (m_pc s)) + answers h (to_mgmt s) = 1"

definition released :: "req_handler \<Rightarrow> nat \<Rightarrow> ('l, 'w) isys \<Rightarrow> bool" where
  "released h i s \<longleftrightarrow> held_for h s = None \<and> i \<notin> waiting (mm_server (sy_mgmt (whole s)))"

lemma one_around:
  assumes "isys_ok L bs ar s"
  shows "around h s \<le> 1"
    and "awaits_gen h i s \<Longrightarrow> answers h (m_held (m_pc s)) = 0 \<and> answers h (to_mgmt s) = 0"
    and "awaits_mgmt h i s \<Longrightarrow> requests h (g_held (g_pc s)) = 0 \<and> requests h (to_gen s) = 0"
proof -
  have "around h s \<le> waits h (sy_mgmt (whole s))" using assms by (simp add: isys_ok_def)
  then show *: "around h s \<le> 1" by (simp add: waits_def split: if_splits)
  show "awaits_gen h i s \<Longrightarrow> answers h (m_held (m_pc s)) = 0 \<and> answers h (to_mgmt s) = 0"
    "awaits_mgmt h i s \<Longrightarrow> requests h (g_held (g_pc s)) = 0 \<and> requests h (to_gen s) = 0"
    using * by (simp_all add: around_def awaits_gen_def awaits_mgmt_def)
qed

lemma awaits_gen_gen_moves:
  assumes ok: "isys_ok L bs ar s" and moves: "gen_moves L s s'" and req: "awaits_gen h i s" and room: "\<not> drops h s"
  shows "awaits_mgmt h i s' \<or> (awaits_gen h i s' \<and> request_dist h s' < request_dist h s)"
proof (cases "g_pc s")
  case G_idle
  obtain msgs s1 where s1: "gen_micro as_meant L s = Inr s1" "g_pc s1 = G_batch msgs"
    "to_gen s = msgs @ to_gen s1" "msgs = [] \<longleftrightarrow> to_gen s = []" "length msgs \<le> 8" "held_for h s1 = held_for h s"
    by (rule gen_micro_idle [OF ok G_idle]) (rule that, assumption+)
  have one: "requests h msgs + requests h (to_gen s1) = 1" using req by (simp add: awaits_gen_def G_idle s1(3))
  have "request_dist h s1 < request_dist h s"
  proof (cases "requests h msgs = 0")
    case True
    have n: "0 < length msgs" using s1(3,4) one True by (cases msgs) auto
    show ?thesis
      using request_place_behind [OF True, of "to_gen s1"] True
      by (simp add: request_dist_def s1(2,3) G_idle) (use n in linarith)
  next
    case False
    then show ?thesis
      using ahead_le_length [of "\<lambda>msg. request_handler msg = h" msgs] s1(5)
      by (simp add: request_dist_def s1(2) G_idle)
  qed
  then show ?thesis using moves s1 req one by (simp add: gen_moves_def awaits_gen_def)
next
  case (G_batch msgs)
  show ?thesis
  proof (cases msgs)
    case Nil
    obtain s1 where s1: "gen_micro as_meant L s = Inr s1" "g_pc s1 = G_idle" "to_gen s1 = to_gen s"
      "held_for h s1 = held_for h s"
      by (rule gen_micro_finish [OF ok G_batch [unfolded Nil]]) (rule that, assumption+)
    then show ?thesis
      using moves req by (simp add: gen_moves_def awaits_gen_def request_dist_def G_batch Nil)
  next
    case (Cons msg rest)
    obtain res s1 where s1: "gen_micro as_meant L s = Inr s1" "g_pc s1 = G_batch rest" "m_pc s1 = m_pc s"
      "to_gen s1 = to_gen s" "answer_handler res = Some (request_handler msg)"
      "to_mgmt s1 = queued res (to_mgmt s)" "held_for h s1 = held_for h s"
      by (rule gen_micro_handle [OF ok G_batch [unfolded Cons]]) (rule that, assumption+)
    show ?thesis
    proof (cases "request_handler msg = h")
      case True
      then have "length (to_mgmt s) < 256" using room by (auto simp: drops_def G_batch Cons)
      then show ?thesis
        using moves s1 req True one_around(2) [OF ok req]
        by (simp add: gen_moves_def awaits_gen_def awaits_mgmt_def queued_def)
    next
      case False
      then show ?thesis
        using moves s1(1,2,4,7) req
        by (auto simp: gen_moves_def awaits_gen_def request_dist_def G_batch Cons ahead_Cons)
    qed
  qed
qed

lemma awaits_gen_mgmt_moves:
  assumes libs: "arrays_bounded (cfg_libs ml)" "counter_hz ml \<noteq> 0"
    and ok: "isys_ok L bs ar s" and moves: "mgmt_moves ml s s'" and req: "awaits_gen h i s"
  shows "awaits_gen h i s' \<and> request_dist h s' = request_dist h s"
proof -
  obtain ev where ev: "micro_event_ok ml s ev" "mgmt_micro as_meant ml ev s = Inr s'"
    using moves by (auto simp: mgmt_moves_def)
  have held: "held_for h s = Some i" using req by (simp add: awaits_gen_def)
  show ?thesis
  proof (cases "m_pc s")
    case M_idle
    obtain s1 where s1: "mgmt_micro as_meant ml ev s = Inr s1" "g_pc s1 = g_pc s"
      "mgmt_change (sy_mgmt (whole s)) (sy_mgmt (whole s1))"
      by (rule mgmt_micro_idle [OF libs(1) ok M_idle ev(1)]) (rule that, assumption+)
    obtain new where new: "held_for h s1 = Some i" "to_gen s1 = to_gen s @ new" "requests h new = 0"
      using mgmt_change_held [OF s1(3) held] by blast
    then show ?thesis
      using s1(1,2) ev(2) req request_place_append [of h "to_gen s" new]
      by (auto simp: awaits_gen_def request_dist_def)
  next
    case M_polled
    obtain s1 where "mgmt_micro as_meant ml ev s = Inr s1" "g_pc s1 = g_pc s" "to_gen s1 = to_gen s"
      "held_for h s1 = held_for h s"
      by (rule mgmt_micro_polled [OF ok M_polled]) (rule that, assumption+)
    then show ?thesis using ev(2) req by (simp add: awaits_gen_def request_dist_def)
  next
    case (M_batch msgs)
    show ?thesis
    proof (cases msgs)
      case Nil
      obtain s1 where "mgmt_micro as_meant ml ev s = Inr s1" "g_pc s1 = g_pc s" "to_gen s1 = to_gen s"
        "held_for h s1 = held_for h s"
        by (rule mgmt_micro_done [OF ok M_batch [unfolded Nil]]) (rule that, assumption+)
      then show ?thesis using ev(2) req by (simp add: awaits_gen_def request_dist_def)
    next
      case (Cons msg rest)
      obtain s1 where s1: "mgmt_micro as_meant ml ev s = Inr s1" "g_pc s1 = g_pc s" "to_gen s1 = to_gen s"
        "held_for h s1 = (if answer_handler msg = Some h then None else held_for h s)"
        by (rule mgmt_micro_handle [OF libs(2) ok M_batch [unfolded Cons]]) (rule that, assumption+)
      have "answer_handler msg \<noteq> Some h"
        using one_around(2) [OF ok req] by (auto simp: M_batch Cons)
      then show ?thesis using s1 ev(2) req by (simp add: awaits_gen_def request_dist_def)
    qed
  qed
qed

lemma awaits_mgmt_gen_moves:
  assumes ok: "isys_ok L bs ar s" and moves: "gen_moves L s s'" and ans: "awaits_mgmt h i s"
  shows "awaits_mgmt h i s' \<and> answer_dist h s' = answer_dist h s"
proof -
  have none: "requests h (g_held (g_pc s)) = 0" using one_around(3) [OF ok ans] by simp
  have appended: ?thesis
    if s1: "gen_micro as_meant L s = Inr s1" "m_pc s1 = m_pc s" "to_mgmt s1 = to_mgmt s @ new"
      "answers h new = 0" "held_for h s1 = held_for h s" for s1 new
    using s1 moves ans answer_place_append [of h "to_mgmt s" new]
    by (auto simp: gen_moves_def awaits_mgmt_def answer_dist_def)
  show ?thesis
  proof (cases "g_pc s")
    case G_idle
    obtain s1 where "gen_micro as_meant L s = Inr s1" "m_pc s1 = m_pc s" "to_mgmt s1 = to_mgmt s"
      "held_for h s1 = held_for h s"
      by (rule gen_micro_idle [OF ok G_idle]) (rule that, assumption+)
    then show ?thesis using appended [of s1 "[]"] by simp
  next
    case (G_batch msgs)
    show ?thesis
    proof (cases msgs)
      case Nil
      obtain rs s1 where "gen_micro as_meant L s = Inr s1" "m_pc s1 = m_pc s"
        "to_mgmt s1 = to_mgmt s @ map Generation_report rs" "held_for h s1 = held_for h s"
        by (rule gen_micro_finish [OF ok G_batch [unfolded Nil]]) (rule that, assumption+)
      then show ?thesis using appended [of s1 "map Generation_report rs"] by simp
    next
      case (Cons msg rest)
      obtain res s1 where s1: "gen_micro as_meant L s = Inr s1" "m_pc s1 = m_pc s"
        "answer_handler res = Some (request_handler msg)" "to_mgmt s1 = queued res (to_mgmt s)"
        "held_for h s1 = held_for h s"
        by (rule gen_micro_handle [OF ok G_batch [unfolded Cons]]) (rule that, assumption+)
      have "request_handler msg \<noteq> h" using none by (auto simp: G_batch Cons)
      then show ?thesis
        using appended [of s1 "[res]"] appended [of s1 "[]"] s1 by (auto simp: queued_def split: if_splits)
    qed
  qed
qed

lemma awaits_mgmt_mgmt_moves:
  assumes libs: "arrays_bounded (cfg_libs ml)" "counter_hz ml \<noteq> 0"
    and ok: "isys_ok L bs ar s" and moves: "mgmt_moves ml s s'" and ans: "awaits_mgmt h i s"
  shows "released h i s' \<or> (awaits_mgmt h i s' \<and> answer_dist h s' < answer_dist h s)"
proof -
  obtain ev where ev: "micro_event_ok ml s ev" "mgmt_micro as_meant ml ev s = Inr s'"
    using moves by (auto simp: mgmt_moves_def)
  have held: "held_for h s = Some i" using ans by (simp add: awaits_mgmt_def)
  have inv: "mgmt_inv (sy_mgmt (whole s))" using ok by (simp add: isys_ok_def)
  show ?thesis
  proof (cases "m_pc s")
    case M_idle
    obtain s1 where s1: "mgmt_micro as_meant ml ev s = Inr s1" "m_pc s1 = M_polled" "to_mgmt s1 = to_mgmt s"
      "mgmt_change (sy_mgmt (whole s)) (sy_mgmt (whole s1))"
      by (rule mgmt_micro_idle [OF libs(1) ok M_idle ev(1)]) (rule that, assumption+)
    have "held_for h s1 = Some i" using mgmt_change_held [OF s1(4) held] by blast
    then show ?thesis using s1 ev(2) ans by (simp add: awaits_mgmt_def answer_dist_def M_idle)
  next
    case M_polled
    obtain msgs s1 where s1: "mgmt_micro as_meant ml ev s = Inr s1" "m_pc s1 = M_batch msgs"
      "to_mgmt s = msgs @ to_mgmt s1" "msgs = [] \<longleftrightarrow> to_mgmt s = []" "length msgs \<le> 8" "held_for h s1 = held_for h s"
      by (rule mgmt_micro_polled [OF ok M_polled]) (rule that, assumption+)
    have one: "answers h msgs + answers h (to_mgmt s1) = 1" using ans by (simp add: awaits_mgmt_def M_polled s1(3))
    have "answer_dist h s1 < answer_dist h s"
    proof (cases "answers h msgs = 0")
      case True
      have n: "0 < length msgs" using s1(3,4) one True by (cases msgs) auto
      show ?thesis
        using answer_place_behind [OF True, of "to_mgmt s1"] True
        by (simp add: answer_dist_def s1(2,3) M_polled) (use n in linarith)
    next
      case False
      then show ?thesis
        using ahead_le_length [of "\<lambda>msg. answer_handler msg = Some h" msgs] s1(5)
        by (simp add: answer_dist_def s1(2) M_polled)
    qed
    then show ?thesis using ev(2) s1 ans one by (simp add: awaits_mgmt_def)
  next
    case (M_batch msgs)
    show ?thesis
    proof (cases msgs)
      case Nil
      obtain s1 where "mgmt_micro as_meant ml ev s = Inr s1" "m_pc s1 = M_idle" "to_mgmt s1 = to_mgmt s"
        "held_for h s1 = held_for h s"
        by (rule mgmt_micro_done [OF ok M_batch [unfolded Nil]]) (rule that, assumption+)
      then show ?thesis using ev(2) ans by (simp add: awaits_mgmt_def answer_dist_def M_batch Nil)
    next
      case (Cons msg rest)
      obtain s1 where s1: "mgmt_micro as_meant ml ev s = Inr s1" "isys_ok L bs ar s1" "m_pc s1 = M_batch rest"
        "to_mgmt s1 = to_mgmt s" "\<And>h. held_for h s1 = (if answer_handler msg = Some h then None else held_for h s)"
        by (rule mgmt_micro_handle [OF libs(2) ok M_batch [unfolded Cons]]) (rule that, assumption+)
      show ?thesis
      proof (cases "answer_handler msg = Some h")
        case True
        have "held_for h' s1 \<noteq> Some i" for h'
          using True s1(5) [of h'] mgmt_invD(5) [OF inv held, of h'] by (auto split: if_splits)
        then have "i \<notin> waiting (mm_server (sy_mgmt (whole s1)))"
          using mgmt_invD(4) [of "sy_mgmt (whole s1)" i] s1(2) by (simp add: isys_ok_def)
        then show ?thesis using True s1(1,5) ev(2) by (simp add: released_def)
      next
        case False
        then show ?thesis
          using s1(1,3,4,5) ev(2) ans
          by (auto simp: awaits_mgmt_def answer_dist_def M_batch Cons ahead_Cons)
      qed
    qed
  qed
qed

text \<open>Nothing is lost unless the queue is full when the request is handled.\<close>

lemma kept_gen_moves:
  assumes ok: "isys_ok L bs ar s" and kept: "kept h s" and moves: "gen_moves L s s'" and room: "\<not> drops h s"
  shows "kept h s'"
proof (cases "g_pc s")
  case G_idle
  obtain msgs s1 where "gen_micro as_meant L s = Inr s1" "g_pc s1 = G_batch msgs" "m_pc s1 = m_pc s"
    "to_gen s = msgs @ to_gen s1" "to_mgmt s1 = to_mgmt s" "held_for h s1 = held_for h s"
    by (rule gen_micro_idle [OF ok G_idle]) (rule that, assumption+)
  then show ?thesis using moves kept by (simp add: gen_moves_def kept_def around_def G_idle waits_def)
next
  case (G_batch msgs)
  show ?thesis
  proof (cases msgs)
    case Nil
    obtain rs s1 where "gen_micro as_meant L s = Inr s1" "g_pc s1 = G_idle" "m_pc s1 = m_pc s"
      "to_gen s1 = to_gen s" "to_mgmt s1 = to_mgmt s @ map Generation_report rs" "held_for h s1 = held_for h s"
      by (rule gen_micro_finish [OF ok G_batch [unfolded Nil]]) (rule that, assumption+)
    then show ?thesis using moves kept by (simp add: gen_moves_def kept_def around_def G_batch Nil waits_def)
  next
    case (Cons msg rest)
    obtain res s1 where s1: "gen_micro as_meant L s = Inr s1" "g_pc s1 = G_batch rest" "m_pc s1 = m_pc s"
      "to_gen s1 = to_gen s" "answer_handler res = Some (request_handler msg)"
      "to_mgmt s1 = queued res (to_mgmt s)" "held_for h s1 = held_for h s"
      by (rule gen_micro_handle [OF ok G_batch [unfolded Cons]]) (rule that, assumption+)
    have "answers h (to_mgmt s1) = answers h (to_mgmt s) + requests h [msg]"
      using room s1(5,6) by (auto simp: drops_def G_batch Cons queued_def)
    then have "around h s1 = around h s" by (simp add: around_def G_batch Cons s1(2-4))
    moreover have "waits h (sy_mgmt (whole s1)) = waits h (sy_mgmt (whole s))" by (simp add: waits_def s1(7))
    ultimately show ?thesis using moves kept s1(1) by (simp add: gen_moves_def kept_def)
  qed
qed

lemma kept_mgmt_moves:
  assumes libs: "arrays_bounded (cfg_libs ml)" "counter_hz ml \<noteq> 0"
    and ok: "isys_ok L bs ar s" and kept: "kept h s" and moves: "mgmt_moves ml s s'"
  shows "kept h s'"
proof -
  obtain ev where ev: "micro_event_ok ml s ev" "mgmt_micro as_meant ml ev s = Inr s'"
    using moves by (auto simp: mgmt_moves_def)
  show ?thesis
  proof (cases "m_pc s")
    case M_idle
    obtain s1 where s1: "mgmt_micro as_meant ml ev s = Inr s1" "m_pc s1 = M_polled" "g_pc s1 = g_pc s"
      "to_mgmt s1 = to_mgmt s" "mgmt_change (sy_mgmt (whole s)) (sy_mgmt (whole s1))"
      by (rule mgmt_micro_idle [OF libs(1) ok M_idle ev(1)]) (rule that, assumption+)
    show ?thesis
      using s1(5) kept s1(1-4) ev(2) unfolding mgmt_change_def
      by (elim disjE exE conjE) (auto simp: kept_def around_def M_idle waits_def split: if_splits)
  next
    case M_polled
    obtain msgs s1 where "mgmt_micro as_meant ml ev s = Inr s1" "m_pc s1 = M_batch msgs" "g_pc s1 = g_pc s"
      "to_mgmt s = msgs @ to_mgmt s1" "to_gen s1 = to_gen s" "held_for h s1 = held_for h s"
      by (rule mgmt_micro_polled [OF ok M_polled]) (rule that, assumption+)
    then show ?thesis using ev(2) kept by (simp add: kept_def around_def M_polled waits_def)
  next
    case (M_batch msgs)
    show ?thesis
    proof (cases msgs)
      case Nil
      obtain s1 where "mgmt_micro as_meant ml ev s = Inr s1" "m_pc s1 = M_idle" "g_pc s1 = g_pc s"
        "to_mgmt s1 = to_mgmt s" "to_gen s1 = to_gen s" "held_for h s1 = held_for h s"
        by (rule mgmt_micro_done [OF ok M_batch [unfolded Nil]]) (rule that, assumption+)
      then show ?thesis using ev(2) kept by (simp add: kept_def around_def M_batch Nil waits_def)
    next
      case (Cons msg rest)
      obtain s1 where s1: "mgmt_micro as_meant ml ev s = Inr s1" "m_pc s1 = M_batch rest" "g_pc s1 = g_pc s"
        "to_mgmt s1 = to_mgmt s" "to_gen s1 = to_gen s"
        "held_for h s1 = (if answer_handler msg = Some h then None else held_for h s)"
        by (rule mgmt_micro_handle [OF libs(2) ok M_batch [unfolded Cons]]) (rule that, assumption+)
      then show ?thesis
        using ev(2) kept one_around(1) [OF ok, of h]
        by (auto simp: kept_def around_def M_batch Cons waits_def split: if_splits)
    qed
  qed
qed

lemma fair_run_ok:
  assumes libs: "arrays_bounded (cfg_libs ml)" "counter_hz ml \<noteq> 0"
    and run: "fair_run L ml r" and ok: "isys_ok L bs ar (r 0)"
  shows "isys_ok L bs ar (r n)"
proof (induction n)
  case 0
  show ?case by (rule ok)
next
  case (Suc n)
  have "gen_moves L (r n) (r (Suc n)) \<or> mgmt_moves ml (r n) (r (Suc n))" using run by (simp add: fair_run_def)
  then show ?case
    using gen_micro_ok [OF Suc.IH] mgmt_micro_ok [OF libs Suc.IH]
    unfolding gen_moves_def mgmt_moves_def by (metis sum.inject(2))
qed

lemma fair_run_step:
  assumes "fair_run L ml r"
  shows "gen_moves L (r m) (r (Suc m)) \<or> mgmt_moves ml (r m) (r (Suc m))"
    and "\<exists>k\<ge>m. gen_moves L (r k) (r (Suc k))" and "\<exists>k\<ge>m. mgmt_moves ml (r k) (r (Suc k))"
  using assms by (simp_all add: fair_run_def)

lemma kept_always:
  assumes libs: "arrays_bounded (cfg_libs ml)" "counter_hz ml \<noteq> 0"
    and run: "fair_run L ml r" and ok: "isys_ok L bs ar (r 0)" and kept: "kept h (r 0)"
    and room: "\<And>m. gen_moves L (r m) (r (Suc m)) \<Longrightarrow> \<not> drops h (r m)"
  shows "kept h (r m)"
proof (induction m)
  case 0
  show ?case by (rule kept)
next
  case (Suc m)
  note ok' = fair_run_ok [OF libs run ok]
  show ?case
    using fair_run_step(1) [OF run, of m] kept_gen_moves [OF ok' Suc.IH _ room] kept_mgmt_moves [OF libs ok' Suc.IH]
    by blast
qed

text \<open>A request becomes an answer in the end, and an answer releases its client.\<close>

lemma request_progress:
  assumes libs: "arrays_bounded (cfg_libs ml)" "counter_hz ml \<noteq> 0"
    and run: "fair_run L ml r" and ok: "isys_ok L bs ar (r 0)"
    and room: "\<And>m. gen_moves L (r m) (r (Suc m)) \<Longrightarrow> \<not> drops h (r m)"
    and waits: "awaits_gen h i (r n)"
  shows "\<exists>k>n. awaits_mgmt h i (r k)"
proof (rule fair_progress [where P = "\<lambda>m. awaits_gen h i (r m)" and Q = "\<lambda>m. awaits_mgmt h i (r m)"
      and meas = "\<lambda>m. request_dist h (r m)" and moves = "\<lambda>m. gen_moves L (r m) (r (Suc m))"])
  note ok' = fair_run_ok [OF libs run ok]
  show "awaits_gen h i (r n)" by (rule waits)
  show "\<exists>k\<ge>m. gen_moves L (r k) (r (Suc k))" for m by (rule fair_run_step(2) [OF run])
  fix m assume m: "awaits_gen h i (r m)"
  show less: "awaits_mgmt h i (r (Suc m)) \<or>
      awaits_gen h i (r (Suc m)) \<and> request_dist h (r (Suc m)) < request_dist h (r m)"
    if "gen_moves L (r m) (r (Suc m))"
    by (rule awaits_gen_gen_moves [OF ok' that m room [OF that]])
  show "awaits_mgmt h i (r (Suc m)) \<or>
      awaits_gen h i (r (Suc m)) \<and> request_dist h (r (Suc m)) \<le> request_dist h (r m)"
    using fair_run_step(1) [OF run, of m] less awaits_gen_mgmt_moves [OF libs ok' _ m] by fastforce
qed

lemma answer_progress:
  assumes libs: "arrays_bounded (cfg_libs ml)" "counter_hz ml \<noteq> 0"
    and run: "fair_run L ml r" and ok: "isys_ok L bs ar (r 0)" and waits: "awaits_mgmt h i (r n)"
  shows "\<exists>k>n. released h i (r k)"
proof (rule fair_progress [where P = "\<lambda>m. awaits_mgmt h i (r m)" and Q = "\<lambda>m. released h i (r m)"
      and meas = "\<lambda>m. answer_dist h (r m)" and moves = "\<lambda>m. mgmt_moves ml (r m) (r (Suc m))"])
  note ok' = fair_run_ok [OF libs run ok]
  show "awaits_mgmt h i (r n)" by (rule waits)
  show "\<exists>k\<ge>m. mgmt_moves ml (r k) (r (Suc k))" for m by (rule fair_run_step(3) [OF run])
  fix m assume m: "awaits_mgmt h i (r m)"
  show less: "released h i (r (Suc m)) \<or>
      awaits_mgmt h i (r (Suc m)) \<and> answer_dist h (r (Suc m)) < answer_dist h (r m)"
    if "mgmt_moves ml (r m) (r (Suc m))"
    by (rule awaits_mgmt_mgmt_moves [OF libs ok' that m])
  show "released h i (r (Suc m)) \<or>
      awaits_mgmt h i (r (Suc m)) \<and> answer_dist h (r (Suc m)) \<le> answer_dist h (r m)"
    using fair_run_step(1) [OF run, of m] less awaits_mgmt_gen_moves [OF ok' _ m] by fastforce
qed

text \<open>A client that is held is released by one step only, and that step is its reply.\<close>

lemma release_is_reply:
  assumes libs: "arrays_bounded (cfg_libs ml)" "counter_hz ml \<noteq> 0" and ok: "isys_ok L bs ar s"
    and moves: "gen_moves L s s' \<or> mgmt_moves ml s s'" and held: "held_for h s = Some i" "held_for h s' \<noteq> Some i"
  shows "mgmt_moves ml s s' \<and> held_for h s' = None \<and> (\<exists>ans. mgmt_seen s s' = Reply i ans \<and> answer_handler ans = Some h)"
proof -
  have client: "sv_client (service_of s) h = Some i" "sv_client (service_of s') h = held_for h s'"
    using held(1) by (simp_all add: service_of_def)
  have change: "\<exists>ans. e = Reply i ans \<and> answer_handler ans = Some h \<and> held_for h s' = None"
    if "service_step (service_of s) e (service_of s')" for e
    using that
  proof (cases rule: service_step.cases)
    case (accept msg j)
    then have "request_handler msg \<noteq> h" using client(1) by auto
    then show ?thesis using accept client held(2) by (simp del: fun_upd_apply) (simp add: fun_upd_other)
  next
    case (reply ans rest h' j)
    then show ?thesis using client held(2) by (cases "h' = h") (simp_all del: fun_upd_apply, simp_all)
  qed (use client held(2) in auto)
  have "gen_seen s s' \<noteq> Reply i ans" for ans by (simp add: gen_seen_def split: gen_pc.split list.split)
  then have "\<not> gen_moves L s s'" using change gen_moves_service [OF ok] by blast
  then show ?thesis using moves change mgmt_moves_service [OF libs ok] by blast
qed

lemma first_change:
  fixes n m :: nat
  shows "n \<le> m \<Longrightarrow> P n \<Longrightarrow> \<not> P m \<Longrightarrow> \<exists>k\<ge>n. P k \<and> \<not> P (Suc k)"
  by (induction m rule: nat_induct_at_least) (auto intro: le_SucI)

lemma released_by_reply:
  assumes libs: "arrays_bounded (cfg_libs ml)" "counter_hz ml \<noteq> 0"
    and run: "fair_run L ml r" and ok: "isys_ok L bs ar (r 0)"
    and held: "held_for h (r n) = Some i" and m: "n \<le> m" "released h i (r m)"
  shows "\<exists>k\<ge>n. mgmt_moves ml (r k) (r (Suc k)) \<and> held_for h (r (Suc k)) = None \<and>
    (\<exists>ans code body. mgmt_seen (r k) (r (Suc k)) = Reply i ans \<and> answer_handler ans = Some h \<and>
       response_for (counter_hz ml) ans = Inr (code, body) \<and>
       answered i code body (mm_server (sy_mgmt (whole (r k)))) (mm_server (sy_mgmt (whole (r (Suc k))))))"
proof -
  have "held_for h (r m) \<noteq> Some i" using m(2) by (simp add: released_def)
  with first_change [of n m "\<lambda>k. held_for h (r k) = Some i", OF m(1) held]
  obtain k where k: "n \<le> k" "held_for h (r k) = Some i" "held_for h (r (Suc k)) \<noteq> Some i" by blast
  note ok' = fair_run_ok [OF libs run ok, of k]
  from release_is_reply [OF libs ok' fair_run_step(1) [OF run, of k] k(2,3)]
  obtain ans where ans: "mgmt_moves ml (r k) (r (Suc k))" "held_for h (r (Suc k)) = None"
    "mgmt_seen (r k) (r (Suc k)) = Reply i ans" "answer_handler ans = Some h" by blast
  have "clients_see ml (Reply i ans) (mm_server (sy_mgmt (whole (r k)))) (mm_server (sy_mgmt (whole (r (Suc k)))))"
    using conjunct2 [OF mgmt_moves_service [OF libs ok' ans(1)]] by (simp only: ans(3))
  then show ?thesis using k(1) ans by (intro exI [of _ k]) auto
qed

text \<open>
  Claim C15. In every infinite run in which both threads take their steps again and again, in any
  order and with any events, every client that is held is answered in the end: there is a step of the
  management thread that replies to it, with the response that stands for an answer to its kind of
  request, and releases its callback. The only exception is a run in which a request of its
  kind was handled while the queue to the management thread had no place left.
\<close>

theorem request_is_answered:
  assumes "isys_ok L bs ar (r 0)" "around h (r 0) = waits h (sy_mgmt (whole (r 0)))"
    and libs: "arrays_bounded (cfg_libs ml)" "counter_hz ml \<noteq> 0"
    and run: "fair_run L ml r" and client: "held_for h (r n) = Some i"
  shows "(\<exists>k\<ge>n. mgmt_moves ml (r k) (r (Suc k)) \<and> held_for h (r (Suc k)) = None \<and>
      (\<exists>ans code body. mgmt_seen (r k) (r (Suc k)) = Reply i ans \<and> answer_handler ans = Some h \<and>
         response_for (counter_hz ml) ans = Inr (code, body) \<and>
         answered i code body (mm_server (sy_mgmt (whole (r k)))) (mm_server (sy_mgmt (whole (r (Suc k))))))) \<or>
    (\<exists>m msg msgs. gen_moves L (r m) (r (Suc m)) \<and> g_pc (r m) = G_batch (msg # msgs) \<and>
       request_handler msg = h \<and> 256 \<le> length (to_mgmt (r m)))"
proof (rule disjCI)
  assume "\<nexists>m msg msgs. gen_moves L (r m) (r (Suc m)) \<and> g_pc (r m) = G_batch (msg # msgs) \<and>
       request_handler msg = h \<and> 256 \<le> length (to_mgmt (r m))"
  then have room: "\<not> drops h (r m)" if "gen_moves L (r m) (r (Suc m))" for m
    using that by (auto simp: drops_def)
  have "kept h (r n)"
    using kept_always [OF libs run assms(1) _ room] assms(2) by (simp add: kept_def)
  then have "around h (r n) = 1" using client by (simp add: kept_def waits_def)
  then consider "awaits_gen h i (r n)" | "awaits_mgmt h i (r n)"
    using client unfolding around_def awaits_gen_def awaits_mgmt_def by linarith
  then obtain k where k: "n \<le> k" "awaits_mgmt h i (r k)"
    using request_progress [OF libs run assms(1) room] by (metis less_imp_le order_refl)
  obtain m where "k < m" "released h i (r m)" using answer_progress [OF libs run assms(1) k(2)] by blast
  with k(1) have "n \<le> m" "released h i (r m)" by simp_all
  from released_by_reply [OF libs run assms(1) client this]
  show "\<exists>k\<ge>n. mgmt_moves ml (r k) (r (Suc k)) \<and> held_for h (r (Suc k)) = None \<and>
      (\<exists>ans code body. mgmt_seen (r k) (r (Suc k)) = Reply i ans \<and> answer_handler ans = Some h \<and>
         response_for (counter_hz ml) ans = Inr (code, body) \<and>
         answered i code body (mm_server (sy_mgmt (whole (r k)))) (mm_server (sy_mgmt (whole (r (Suc k))))))" .
qed

text \<open>A run of a system whose client waits, the threads taking turns.\<close>

lemma sample_fair_run:
  assumes "isys_ok sample_gen_libs sample_busy sample_armed s"
  obtains r where "r 0 = s" "fair_run sample_gen_libs sample_mgmt_libs r"
proof -
  let ?next = "\<lambda>(n :: nat) s s'. if even n then gen_moves sample_gen_libs s s' else mgmt_moves sample_mgmt_libs s s'"
  have "\<exists>s'. isys_ok sample_gen_libs sample_busy sample_armed s' \<and> ?next n s s'"
    if "isys_ok sample_gen_libs sample_busy sample_armed s" for n and s :: "((timer \<times> ctx) list \<times> timer list, unit) isys"
  proof (cases "even n")
    case True
    then show ?thesis using gen_micro_ok [OF that] by (auto simp: gen_moves_def)
  next
    case False
    have "micro_event_ok sample_mgmt_libs s None" by (simp add: micro_event_ok_def events_ok_def)
    then show ?thesis
      using mgmt_micro_ok [OF sample_mgmt_libs_ok that] False unfolding mgmt_moves_def by meson
  qed
  then obtain r where r: "r 0 = s" "\<And>n. ?next n (r n) (r (Suc n))"
    using dependent_nat_choice [of "\<lambda>n s'. isys_ok sample_gen_libs sample_busy sample_armed s' \<and> (n = 0 \<longrightarrow> s' = s)" ?next]
      assms by (metis nat.distinct(1))
  have "\<exists>m\<ge>n. gen_moves sample_gen_libs (r m) (r (Suc m))" for n
    using r(2) [of "2 * n"] by (intro exI [of _ "2 * n"]) simp
  moreover have "\<exists>m\<ge>n. mgmt_moves sample_mgmt_libs (r m) (r (Suc m))" for n
    using r(2) [of "2 * n + 1"] by (intro exI [of _ "2 * n + 1"]) simp
  moreover have "gen_moves sample_gen_libs (r n) (r (Suc n)) \<or> mgmt_moves sample_mgmt_libs (r n) (r (Suc n))" for n
    using r(2) [of n] by (auto split: if_splits)
  ultimately show ?thesis using that r(1) by (simp add: fair_run_def)
qed

theorem request_is_answered_witness:
  "\<exists>r :: nat \<Rightarrow> ((timer \<times> ctx) list \<times> timer list, unit) isys.
     fair_run sample_gen_libs sample_mgmt_libs r \<and> held_for Stop_handler (r 0) = Some 0 \<and>
     ((\<exists>k ans. held_for Stop_handler (r (Suc k)) = None \<and> mgmt_seen (r k) (r (Suc k)) = Reply 0 ans) \<or>
      (\<exists>m msg msgs. gen_moves sample_gen_libs (r m) (r (Suc m)) \<and> g_pc (r m) = G_batch (msg # msgs) \<and>
        request_handler msg = Stop_handler \<and> 256 \<le> length (to_mgmt (r m))))"
proof -
  obtain x :: "((timer \<times> ctx) list \<times> timer list, unit) sys" where
    x: "sys_ok sample_gen_libs sample_busy sample_armed x" "contents (mm_out (sy_mgmt x)) = [Req_stop_generation]"
    "mg_out (sy_gen x) = inc_queue_new" "pending Stop_handler (sy_mgmt x) = Some 0"
    by (rule sample_waiting_sys [OF queues_new(4,6)]) (simp_all add: queues_new)
  note ok = isys_ok_start [OF x(1)]
  have kept: "around Stop_handler (isys_start x) = waits Stop_handler (sy_mgmt (whole (isys_start x)))"
    using x(2-4) by (simp add: isys_start_def around_def waits_def queues_new)
  obtain r where r: "r 0 = isys_start x" "fair_run sample_gen_libs sample_mgmt_libs r"
    by (rule sample_fair_run [OF ok])
  have c: "held_for Stop_handler (r 0) = Some 0" using x(4) by (simp add: r(1) isys_start_def)
  have "isys_ok sample_gen_libs sample_busy sample_armed (r 0)"
    "around Stop_handler (r 0) = waits Stop_handler (sy_mgmt (whole (r 0)))"
    using ok kept by (simp_all add: r(1))
  from request_is_answered [OF this sample_mgmt_libs_ok r(2) c] r(2) c show ?thesis by blast
qed

end
