(* ===== verification/App_Config.thy ===== *)
theory App_Config
  imports Put_Text Tg_Assert
begin

section \<open>The settings of the program (app/priv/config.cpp)\<close>

text \<open>
  The constructor of \<open>config\<close> reads a file of six options. The libraries it calls are the record
  \<open>conf_libs\<close>: opening the file, program\_options' parser (the registered options with their texts,
  in the order of the file; an option given twice is its error) and its validators of one path and
  of the integers, \<open>get_single_string\<close>, the splitting of a string, and asio's parser of an IPv4
  address. A library function that may throw has a result with an exception on the left.
\<close>

record 'f conf_libs =
  cl_open :: "string \<Rightarrow> 'f option"
  cl_parse :: "'f \<Rightarrow> exn + (string \<times> string list) list"
  cl_single :: "string list \<Rightarrow> bool \<Rightarrow> exn + string"
  cl_split :: "(char \<Rightarrow> bool) \<Rightarrow> bool \<Rightarrow> string \<Rightarrow> string list"
  cl_address_v4 :: "string \<Rightarrow> u32 option"
  cl_path :: "string list \<Rightarrow> exn + string"
  cl_u32 :: "string list \<Rightarrow> exn + u32"
  cl_u16 :: "string list \<Rightarrow> exn + u16"
  cl_strings_text :: "string list \<Rightarrow> string"
  cl_exn_text :: "exn \<Rightarrow> string"

fun throwing :: "exn + 'a \<Rightarrow> 'a res" where
  "throwing (Inl e) = Inl (Thrown e)"
| "throwing (Inr x) = Inr x"

subsection \<open>The parsers of the endpoint and of the CPUs\<close>

text \<open>
  The endpoint is split at every colon. With the index of the source, 2, the access to the port is
  behind the end of the vector.
\<close>

definition validate_endpoint :: "build \<Rightarrow> 'f conf_libs \<Rightarrow> string list \<Rightarrow> (u32 \<times> u16) res" where
  "validate_endpoint bld lib val =
     bind_res (throwing (cl_single lib val False)) (\<lambda>s.
       let parts = cl_split lib (\<lambda>c. c = CHR '':'') False s; what = [cl_strings_text lib val] in
       if length parts \<noteq> 2 then throw_runtime_error ''No port in endpoint: {}'' what
       else case cl_address_v4 lib (parts ! 0) of
         None \<Rightarrow> throw_runtime_error ''Invalid address in endpoint: {}'' what
       | Some addr \<Rightarrow>
           if length parts \<le> port_part bld then Inl Undefined
           else case str_to_int (parts ! port_part bld) of
             None \<Rightarrow> throw_runtime_error ''Invalid port in endpoint: {}'' what
           | Some port \<Rightarrow> Inr (addr, port))"

text \<open>\<open>value()\<close> of an empty optional throws.\<close>

definition opt_value :: "'a option \<Rightarrow> 'a res" where
  "opt_value x = (case x of None \<Rightarrow> Inl (Thrown (Std_exception ''bad optional access'')) | Some v \<Rightarrow> Inr v)"

fun parse_cpus :: "string list \<Rightarrow> u16 list res" where
  "parse_cpus [] = Inr []"
| "parse_cpus (p # ps) =
     bind_res (opt_value (str_to_int (str_trim p))) (\<lambda>c. bind_res (parse_cpus ps) (\<lambda>cs. Inr (c # cs)))"

text \<open>Every exception is swallowed and leaves the value empty, here None.\<close>

definition validate_cpus :: "'f conf_libs \<Rightarrow> string list \<Rightarrow> u16 list option res" where
  "validate_cpus lib val =
     (case bind_res (throwing (cl_single lib val True)) (\<lambda>s.
        let parts = cl_split lib (\<lambda>c. c = CHR '','') True s in
        if length parts \<noteq> 2 then throw_runtime_error ''Expect {} cpus'' [dec_string 2]
        else parse_cpus parts) of
        Inr cs \<Rightarrow> Inr (Some cs)
      | Inl (Thrown e) \<Rightarrow> Inr None
      | Inl f \<Rightarrow> Inl f)"

subsection \<open>The options\<close>

datatype opt_type = Path_type | Endpoint_type | Cpus_type | U32_type | U16_type

datatype opt_val =
    Path_val string | Endpoint_val "u32 \<times> u16" | Cpus_val "u16 list" | U32_val u32 | U16_val u16

definition settings :: "(string \<times> opt_type) list" where
  "settings =
     [(''working_dir'', Path_type), (''mgmt_endpoint'', Endpoint_type), (''cpus'', Cpus_type),
      (''max_cnt_mbufs'', U32_type), (''num_memory_channels'', U16_type), (''nic_queue_size'', U16_type)]"

record app_config =
  ac_working_dir :: string
  ac_mgmt_endpoint :: "u32 \<times> u16"
  ac_cpus :: "u16 list"
  ac_max_cnt_mbufs :: u32
  ac_num_memory_channels :: u16
  ac_nic_queue_size :: u16

definition opts_empty :: app_config where
  "opts_empty = \<lparr>ac_working_dir = [], ac_mgmt_endpoint = (0, 0), ac_cpus = [0, 0], ac_max_cnt_mbufs = 0,
     ac_num_memory_channels = 0, ac_nic_queue_size = 0\<rparr>"

text \<open>What \<open>store\<close> puts in the map for an option: the validated value, or an empty one.\<close>

fun validate_opt :: "build \<Rightarrow> 'f conf_libs \<Rightarrow> opt_type \<Rightarrow> string list \<Rightarrow> opt_val option res" where
  "validate_opt bld lib Path_type val = bind_res (throwing (cl_path lib val)) (\<lambda>v. Inr (Some (Path_val v)))"
| "validate_opt bld lib Endpoint_type val = bind_res (validate_endpoint bld lib val) (\<lambda>v. Inr (Some (Endpoint_val v)))"
| "validate_opt bld lib Cpus_type val = bind_res (validate_cpus lib val) (\<lambda>v. Inr (map_option Cpus_val v))"
| "validate_opt bld lib U32_type val = bind_res (throwing (cl_u32 lib val)) (\<lambda>v. Inr (Some (U32_val v)))"
| "validate_opt bld lib U16_type val = bind_res (throwing (cl_u16 lib val)) (\<lambda>v. Inr (Some (U16_val v)))"

definition store_opt ::
  "build \<Rightarrow> 'f conf_libs \<Rightarrow> string \<times> string list \<Rightarrow> (string \<rightharpoonup> opt_val option) \<Rightarrow> (string \<rightharpoonup> opt_val option) res" where
  "store_opt bld lib opt vm =
     (case opt of (nam, val) \<Rightarrow> case map_of settings nam of
        None \<Rightarrow> Inr vm
      | Some ty \<Rightarrow> bind_res (validate_opt bld lib ty val) (\<lambda>v. Inr (vm(nam \<mapsto> v))))"

text \<open>The assignment \<open>val = vm[name].as<V>()\<close>; a value of another type, or none, makes it throw.\<close>

definition set_opt :: "string \<Rightarrow> opt_val option \<Rightarrow> app_config \<Rightarrow> app_config option" where
  "set_opt nam v cfg =
     (case v of
        Some (Path_val p) \<Rightarrow> if nam = ''working_dir'' then Some (cfg\<lparr>ac_working_dir := p\<rparr>) else None
      | Some (Endpoint_val e) \<Rightarrow> if nam = ''mgmt_endpoint'' then Some (cfg\<lparr>ac_mgmt_endpoint := e\<rparr>) else None
      | Some (Cpus_val cs) \<Rightarrow> if nam = ''cpus'' then Some (cfg\<lparr>ac_cpus := cs\<rparr>) else None
      | Some (U32_val n) \<Rightarrow> if nam = ''max_cnt_mbufs'' then Some (cfg\<lparr>ac_max_cnt_mbufs := n\<rparr>) else None
      | Some (U16_val n) \<Rightarrow>
          if nam = ''num_memory_channels'' then Some (cfg\<lparr>ac_num_memory_channels := n\<rparr>)
          else if nam = ''nic_queue_size'' then Some (cfg\<lparr>ac_nic_queue_size := n\<rparr>) else None
      | None \<Rightarrow> None)"

definition complaint :: "string \<Rightarrow> string \<Rightarrow> string" where
  "complaint what nam = [CHR 0x0A, CHR 0x09] @ what @ '' config option '' @ [CHR 0x27] @ nam @ [CHR 0x27] @ ''.''"

definition visit_opt :: "(string \<rightharpoonup> opt_val option) \<Rightarrow> string \<Rightarrow> app_config \<times> string \<Rightarrow> app_config \<times> string" where
  "visit_opt vm nam st =
     (case st of (cfg, err) \<Rightarrow> case vm nam of
        None \<Rightarrow> (cfg, err @ complaint ''Missing'' nam)
      | Some v \<Rightarrow> (case set_opt nam v cfg of
          None \<Rightarrow> (cfg, err @ complaint ''Invalid'' nam) | Some cfg \<Rightarrow> (cfg, err)))"

definition load_opts :: "build \<Rightarrow> 'f conf_libs \<Rightarrow> 'f \<Rightarrow> app_config res" where
  "load_opts bld lib ifs =
     bind_res (throwing (cl_parse lib ifs)) (\<lambda>opts.
     bind_res (fold_res (store_opt bld lib) opts Map.empty) (\<lambda>vm.
       case fold (visit_opt vm) (map fst settings) (opts_empty, []) of (cfg, err) \<Rightarrow>
         if err \<noteq> [] then Inl (Thrown (Runtime_error err [])) else Inr cfg))"

definition config_new :: "build \<Rightarrow> 'f conf_libs \<Rightarrow> string \<Rightarrow> app_config res" where
  "config_new bld lib path =
     (case cl_open lib path of
        None \<Rightarrow> throw_runtime_error ''Missing or non-accessible config file: {}.'' [path]
      | Some ifs \<Rightarrow>
          (case load_opts bld lib ifs of
             Inl (Thrown ex) \<Rightarrow> throw_runtime_error ''Invalid config file: {}. {}'' [path, cl_exn_text lib ex]
           | r \<Rightarrow> r))"

text \<open>The rendering of the settings for the log; \<open>render\<close> stands for fmt's formatters of the values.\<close>

definition config_values :: "app_config \<Rightarrow> opt_val list" where
  "config_values cfg =
     [Path_val (ac_working_dir cfg), Endpoint_val (ac_mgmt_endpoint cfg), Cpus_val (ac_cpus cfg),
      U32_val (ac_max_cnt_mbufs cfg), U16_val (ac_num_memory_channels cfg), U16_val (ac_nic_queue_size cfg)]"

definition format_config :: "(opt_val \<Rightarrow> string) \<Rightarrow> app_config \<Rightarrow> string" where
  "format_config render cfg =
     concat (map (\<lambda>((nam, ty), v). [CHR 0x0A, CHR 0x09] @ nam @ '' = '' @ render v)
       (zip settings (config_values cfg)))"

subsection \<open>The messages about the options\<close>

lemma fold_res_fault:
  assumes "\<And>x s. x \<in> set xs \<Longrightarrow> f x s = Inl e \<or> (\<exists>t. f x s = Inr t)"
    and "x \<in> set xs" and "\<And>s. f x s = Inl e"
  shows "fold_res f xs s = Inl e"
  using assms
proof (induction xs arbitrary: s)
  case (Cons y ys)
  show ?case
  proof (cases "f y s")
    case (Inl e')
    then show ?thesis using Cons.prems(1) [of y s] by auto
  next
    case (Inr t)
    then have "x \<in> set ys" using Cons.prems(2,3) by auto
    then have "fold_res f ys t = Inl e" using Cons.prems by (intro Cons.IH) auto
    with Inr show ?thesis by simp
  qed
qed simp

lemma set_opt_cfg: "set_opt nam v cfg = None \<longleftrightarrow> set_opt nam v cfg' = None"
  by (simp add: set_opt_def split: option.split opt_val.split)

definition map_complaint :: "(string \<rightharpoonup> opt_val option) \<Rightarrow> string \<Rightarrow> string" where
  "map_complaint vm nam =
     (case vm nam of None \<Rightarrow> complaint ''Missing'' nam
      | Some v \<Rightarrow> if set_opt nam v opts_empty = None then complaint ''Invalid'' nam else [])"

lemma visit_opt_error: "snd (visit_opt vm nam (cfg, err)) = err @ map_complaint vm nam"
proof (cases "vm nam")
  case None
  then show ?thesis by (simp add: visit_opt_def map_complaint_def)
next
  case (Some v)
  then show ?thesis
    using set_opt_cfg [of nam v cfg opts_empty]
    by (cases "set_opt nam v cfg") (auto simp: visit_opt_def map_complaint_def)
qed

lemma visit_opts_error:
  "snd (fold (visit_opt vm) nams (cfg, err)) = err @ concat (map (map_complaint vm) nams)"
proof (induction nams arbitrary: cfg err)
  case (Cons nam nams)
  obtain c e where v: "visit_opt vm nam (cfg, err) = (c, e)" by (cases "visit_opt vm nam (cfg, err)")
  then have "e = err @ map_complaint vm nam" using visit_opt_error [of vm nam cfg err] by simp
  then show ?case using Cons.IH [of c e] v by simp
qed simp

text \<open>The map after \<open>store\<close>, when every validator returns.\<close>

definition registered_ok :: "build \<Rightarrow> 'f conf_libs \<Rightarrow> (string \<times> string list) list \<Rightarrow> bool" where
  "registered_ok bld lib opts \<longleftrightarrow> distinct (map fst opts) \<and>
     (\<forall>(nam, val)\<in>set opts. \<forall>ty. map_of settings nam = Some ty \<longrightarrow> (\<exists>v. validate_opt bld lib ty val = Inr v))"

definition stored :: "build \<Rightarrow> 'f conf_libs \<Rightarrow> (string \<times> string list) list \<Rightarrow> string \<Rightarrow> opt_val option option" where
  "stored bld lib opts nam =
     (case (map_of settings nam, map_of opts nam) of
        (Some ty, Some val) \<Rightarrow> (case validate_opt bld lib ty val of Inr v \<Rightarrow> Some v | Inl _ \<Rightarrow> None)
      | _ \<Rightarrow> None)"

lemma store_opts:
  assumes "registered_ok bld lib opts"
  shows "fold_res (store_opt bld lib) opts vm =
           Inr (\<lambda>nam. case stored bld lib opts nam of None \<Rightarrow> vm nam | Some v \<Rightarrow> Some v)"
  using assms
proof (induction opts arbitrary: vm)
  case Nil
  have "stored bld lib [] nam = None" for nam by (simp add: stored_def split: option.split)
  then show ?case by simp
next
  case (Cons opt opts)
  obtain nam val where opt: "opt = (nam, val)" by (cases opt)
  have ok: "registered_ok bld lib opts" using Cons.prems by (auto simp: registered_ok_def)
  have new: "map_of opts nam = None"
    using Cons.prems by (auto simp: registered_ok_def opt map_of_eq_None_iff)
  show ?case
  proof (cases "map_of settings nam")
    case None
    then have "stored bld lib (opt # opts) n = stored bld lib opts n" for n
      by (simp add: stored_def opt)
    then show ?thesis using Cons.IH [OF ok] None by (simp add: store_opt_def opt)
  next
    case (Some ty)
    then obtain v where v: "validate_opt bld lib ty val = Inr v"
      using Cons.prems by (auto simp: registered_ok_def opt)
    have "stored bld lib (opt # opts) n = (if n = nam then Some v else stored bld lib opts n)" for n
      by (simp add: stored_def opt Some v)
    moreover have "stored bld lib opts nam = None" by (simp add: stored_def new split: option.split)
    ultimately have "(\<lambda>n. case stored bld lib opts n of None \<Rightarrow> (vm(nam \<mapsto> v)) n | Some v \<Rightarrow> Some v) =
        (\<lambda>n. case stored bld lib (opt # opts) n of None \<Rightarrow> vm n | Some v \<Rightarrow> Some v)"
      by (auto simp: fun_eq_iff split: option.split)
    moreover have "store_opt bld lib opt vm = Inr (vm(nam \<mapsto> v))"
      by (simp add: store_opt_def opt Some v)
    ultimately show ?thesis using Cons.IH [OF ok, of "vm(nam \<mapsto> v)"] by (simp only: fold_res.simps bind_res.simps)
  qed
qed

lemma registered_okD:
  assumes "registered_ok bld lib opts" and "(nam, val) \<in> set opts" and "map_of settings nam = Some ty"
  shows "\<exists>v. validate_opt bld lib ty val = Inr v"
  using assms unfolding registered_ok_def by fast

text \<open>What the text of the error says about one option.\<close>

definition opt_complaint :: "build \<Rightarrow> 'f conf_libs \<Rightarrow> (string \<times> string list) list \<Rightarrow> string \<times> opt_type \<Rightarrow> string" where
  "opt_complaint bld lib opts setting =
     (case setting of (nam, ty) \<Rightarrow> case map_of opts nam of
        None \<Rightarrow> complaint ''Missing'' nam
      | Some val \<Rightarrow> if validate_opt bld lib ty val = Inr None then complaint ''Invalid'' nam else [])"

lemma validate_opt_typed:
  assumes "validate_opt bld lib ty val = Inr v" and "(nam, ty) \<in> set settings"
  shows "set_opt nam v cfg = None \<longleftrightarrow> v = None"
proof (cases ty)
  case Cpus_type
  then show ?thesis using assms by (cases v) (auto simp: res_simps settings_def set_opt_def)
qed (use assms in \<open>auto simp: res_simps settings_def set_opt_def\<close>)

lemma map_complaint_eq:
  assumes "registered_ok bld lib opts" and "(nam, ty) \<in> set settings"
  shows "map_complaint (stored bld lib opts) nam = opt_complaint bld lib opts (nam, ty)"
proof -
  have ty: "map_of settings nam = Some ty"
    using assms(2) by (auto simp: settings_def)
  show ?thesis
  proof (cases "map_of opts nam")
    case None
    then show ?thesis by (simp add: map_complaint_def opt_complaint_def stored_def split: option.split)
  next
    case (Some val)
    then have "(nam, val) \<in> set opts" by (rule map_of_SomeD)
    then obtain v where v: "validate_opt bld lib ty val = Inr v"
      using registered_okD [OF assms(1)] ty by blast
    show ?thesis
      using validate_opt_typed [OF v assms(2), of opts_empty] Some ty v
      by (simp add: map_complaint_def opt_complaint_def stored_def)
  qed
qed

definition opts_error :: "build \<Rightarrow> 'f conf_libs \<Rightarrow> (string \<times> string list) list \<Rightarrow> string" where
  "opts_error bld lib opts = concat (map (opt_complaint bld lib opts) settings)"

lemma load_opts_error:
  assumes "cl_parse lib ifs = Inr opts" and "registered_ok bld lib opts"
  shows "load_opts bld lib ifs =
           (if opts_error bld lib opts = []
            then Inr (fst (fold (visit_opt (stored bld lib opts)) (map fst settings) (opts_empty, [])))
            else Inl (Thrown (Runtime_error (opts_error bld lib opts) [])))"
proof -
  let ?r = "fold (visit_opt (stored bld lib opts)) (map fst settings) (opts_empty, [])"
  have "(\<lambda>nam. case stored bld lib opts nam of None \<Rightarrow> Map.empty nam | Some v \<Rightarrow> Some v) = stored bld lib opts"
    by (auto simp: fun_eq_iff split: option.split)
  then have vm: "fold_res (store_opt bld lib) opts Map.empty = Inr (stored bld lib opts)"
    using store_opts [OF assms(2), of Map.empty] by simp
  have "map (map_complaint (stored bld lib opts)) (map fst settings) = map (opt_complaint bld lib opts) settings"
    using map_complaint_eq [OF assms(2)] by (auto simp: map_eq_conv)
  then have "snd ?r = opts_error bld lib opts"
    by (simp add: visit_opts_error opts_error_def del: map_map)
  then show ?thesis
    by (cases ?r) (simp add: load_opts_def assms(1) vm)
qed

text \<open>As the index is written, an endpoint with an address never has a value.\<close>

lemma validate_endpoint_written: "validate_endpoint as_written lib val \<noteq> Inr e"
proof
  assume "validate_endpoint as_written lib val = Inr e"
  then obtain s where s: "throwing (cl_single lib val False) = Inr s"
    "(let parts = cl_split lib (\<lambda>c. c = CHR '':'') False s; what = [cl_strings_text lib val] in
       if length parts \<noteq> 2 then throw_runtime_error ''No port in endpoint: {}'' what
       else case cl_address_v4 lib (parts ! 0) of
         None \<Rightarrow> throw_runtime_error ''Invalid address in endpoint: {}'' what
       | Some addr \<Rightarrow> Inl Undefined) = Inr e"
    by (auto simp: validate_endpoint_def res_simps Let_def split: if_splits option.splits)
  from s(2) show False by (auto simp: res_simps Let_def split: if_splits option.splits)
qed

lemma config_never_loads: "config_new as_written lib path \<noteq> Inr cfg"
proof
  assume "config_new as_written lib path = Inr cfg"
  then obtain ifs where "load_opts as_written lib ifs = Inr cfg"
    by (auto simp: config_new_def res_simps split: option.splits sum.splits fault.splits)
  then obtain opts vm where vm: "fold_res (store_opt as_written lib) opts Map.empty = Inr vm"
    and "(case fold (visit_opt vm) (map fst settings) (opts_empty, []) of (cfg, err) \<Rightarrow>
         if err \<noteq> [] then Inl (Thrown (Runtime_error err [])) else Inr cfg) = Inr cfg"
    unfolding load_opts_def bind_res_Inr_iff by (elim exE conjE)
  then have no_err: "snd (fold (visit_opt vm) (map fst settings) (opts_empty, [])) = []"
    by (cases "fold (visit_opt vm) (map fst settings) (opts_empty, [])") (simp split: if_splits)
  have "vm ''mgmt_endpoint'' = None"
  proof (rule fold_res_invariant [OF vm])
    show "Map.empty ''mgmt_endpoint'' = None" by simp
    fix opt and v v' :: "string \<rightharpoonup> opt_val option"
    assume "v ''mgmt_endpoint'' = None" "store_opt as_written lib opt v = Inr v'"
    then show "v' ''mgmt_endpoint'' = None"
      using validate_endpoint_written
      by (auto simp: store_opt_def settings_def res_simps split: prod.splits if_splits)
  qed
  then have "map_complaint vm ''mgmt_endpoint'' \<noteq> []" by (simp add: map_complaint_def complaint_def)
  moreover have "concat (map (map_complaint vm) (map fst settings)) = []"
    using no_err visit_opts_error [of vm "map fst settings" opts_empty "[]"] by (metis append_Nil)
  ultimately show False by (simp add: settings_def)
qed


subsection \<open>Reading a file back\<close>

text \<open>
  What is documented of the libraries: a single text is accepted as it is, splitting at a separator
  that occurs once gives the two parts, and printing an address, a path or a number and parsing it
  gives it back. \<open>addr_text\<close> is the dotted form of an address.
\<close>

definition conf_libs_documented :: "'f conf_libs \<Rightarrow> (u32 \<Rightarrow> string) \<Rightarrow> bool" where
  "conf_libs_documented lib addr_text \<longleftrightarrow>
     (\<forall>s allow. s \<noteq> [] \<longrightarrow> cl_single lib [s] allow = Inr s) \<and>
     (\<forall>P compress a c b. P c \<and> (\<forall>x\<in>set a \<union> set b. \<not> P x) \<and> a \<noteq> [] \<and> b \<noteq> [] \<longrightarrow>
        cl_split lib P compress (a @ c # b) = [a, b]) \<and>
     (\<forall>a. cl_address_v4 lib (addr_text a) = Some a \<and> addr_text a \<noteq> [] \<and> CHR '':'' \<notin> set (addr_text a)) \<and>
     (\<forall>s. cl_path lib [s] = Inr s) \<and>
     (\<forall>n. cl_u32 lib [dec_string (unat n)] = Inr n) \<and> (\<forall>n. cl_u16 lib [dec_string (unat n)] = Inr n)"

text \<open>A file with the six options, in any order and among others the program does not know.\<close>

definition file_of :: "(u32 \<Rightarrow> string) \<Rightarrow> app_config \<Rightarrow> (string \<times> string list) list \<Rightarrow> bool" where
  "file_of addr_text cfg opts \<longleftrightarrow>
     distinct (map fst opts) \<and> length (ac_cpus cfg) = 2 \<and>
     map_of opts ''working_dir'' = Some [ac_working_dir cfg] \<and>
     map_of opts ''mgmt_endpoint'' =
       Some [addr_text (fst (ac_mgmt_endpoint cfg)) @ '':'' @ dec_string (unat (snd (ac_mgmt_endpoint cfg)))] \<and>
     map_of opts ''cpus'' = Some [dec_string (unat (ac_cpus cfg ! 0)) @ '', '' @ dec_string (unat (ac_cpus cfg ! 1))] \<and>
     map_of opts ''max_cnt_mbufs'' = Some [dec_string (unat (ac_max_cnt_mbufs cfg))] \<and>
     map_of opts ''num_memory_channels'' = Some [dec_string (unat (ac_num_memory_channels cfg))] \<and>
     map_of opts ''nic_queue_size'' = Some [dec_string (unat (ac_nic_queue_size cfg))]"

lemma dec_string_char: "\<not> is_digit c \<Longrightarrow> c \<notin> set (dec_string n)"
  using dec_string_digits by blast

lemma split_documented:
  assumes "conf_libs_documented lib addr_text" and "c \<notin> set a" "c \<notin> set b" "a \<noteq> []" "b \<noteq> []"
  shows "cl_split lib (\<lambda>x. x = c) compress (a @ c # b) = [a, b]"
proof -
  have "\<forall>P compress a c b. P c \<and> (\<forall>x\<in>set a \<union> set b. \<not> P x) \<and> a \<noteq> [] \<and> b \<noteq> [] \<longrightarrow>
      cl_split lib P compress (a @ c # b) = [a, b]"
    using assms(1) unfolding conf_libs_documented_def by (elim conjE)
  from this [rule_format, of "\<lambda>x. x = c" c a b compress] assms(2-5) show ?thesis by blast
qed

lemma cpus_read_back:
  assumes "conf_libs_documented lib addr_text"
  shows "validate_cpus lib [dec_string (unat i) @ '', '' @ dec_string (unat j)] = Inr (Some [i, j])"
proof -
  let ?i = "dec_string (unat i)" and ?j = "dec_string (unat j)"
  have comma: "CHR '','' \<notin> set ?i" "CHR '','' \<notin> set ?j"
    by (rule dec_string_char, simp add: is_digit_def)+
  have single: "cl_single lib [?i @ '', '' @ ?j] True = Inr (?i @ '', '' @ ?j)"
    using assms by (simp add: conf_libs_documented_def)
  have "cl_split lib (\<lambda>c. c = CHR '','') True (?i @ CHR '','' # ('' '' @ ?j)) = [?i, '' '' @ ?j]"
    using comma dec_string_nonempty by (intro split_documented [OF assms]) auto
  then have split: "cl_split lib (\<lambda>c. c = CHR '','') True (?i @ '', '' @ ?j) = [?i, '' '' @ ?j]" by simp
  have "str_trim ?i = ?i" "str_trim ('' '' @ ?j) = ?j"
    using str_trim_blanks [of "[]" "[]" ?i] str_trim_blanks [of "'' ''" "[]" ?j] dec_string_no_blank
    by (simp_all add: blanks_def)
  then show ?thesis
    unfolding validate_cpus_def single throwing.simps bind_res.simps split Let_def
    using str_to_int_roundtrip by (simp add: opt_value_def)
qed

lemma endpoint_read_back:
  assumes "conf_libs_documented lib addr_text"
  shows "validate_endpoint as_meant lib [addr_text a @ '':'' @ dec_string (unat p)] = Inr (a, p)"
    and "validate_endpoint as_written lib [addr_text a @ '':'' @ dec_string (unat p)] = Inl Undefined"
proof -
  let ?s = "addr_text a @ '':'' @ dec_string (unat p)"
  have a: "cl_address_v4 lib (addr_text a) = Some a" "addr_text a \<noteq> []" "CHR '':'' \<notin> set (addr_text a)"
    and single: "cl_single lib [?s] False = Inr ?s"
    using assms by (simp_all add: conf_libs_documented_def)
  have "CHR '':'' \<notin> set (dec_string (unat p))" by (rule dec_string_char) (simp add: is_digit_def)
  then have "cl_split lib (\<lambda>c. c = CHR '':'') False (addr_text a @ CHR '':'' # dec_string (unat p)) =
      [addr_text a, dec_string (unat p)]"
    using a dec_string_nonempty by (intro split_documented [OF assms]) auto
  then have split: "cl_split lib (\<lambda>c. c = CHR '':'') False ?s = [addr_text a, dec_string (unat p)]" by simp
  show "validate_endpoint as_meant lib [?s] = Inr (a, p)" "validate_endpoint as_written lib [?s] = Inl Undefined"
    unfolding validate_endpoint_def single throwing.simps bind_res.simps split Let_def
    using str_to_int_roundtrip a by simp_all
qed

text \<open>What the validators make of the options of such a file.\<close>

lemma file_stored:
  assumes "conf_libs_documented lib addr_text" and "file_of addr_text cfg opts"
  shows "stored as_meant lib opts ''working_dir'' = Some (Some (Path_val (ac_working_dir cfg)))"
    "stored as_meant lib opts ''mgmt_endpoint'' = Some (Some (Endpoint_val (ac_mgmt_endpoint cfg)))"
    "stored as_meant lib opts ''cpus'' = Some (Some (Cpus_val (ac_cpus cfg)))"
    "stored as_meant lib opts ''max_cnt_mbufs'' = Some (Some (U32_val (ac_max_cnt_mbufs cfg)))"
    "stored as_meant lib opts ''num_memory_channels'' = Some (Some (U16_val (ac_num_memory_channels cfg)))"
    "stored as_meant lib opts ''nic_queue_size'' = Some (Some (U16_val (ac_nic_queue_size cfg)))"
proof -
  have libs: "cl_path lib [s] = Inr s" "cl_u32 lib [dec_string (unat n)] = Inr n"
    "cl_u16 lib [dec_string (unat k)] = Inr k" for s n k
    using assms(1) by (simp_all add: conf_libs_documented_def)
  obtain i j where "ac_cpus cfg = [i, j]"
    using assms(2) by (auto simp: file_of_def length_Suc_conv numeral_2_eq_2)
  then show "stored as_meant lib opts ''cpus'' = Some (Some (Cpus_val (ac_cpus cfg)))"
    using assms(2) cpus_read_back [OF assms(1)] by (simp add: stored_def file_of_def settings_def)
  obtain a p where "ac_mgmt_endpoint cfg = (a, p)" by (cases "ac_mgmt_endpoint cfg")
  then show "stored as_meant lib opts ''mgmt_endpoint'' = Some (Some (Endpoint_val (ac_mgmt_endpoint cfg)))"
    using assms(2) endpoint_read_back(1) [OF assms(1)] by (simp add: stored_def file_of_def settings_def)
qed (use assms in \<open>simp_all add: stored_def file_of_def settings_def conf_libs_documented_def\<close>)

lemma stored_validates:
  assumes "stored bld lib opts nam = Some v" and "distinct (map fst opts)" and "(nam, val) \<in> set opts"
    and "map_of settings nam = Some ty"
  shows "validate_opt bld lib ty val = Inr v"
proof -
  have "map_of opts nam = Some val" using assms(2,3) by simp
  then show ?thesis using assms(1,4) by (simp add: stored_def split: sum.splits)
qed

lemma registered_cases:
  assumes "map_of settings nam = Some ty"
  shows "nam \<in> {''working_dir'', ''cpus'', ''max_cnt_mbufs'', ''num_memory_channels'', ''nic_queue_size''} \<and>
           ty \<noteq> Endpoint_type \<or> nam = ''mgmt_endpoint'' \<and> ty = Endpoint_type"
  using assms by (auto simp: settings_def split: if_splits)

lemma file_registered_ok:
  assumes "conf_libs_documented lib addr_text" and "file_of addr_text cfg opts"
  shows "registered_ok as_meant lib opts"
proof -
  have distinct: "distinct (map fst opts)" using assms(2) by (simp add: file_of_def)
  have "\<exists>v. validate_opt as_meant lib ty val = Inr v"
    if o: "(nam, val) \<in> set opts" and ty: "map_of settings nam = Some ty" for nam val ty
  proof -
    have "\<exists>v. stored as_meant lib opts nam = Some v"
      using registered_cases [OF ty] file_stored [OF assms] by auto
    then show ?thesis using stored_validates [OF _ distinct o ty] by blast
  qed
  then show ?thesis using distinct by (auto simp: registered_ok_def)
qed

lemma validate_opt_build: "ty \<noteq> Endpoint_type \<Longrightarrow> validate_opt bld lib ty val = validate_opt bld' lib ty val"
  by (cases ty) simp_all

lemma stored_endpoint_fault:
  fixes p :: u16 and a :: u32
  assumes "conf_libs_documented lib addr_text"
  shows "store_opt as_written lib (''mgmt_endpoint'', [addr_text a @ '':'' @ dec_string (unat p)]) vm = Inl Undefined"
  using endpoint_read_back(2) [OF assms, of a p] by (simp add: store_opt_def settings_def)

lemma stored_other:
  assumes "registered_ok as_meant lib opts" and "(nam, val) \<in> set opts"
    and "map_of settings nam = Some ty" and "ty \<noteq> Endpoint_type"
  shows "\<exists>t. store_opt as_written lib (nam, val) vm = Inr t"
  using registered_okD [OF assms(1) _ assms(3), of val] assms(2,3)
    validate_opt_build [OF assms(4), of as_written lib val as_meant]
  by (auto simp: store_opt_def)

lemma stored_each:
  assumes reg: "registered_ok as_meant lib opts" and opt: "opt \<in> set opts" and d: "distinct (map fst opts)"
    and e: "map_of opts ''mgmt_endpoint'' = Some v"
    and fault: "\<And>vm. store_opt as_written lib (''mgmt_endpoint'', v) vm = Inl Undefined"
  shows "store_opt as_written lib opt vm = Inl Undefined \<or> (\<exists>t. store_opt as_written lib opt vm = Inr t)"
proof (cases "map_of settings (fst opt)")
  case None
  then show ?thesis by (simp add: store_opt_def case_prod_beta)
next
  case (Some ty)
  obtain nam val where nv: "opt = (nam, val)" by (cases opt)
  show ?thesis
  proof (cases "ty = Endpoint_type")
    case True
    then have "nam = ''mgmt_endpoint''" using registered_cases [of nam ty] Some nv by simp
    then have "opt = (''mgmt_endpoint'', v)" using e d opt nv by (metis map_of_is_SomeI option.inject)
    then show ?thesis using fault by simp
  next
    case False
    then show ?thesis using stored_other [OF reg _ _ False, of nam val vm] opt nv Some by simp
  qed
qed

text \<open>
  Claim C29. With the index of the port repaired, a file that gives the six options, in any order
  and among options the program does not know, with the CPUs separated by a comma and a blank, is
  loaded as exactly the settings it was written from. As the index is written, reading the port of
  any such file is an access behind the end of a vector.
\<close>

theorem config_roundtrip:
  assumes "conf_libs_documented lib addr_text" and "cl_open lib path = Some ifs"
    and "cl_parse lib ifs = Inr opts" and "file_of addr_text cfg opts"
  shows "config_new as_meant lib path = Inr cfg \<and> config_new as_written lib path = Inl Undefined"
proof
  have reg: "registered_ok as_meant lib opts" by (rule file_registered_ok [OF assms(1,4)])
  have "(\<lambda>nam. case stored as_meant lib opts nam of None \<Rightarrow> Map.empty nam | Some v \<Rightarrow> Some v) = stored as_meant lib opts"
    by (auto simp: fun_eq_iff split: option.split)
  then have vm: "fold_res (store_opt as_meant lib) opts Map.empty = Inr (stored as_meant lib opts)"
    using store_opts [OF reg, of Map.empty] by simp
  have "fold (visit_opt (stored as_meant lib opts)) (map fst settings) (opts_empty, []) = (cfg, [])"
    by (simp add: settings_def visit_opt_def set_opt_def file_stored [OF assms(1,4)] opts_empty_def)
  then have "load_opts as_meant lib ifs = Inr cfg" by (simp add: load_opts_def assms(3) vm)
  then show "config_new as_meant lib path = Inr cfg" by (simp add: config_new_def assms(2))
  obtain a p where ap: "ac_mgmt_endpoint cfg = (a, p)" by (cases "ac_mgmt_endpoint cfg")
  let ?v = "[addr_text a @ '':'' @ dec_string (unat p)]"
  have e: "map_of opts ''mgmt_endpoint'' = Some ?v" and d: "distinct (map fst opts)"
    using assms(4) by (simp_all add: file_of_def ap)
  have "fold_res (store_opt as_written lib) opts Map.empty = Inl Undefined"
  proof (rule fold_res_fault [where x = "(''mgmt_endpoint'', ?v)"])
    show "store_opt as_written lib (''mgmt_endpoint'', ?v) vm = Inl Undefined" for vm
      by (rule stored_endpoint_fault [OF assms(1)])
    show "(''mgmt_endpoint'', ?v) \<in> set opts" using map_of_SomeD [OF e] .
    show "store_opt as_written lib opt vm = Inl Undefined \<or> (\<exists>t. store_opt as_written lib opt vm = Inr t)"
      if "opt \<in> set opts" for opt vm
      by (rule stored_each [OF reg that d e stored_endpoint_fault [OF assms(1)]])
  qed
  then show "config_new as_written lib path = Inl Undefined"
    by (simp add: config_new_def load_opts_def assms(2,3))
qed

text \<open>The file of the repository, and one with three problems.\<close>

fun split_at :: "(char \<Rightarrow> bool) \<Rightarrow> string \<Rightarrow> string list" where
  "split_at P [] = [[]]"
| "split_at P (c # cs) =
     (if P c then [] # split_at P cs else case split_at P cs of [] \<Rightarrow> [[c]] | p # ps \<Rightarrow> (c # p) # ps)"

definition sample_conf_libs :: "(string \<times> string list) list conf_libs" where
  "sample_conf_libs =
     \<lparr>cl_open = (\<lambda>path. Some
        [(''working_dir'', [''./'']), (''mgmt_endpoint'', [''2130706433:12345'']), (''cpus'', [''1, 2'']),
         (''max_cnt_mbufs'', [''32768'']), (''num_memory_channels'', [''4'']), (''nic_queue_size'', [''4096''])]),
      cl_parse = Inr, cl_single = (\<lambda>val allow. Inr (hd val)), cl_split = (\<lambda>P compress s. split_at P s),
      cl_address_v4 = (\<lambda>s. Some (of_nat (dec_value 0 s))), cl_path = (\<lambda>val. Inr (hd val)),
      cl_u32 = (\<lambda>val. Inr (of_nat (dec_value 0 (hd val)))), cl_u16 = (\<lambda>val. Inr (of_nat (dec_value 0 (hd val)))),
      cl_strings_text = concat, cl_exn_text = (\<lambda>e. case e of Runtime_error t args \<Rightarrow> t | _ \<Rightarrow> [])\<rparr>"

lemma split_at_once:
  assumes "P c" "\<forall>x\<in>set a \<union> set b. \<not> P x"
  shows "split_at P (a @ c # b) = [a, b]"
proof -
  have "split_at P b = [b]" using assms(2) by (induction b) auto
  then show ?thesis using assms by (induction a) auto
qed

lemma sample_conf_documented: "conf_libs_documented sample_conf_libs (\<lambda>a. dec_string (unat a))"
proof -
  have "CHR '':'' \<notin> set (dec_string n)" for n by (rule dec_string_char) (simp add: is_digit_def)
  then show ?thesis
    by (simp add: conf_libs_documented_def sample_conf_libs_def split_at_once dec_value_dec_string dec_string_nonempty)
qed

definition sample_settings :: app_config where
  "sample_settings = \<lparr>ac_working_dir = ''./'', ac_mgmt_endpoint = (2130706433, 12345), ac_cpus = [1, 2],
     ac_max_cnt_mbufs = 32768, ac_num_memory_channels = 4, ac_nic_queue_size = 4096\<rparr>"

lemma dec_string_samples:
  "dec_string (Suc 0) = ''1''" "dec_string 2 = ''2''" "dec_string 4 = ''4''" "dec_string 4096 = ''4096''"
  "dec_string 32768 = ''32768''" "dec_string 12345 = ''12345''" "dec_string 2130706433 = ''2130706433''"
  by (simp_all add: dec_string.simps dec_digit [symmetric])

theorem config_roundtrip_witness:
  "config_new as_meant sample_conf_libs ''traffic_generator.cfg'' = Inr sample_settings \<and>
   config_new as_written sample_conf_libs ''traffic_generator.cfg'' = Inl Undefined"
proof -
  let ?opts = "the (cl_open sample_conf_libs [])"
  have "file_of (\<lambda>a. dec_string (unat a)) sample_settings ?opts"
    by (simp add: file_of_def sample_conf_libs_def sample_settings_def dec_string_samples)
  then show ?thesis
    by (intro config_roundtrip [OF sample_conf_documented, of _ ?opts ?opts]) (simp_all add: sample_conf_libs_def)
qed


end

