(* ===== verification/Stacktrace.thy ===== *)
theory Stacktrace
  imports Put_Text Tg_Assert
begin

section \<open>The report of a fatal signal (put/stacktrace.cpp)\<close>

text \<open>
  A handler of fatal signals writes what it knows about the signal, the stack and the registers to
  a file descriptor with \<open>write\<close> only, because little else may be called from a signal handler; the
  numbers are therefore rendered by two routines of their own, into arrays on the stack.

  The functions of the operating system and of the C library are the record \<open>crash_lib\<close>, on the
  state \<open>'w\<close> they share. \<open>fresh_array\<close> is what a local \<open>char buf[32]\<close> holds before anything is
  stored in it. The numbers of the signals and of their codes, and the indices of the registers,
  are those of Linux on x86-64, the only platform the source compiles on.
\<close>

record 'w crash_lib =
  fresh_array :: string
  os_write :: "int \<Rightarrow> string \<Rightarrow> 'w \<Rightarrow> int \<times> 'w"
  os_errno :: "'w \<Rightarrow> int"
  os_backtrace :: "nat \<Rightarrow> 'w \<Rightarrow> int \<times> u64 list \<times> 'w"
  os_symbols_fd :: "u64 list \<Rightarrow> int \<Rightarrow> 'w \<Rightarrow> 'w"
  os_fflush_stdout :: "'w \<Rightarrow> 'w"
  os_fflush_stderr :: "'w \<Rightarrow> 'w"
  os_signal_default :: "int \<Rightarrow> 'w \<Rightarrow> 'w"
  os_raise :: "int \<Rightarrow> 'w \<Rightarrow> 'w"
  os_sigaction :: "int \<Rightarrow> 'w \<Rightarrow> int \<times> 'w"

subsection \<open>Numbers as text\<close>

text \<open>A C string in an array ends at the first zero byte; without one, reading it is undefined.\<close>

definition c_str :: "string \<Rightarrow> string res" where
  "c_str buf = (if CHR 0x00 \<in> set buf then Inr (takeWhile (\<lambda>c. c \<noteq> CHR 0x00) buf) else Inl Undefined)"

text \<open>
  The loop of \<open>u32_to_dec\<close> fills the array from position \<open>i - 1\<close> downwards and returns where it
  stopped; a store below the array is undefined.
\<close>

fun dec_loop :: "nat \<Rightarrow> u32 \<Rightarrow> string \<Rightarrow> (nat \<times> string) res" where
  "dec_loop 0 val buf = Inl Undefined"
| "dec_loop (Suc i) val buf =
     (let buf = buf[i := ''0123456789'' ! unat (val mod 10)]; val = val div 10
      in if val \<noteq> 0 then dec_loop i val buf else Inr (i, buf))"

definition u32_to_dec :: "u32 \<Rightarrow> string \<Rightarrow> string res" where
  "u32_to_dec val buf =
     bind_res (tg_assert (10 + 1 \<le> length buf)) (\<lambda>_.
     bind_res (dec_loop 10 val buf) (\<lambda>(i, buf).
       let len = 10 - i; buf = take len (drop i buf) @ drop len buf
       in Inr (buf[len := CHR 0x00])))"

fun hex_loop :: "nat \<Rightarrow> u64 \<Rightarrow> string \<Rightarrow> string" where
  "hex_loop i val buf =
     (if 1 < i then hex_loop (i - 1) (val div 16) (buf[i := ''0123456789ABCDEF'' ! unat (val mod 16)])
      else buf)"

declare hex_loop.simps [simp del]

definition u64_to_hex :: "u64 \<Rightarrow> string \<Rightarrow> string res" where
  "u64_to_hex val buf =
     bind_res (tg_assert (19 \<le> length buf)) (\<lambda>_.
       let buf = hex_loop 17 val (buf[18 := CHR 0x00])
       in Inr (buf[1 := CHR ''x'', 0 := CHR ''0'']))"

subsection \<open>Writing\<close>

definition write_str :: "'w crash_lib \<Rightarrow> int \<Rightarrow> string \<Rightarrow> 'w \<Rightarrow> bool \<times> 'w" where
  "write_str lib fd str w = (case os_write lib fd str w of (n, w) \<Rightarrow> (n = int (length str), w))"

text \<open>A call of \<open>write_str\<close> whose result is not looked at.\<close>

definition put_str :: "'w crash_lib \<Rightarrow> int \<Rightarrow> string \<Rightarrow> 'w \<Rightarrow> 'w" where
  "put_str lib fd str w = snd (write_str lib fd str w)"

subsection \<open>The signal\<close>

record siginfo =
  si_signo :: int
  si_code :: int
  si_pid :: int
  si_uid :: u32
  si_addr :: u64

definition fatal_signals :: "(int \<times> string) list" where
  "fatal_signals = [(6, ''SIGABRT''), (7, ''SIGBUS''), (8, ''SIGFPE''), (4, ''SIGILL''),
     (11, ''SIGSEGV''), (31, ''SIGSYS''), (5, ''SIGTRAP'')]"

text \<open>What is said of a signal, and whether the address of the fault is given.\<close>

definition signal_infos :: "(int \<times> string \<times> bool) list" where
  "signal_infos =
     [(6, ''Abort signal from abort(3)'', False), (7, ''Bus error (bad memory access)'', True),
      (8, ''Floating-point exception'', True), (4, ''Illegal Instruction'', True),
      (11, ''Invalid memory reference'', True), (31, ''Bad system call'', False),
      (5, ''Trace/breakpoint trap'', True)]"

text \<open>
  The codes of each signal. The source names the hardware breakpoint too, but the test of the
  preprocessor in front of it has a misspelt name (\<open>TRAP_HWPKPT\<close>), so it is never compiled in.
\<close>

definition code_texts :: "((int \<times> int) \<times> string) list" where
  "code_texts =
     [((7, 1), ''Invalid address alignment''),
      ((7, 2), ''Nonexistent physical address''),
      ((7, 3), ''Object specific hardware error''),
      ((7, 4), ''Hardware memory error consumed on a machine check; action required''),
      ((7, 5), ''Hardware memory error detected in process but not consumed; action optional''),
      ((8, 1), ''Integer divide by zero''),
      ((8, 2), ''Integer overflow''),
      ((8, 3), ''Floating-point divide by zero''),
      ((8, 4), ''Floating-point overflow''),
      ((8, 5), ''Floating-point underflow''),
      ((8, 6), ''Floating-point inexact result''),
      ((8, 7), ''Floating-point invalid operation''),
      ((8, 8), ''Subscript out of range''),
      ((4, 1), ''Illegal opcode''),
      ((4, 2), ''Illegal operand''),
      ((4, 3), ''Illegal addressing mode''),
      ((4, 4), ''Illegal trap''),
      ((4, 5), ''Privileged opcode''),
      ((4, 6), ''Privileged register''),
      ((4, 7), ''Coprocessor error''),
      ((4, 8), ''Internal stack error''),
      ((11, 1), ''Address not mapped to object''),
      ((11, 2), ''Invalid permissions for mapped object''),
      ((11, 3), ''Failed address bound checks''),
      ((11, 4), ''Access was denied by memory protection keys''),
      ((31, 1), ''Triggered by a seccomp(2) filter rule''),
      ((5, 1), ''Process breakpoint''),
      ((5, 2), ''Process trace trap''),
      ((5, 3), ''Process taken branch trap'')]"

definition dump_u32_info :: "'w crash_lib \<Rightarrow> int \<Rightarrow> string \<Rightarrow> u32 \<Rightarrow> 'w \<Rightarrow> 'w res" where
  "dump_u32_info lib fd lbl u w =
     (let w = put_str lib fd lbl w
      in bind_res (u32_to_dec u (fresh_array lib)) (\<lambda>buf.
         bind_res (c_str buf) (\<lambda>s. Inr (put_str lib fd [CHR 0x0A] (put_str lib fd s w)))))"

definition dump_faulty_addr :: "'w crash_lib \<Rightarrow> int \<Rightarrow> u64 \<Rightarrow> 'w \<Rightarrow> 'w res" where
  "dump_faulty_addr lib fd addr w =
     (let w = put_str lib fd ''Fault memory address: '' w
      in bind_res (u64_to_hex addr (fresh_array lib)) (\<lambda>buf.
         bind_res (c_str buf) (\<lambda>s. Inr (put_str lib fd [CHR 0x0A] (put_str lib fd s w)))))"

definition dump_name :: "'w crash_lib \<Rightarrow> int \<Rightarrow> int \<Rightarrow> 'w \<Rightarrow> 'w res" where
  "dump_name lib fd signo w =
     (case map_of fatal_signals signo of
        Some nam \<Rightarrow> Inr (put_str lib fd (''Signal: '' @ nam @ [CHR 0x0A]) w)
      | None \<Rightarrow> dump_u32_info lib fd ''Signal: '' (of_int signo) w)"

definition dump_cause :: "'w crash_lib \<Rightarrow> int \<Rightarrow> siginfo \<Rightarrow> 'w \<Rightarrow> 'w res" where
  "dump_cause lib fd si w =
     (case map_of signal_infos (si_signo si) of
        None \<Rightarrow> Inr w
      | Some (text, has_addr) \<Rightarrow>
          (let w = put_str lib fd (''Info: '' @ text @ [CHR 0x0A]) w
           in bind_res (if has_addr then dump_faulty_addr lib fd (si_addr si) w else Inr w) (\<lambda>w.
             Inr (case map_of code_texts (si_signo si, si_code si) of
                    None \<Rightarrow> w
                  | Some add \<Rightarrow> put_str lib fd (''Additional info: '' @ add @ [CHR 0x0A]) w))))"

text \<open>\<open>SI_USER\<close> is 0 and \<open>SI_KERNEL\<close> is 128.\<close>

definition dump_origin :: "'w crash_lib \<Rightarrow> int \<Rightarrow> int \<Rightarrow> 'w \<Rightarrow> 'w" where
  "dump_origin lib fd code w =
     (if code = 0 then put_str lib fd (''Additional info: Sent by user'' @ [CHR 0x0A]) w
      else if code = 128 then put_str lib fd (''Additional info: Sent by the kernel'' @ [CHR 0x0A]) w
      else w)"

definition dump_signal_info :: "'w crash_lib \<Rightarrow> int \<Rightarrow> siginfo \<Rightarrow> 'w \<Rightarrow> 'w res" where
  "dump_signal_info lib fd si w =
     (let w = put_str lib fd (''--- SIGNAL INFO BEG ---'' @ [CHR 0x0A]) w
      in bind_res (dump_name lib fd (si_signo si) w) (\<lambda>w.
         bind_res (dump_u32_info lib fd ''Sending PID: '' (of_int (si_pid si)) w) (\<lambda>w.
         bind_res (dump_u32_info lib fd ''Sending UID: '' (si_uid si) w) (\<lambda>w.
         bind_res (dump_cause lib fd si w) (\<lambda>w.
           Inr (put_str lib fd (''--- SIGNAL INFO END ---'' @ [CHR 0x0A])
                  (dump_origin lib fd (si_code si) w)))))))"

subsection \<open>The registers\<close>

text \<open>The names, the index of the register in the context, and whether a line ends after it.\<close>

definition registers :: "(string \<times> nat \<times> bool) list" where
  "registers =
     [(''RAX:'', 13, False), (''RDI:'', 8, False), (''RSI:'', 9, False), (''RDX:'', 12, True),
      (''RCX:'', 14, False), (''R8:'', 0, False), (''R9:'', 1, False), (''R10:'', 2, True),
      (''R11:'', 3, False), (''R12:'', 4, False), (''R13:'', 5, False), (''R14:'', 6, True),
      (''R15:'', 7, False), (''RBP:'', 10, False), (''RBX:'', 11, False), (''RSP:'', 15, True),
      (''RIP:'', 16, False), (''EFL:'', 17, False), (''CSGSFS:'', 18, False), (''ERR:'', 19, True),
      (''TRAPNO:'', 20, False), (''OLDMASK:'', 21, False), (''CR2:'', 22, False)]"

definition write_reg_info ::
  "'w crash_lib \<Rightarrow> int \<Rightarrow> u64 list \<Rightarrow> string \<times> nat \<times> bool \<Rightarrow> 'w \<Rightarrow> (bool \<times> 'w) res" where
  "write_reg_info lib fd gregs reg w =
     (case reg of (nam, idx, new_line) \<Rightarrow>
        if length gregs \<le> idx then Inl Undefined
        else bind_res (u64_to_hex (gregs ! idx) (fresh_array lib)) (\<lambda>buf.
             bind_res (c_str buf) (\<lambda>s.
               case write_str lib fd nam w of (ok, w) \<Rightarrow>
                 if \<not> ok then Inr (False, w)
                 else case write_str lib fd s w of (ok, w) \<Rightarrow>
                   if \<not> ok then Inr (False, w)
                   else Inr (write_str lib fd (if new_line then [CHR 0x0A] else '' '') w))))"

fun dump_regs :: "'w crash_lib \<Rightarrow> int \<Rightarrow> u64 list \<Rightarrow> (string \<times> nat \<times> bool) list \<Rightarrow> 'w \<Rightarrow> (bool \<times> 'w) res" where
  "dump_regs lib fd gregs [] w = Inr (True, w)"
| "dump_regs lib fd gregs (r # rs) w =
     bind_res (write_reg_info lib fd gregs r w) (\<lambda>(ok, w).
       if ok then dump_regs lib fd gregs rs w else Inr (False, w))"

definition dump_registers :: "'w crash_lib \<Rightarrow> int \<Rightarrow> u64 list \<Rightarrow> 'w \<Rightarrow> (bool \<times> 'w) res" where
  "dump_registers lib fd gregs w =
     (case write_str lib fd (''--- CPU REGISTERS BEG ---'' @ [CHR 0x0A]) w of (ok, w) \<Rightarrow>
        if \<not> ok then Inr (False, w)
        else bind_res (dump_regs lib fd gregs registers w) (\<lambda>(ok, w).
          if \<not> ok then Inr (False, w)
          else Inr (True, put_str lib fd ([CHR 0x0A] @ ''--- CPU REGISTERS END ---'' @ [CHR 0x0A]) w)))"

subsection \<open>The stack, the handler and its installation\<close>

text \<open>
  At most 128 levels. Both early returns give back \<open>errno\<close>, whatever it holds. The symbols of
  the addresses are written by the C library.
\<close>

definition dump_stacktrace :: "'w crash_lib \<Rightarrow> int \<Rightarrow> 'w \<Rightarrow> int \<times> 'w" where
  "dump_stacktrace lib fd w =
     (case write_str lib fd (''--- STACK TRACE BEG ---'' @ [CHR 0x0A]) w of (ok, w) \<Rightarrow>
        if \<not> ok then (os_errno lib w, w)
        else case os_backtrace lib 128 w of (cnt, trace, w) \<Rightarrow>
          if cnt \<le> 0 then (os_errno lib w, w)
          else (0, put_str lib fd (''--- STACK TRACE END ---'' @ [CHR 0x0A])
                     (os_symbols_fd lib (take (nat cnt) trace) fd w)))"

text \<open>
  The static data of the file: the descriptor of the context, \<open>-1\<close> until the handlers are
  installed, and the flag \<open>called\<close> of the handler. The member \<open>notification\<close> of the context is
  never used.
\<close>

record crash_ctx =
  output_fd :: int
  handler_called :: bool

definition crash_ctx_init :: crash_ctx where
  "crash_ctx_init = \<lparr>output_fd = -1, handler_called = False\<rparr>"

text \<open>
  A second thread that enters the handler waits in \<open>pause\<close>. All signals are blocked there, so the
  call does not return.
\<close>

definition fatal_signal_handler ::
  "'w crash_lib \<Rightarrow> int \<Rightarrow> siginfo \<Rightarrow> u64 list \<Rightarrow> crash_ctx \<Rightarrow> 'w \<Rightarrow> (crash_ctx \<times> 'w) res" where
  "fatal_signal_handler lib sig si gregs ctx w =
     (if handler_called ctx then Inl Diverged
      else let ctx = ctx\<lparr>handler_called := True\<rparr>; fd = output_fd ctx
      in bind_res (dump_signal_info lib fd si w) (\<lambda>w.
         let w = snd (dump_stacktrace lib fd w)
         in bind_res (dump_registers lib fd gregs w) (\<lambda>(_, w).
            let w = os_fflush_stderr lib (os_fflush_stdout lib w)
            in Inr (ctx, os_raise lib sig (os_signal_default lib sig w)))))"

fun install_handlers :: "'w crash_lib \<Rightarrow> int list \<Rightarrow> 'w \<Rightarrow> bool \<times> 'w" where
  "install_handlers lib [] w = (True, w)"
| "install_handlers lib (sig # sigs) w =
     (case os_sigaction lib sig w of (ret, w) \<Rightarrow>
        if ret < 0 then (False, w) else install_handlers lib sigs w)"

definition dump_stacktrace_on_fatal_signal ::
  "'w crash_lib \<Rightarrow> int \<Rightarrow> crash_ctx \<Rightarrow> 'w \<Rightarrow> (int \<times> crash_ctx \<times> 'w) res" where
  "dump_stacktrace_on_fatal_signal lib fd ctx w =
     bind_res (tg_assert (fd \<noteq> -1)) (\<lambda>_.
     bind_res (tg_assert (output_fd ctx = -1)) (\<lambda>_.
       case install_handlers lib (map fst fatal_signals) w of (ok, w) \<Rightarrow>
         if \<not> ok then Inr (os_errno lib w, ctx, w)
         else case os_backtrace lib 64 w of (cnt, _, w) \<Rightarrow>
           if cnt \<le> 0 then Inr (os_errno lib w, ctx, w)
           else Inr (0, ctx\<lparr>output_fd := fd\<rparr>, w)))"

subsection \<open>The texts of numbers\<close>

lemma dec_char_not_zero: "is_digit c \<Longrightarrow> c \<noteq> CHR 0x00"
  by (auto simp: is_digit_def)

text \<open>
  The loop leaves the decimal digits of the value in front of the position it started from, if
  there is room for them.
\<close>

lemma dec_string_last:
  "dec_string n = (if n div 10 = 0 then [] else dec_string (n div 10)) @ [digit_char (n mod 10)]"
  by (subst dec_string.simps) auto

lemma dec_loop_digits:
  assumes "i \<le> length buf" "unat val < 10 ^ i" "0 < i"
  shows "\<exists>j buf'. dec_loop i val buf = Inr (j, buf') \<and> j \<le> i \<and> length buf' = length buf \<and>
           take (i - j) (drop j buf') = dec_string (unat val) \<and> drop i buf' = drop i buf \<and>
           length (dec_string (unat val)) = i - j"
  using assms
proof (induction i val buf rule: dec_loop.induct)
  case (1 val buf)
  then show ?case by simp
next
  case (2 i val buf)
  let ?b = "buf[i := ''0123456789'' ! unat (val mod 10)]"
  have u: "unat (val mod 10) = unat val mod 10" "unat (val div 10) = unat val div 10"
    by (simp_all add: unat_mod unat_div)
  have dig: "?b ! i = digit_char (unat val mod 10)"
  proof -
    have "?b ! i = ''0123456789'' ! unat (val mod 10)"
      using "2.prems"(1) by (intro nth_list_update_eq) simp
    then show ?thesis unfolding u by (simp only: dec_digit mod_less_divisor zero_less_numeral)
  qed
  show ?case
  proof (cases "val div 10 = 0")
    case True
    then have "unat val div 10 = 0" using u(2) by simp
    then have ds: "dec_string (unat val) = [?b ! i]"
      unfolding dig by (subst dec_string_last) simp
    have "take 1 (drop i ?b) = [?b ! i]"
      using "2.prems"(1) by (simp add: take_Suc_conv_app_nth)
    then show ?thesis using True "2.prems"(1) ds by simp
  next
    case False
    then have nz: "unat val div 10 \<noteq> 0" using u(2) by (metis unat_eq_0)
    have "unat val < 10 ^ i * 10" using "2.prems"(2) by (simp add: ac_simps)
    then have small: "unat (val div 10) < 10 ^ i" unfolding u by (simp add: less_mult_imp_div_less)
    with nz u(2) have "0 < i" by (cases i) auto
    then obtain j b' where IH: "dec_loop i (val div 10) ?b = Inr (j, b')" "j \<le> i" "length b' = length ?b"
        "take (i - j) (drop j b') = dec_string (unat (val div 10))" "drop i b' = drop i ?b"
        "length (dec_string (unat (val div 10))) = i - j"
      using "2.IH" [OF refl refl False _ small] "2.prems"(1) by auto
    have last: "b' ! i = digit_char (unat val mod 10)"
      using dig IH(3) arg_cong [OF IH(5), of hd] "2.prems"(1) by (simp add: hd_drop_conv_nth)
    have "take (Suc i - j) (drop j b') = take (i - j) (drop j b') @ [b' ! i]"
      using IH(2,3) "2.prems"(1) by (simp add: Suc_diff_le take_Suc_conv_app_nth)
    then have txts: "take (Suc i - j) (drop j b') = dec_string (unat val)"
      using nz unfolding IH(4) last u by (subst dec_string_last) simp
    have rest: "drop (Suc i) b' = drop (Suc i) buf"
      using arg_cong [OF IH(5), of "drop 1"] by simp
    have "length (dec_string (unat val)) = Suc i - j"
      unfolding txts [symmetric] using IH(2,3) "2.prems"(1) by simp
    then show ?thesis using False IH(1,2,3) txts rest by auto
  qed
qed

lemma c_str_prefix:
  assumes "\<forall>c\<in>set t. c \<noteq> CHR 0x00"
  shows "c_str (t @ CHR 0x00 # rest) = Inr t"
proof -
  have "takeWhile (\<lambda>c. c \<noteq> CHR 0x00) (t @ CHR 0x00 # rest) = t"
    using assms by (subst takeWhile_append2) auto
  then show ?thesis by (simp add: c_str_def)
qed

lemma u32_to_dec_spec:
  assumes "11 \<le> length buf"
  shows "\<exists>buf'. u32_to_dec val buf = Inr buf' \<and> length buf' = length buf \<and>
           c_str buf' = Inr (dec_string (unat val)) \<and> drop 11 buf' = drop 11 buf"
proof -
  have "unat val < 2 ^ LENGTH(32)" by (rule unsigned_less)
  then have "unat val < 10 ^ 10" by simp
  then obtain j b where loop: "dec_loop 10 val buf = Inr (j, b)" "j \<le> 10" "length b = length buf"
      "take (10 - j) (drop j b) = dec_string (unat val)" "drop 10 b = drop 10 buf"
      "length (dec_string (unat val)) = 10 - j"
    using dec_loop_digits [of 10 buf val] assms by auto
  let ?ds = "dec_string (unat val)"
  let ?buf = "(?ds @ drop (10 - j) b)[10 - j := CHR 0x00]"
  have cut: "drop (10 - j) b = b ! (10 - j) # drop (Suc (10 - j)) b"
    using assms loop(3) by (intro Cons_nth_drop_Suc [symmetric]) simp
  have buf: "?buf = ?ds @ CHR 0x00 # drop (Suc (10 - j)) b"
    by (simp add: cut list_update_append loop(6))
  have "\<forall>c\<in>set ?ds. c \<noteq> CHR 0x00" using dec_string_digits dec_char_not_zero by blast
  then have "c_str ?buf = Inr ?ds" unfolding buf by (rule c_str_prefix)
  moreover have "u32_to_dec val buf = Inr ?buf"
    using assms loop(1,4) by (simp add: u32_to_dec_def tg_assert_def Let_def)
  moreover have "drop 11 b = drop 11 buf" using arg_cong [OF loop(5), of "drop 1"] by simp
  then have "drop 11 ?buf = drop 11 buf" unfolding buf using loop(2,6) by simp
  moreover have "length ?buf = length buf" using loop(3,6) assms by simp
  ultimately show ?thesis by blast
qed

definition hex_digit :: "nat \<Rightarrow> char" where
  "hex_digit d = ''0123456789ABCDEF'' ! d"

definition hex_text :: "u64 \<Rightarrow> string" where
  "hex_text v = ''0x'' @ map (\<lambda>k. hex_digit (unat v div 16 ^ k mod 16)) (rev [0..<16])"

lemma hex_digit_cases: "d < 16 \<Longrightarrow> hex_char_value (hex_digit d) = Some d \<and> hex_digit d \<noteq> CHR 0x00"
proof -
  assume "d < 16"
  then have "d = 0 \<or> d = 1 \<or> d = 2 \<or> d = 3 \<or> d = 4 \<or> d = 5 \<or> d = 6 \<or> d = 7 \<or>
      d = 8 \<or> d = 9 \<or> d = 10 \<or> d = 11 \<or> d = 12 \<or> d = 13 \<or> d = 14 \<or> d = 15" by presburger
  then show ?thesis by (auto simp: hex_digit_def hex_char_value_def Let_def)
qed

lemma hex_loop_digits:
  assumes "1 \<le> i" "i < length buf"
  shows "hex_loop i val buf =
           take 2 buf @ map (\<lambda>k. hex_digit (unat val div 16 ^ k mod 16)) (rev [0..<i - 1]) @ drop (Suc i) buf"
  using assms
proof (induction i arbitrary: val buf)
  case 0
  then show ?case by simp
next
  case (Suc m)
  let ?d = "''0123456789ABCDEF'' ! unat (val mod 16)"
  show ?case
  proof (cases "m = 0")
    case True
    then show ?thesis using Suc.prems by (subst hex_loop.simps) (simp add: numeral_2_eq_2)
  next
    case False
    have digit: "?d = hex_digit (unat val mod 16)" by (simp add: hex_digit_def unat_mod)
    have "drop (Suc m) (buf[Suc m := ?d]) = ?d # drop (Suc (Suc m)) buf"
      using Suc.prems by (subst Cons_nth_drop_Suc [symmetric]) simp_all
    moreover have "take 2 (buf[Suc m := ?d]) = take 2 buf" using False by simp
    moreover have "rev [0..<m] = map Suc (rev [0..<m - 1]) @ [0]"
      using False upt_conv_Cons [of 0 m] map_Suc_upt [of 0 "m - 1"] by (simp add: rev_map [symmetric] del: upt_Suc)
    ultimately show ?thesis
      using Suc.IH [of "buf[Suc m := ?d]" "val div 16"] Suc.prems False
      by (subst hex_loop.simps) (simp add: digit unat_div div_mult2_eq comp_def del: upt_Suc)
  qed
qed

lemma u64_to_hex_spec:
  assumes "19 \<le> length buf"
  shows "\<exists>buf'. u64_to_hex val buf = Inr buf' \<and> length buf' = length buf \<and>
           c_str buf' = Inr (hex_text val) \<and> drop 19 buf' = drop 19 buf"
proof -
  let ?z = "buf[18 := CHR 0x00]"
  let ?hs = "map (\<lambda>k. hex_digit (unat val div 16 ^ k mod 16)) (rev [0..<16])"
  obtain a b rest where "buf = a # b # rest" using assms by (cases buf; cases "tl buf") auto
  then have z: "take 2 ?z = [a, b]" by simp
  have drop: "drop 18 ?z = CHR 0x00 # drop 19 buf"
    using assms by (subst Cons_nth_drop_Suc [symmetric]) simp_all
  have "hex_loop 17 val ?z = a # b # ?hs @ CHR 0x00 # drop 19 buf"
    using hex_loop_digits [of 17 ?z val] assms drop z by simp
  then have res: "u64_to_hex val buf = Inr (hex_text val @ CHR 0x00 # drop 19 buf)"
    using assms by (simp add: u64_to_hex_def tg_assert_def hex_text_def Let_def)
  have "\<forall>c\<in>set (hex_text val). c \<noteq> CHR 0x00"
    unfolding hex_text_def using hex_digit_cases by auto
  then have "c_str (hex_text val @ CHR 0x00 # drop 19 buf) = Inr (hex_text val)" by (rule c_str_prefix)
  moreover have len: "length (hex_text val) = 18" by (simp add: hex_text_def)
  ultimately show ?thesis using res assms by simp
qed

text \<open>Reading the digits of a number back, from the most significant one.\<close>

lemma digits_value:
  "foldl (\<lambda>a k. b * a + n div b ^ k mod b) 0 (rev [0..<m]) = n mod (b :: nat) ^ m"
proof (induction m)
  case 0
  then show ?case by simp
next
  case (Suc m)
  have shift: "foldl (\<lambda>a k. b * a + f k) c (rev [0..<m]) = c * b ^ m + foldl (\<lambda>a k. b * a + f k) 0 (rev [0..<m])"
    for f :: "nat \<Rightarrow> nat" and c
  proof (induction m arbitrary: c)
    case (Suc m)
    show ?case using Suc.IH [of "b * c + f m"] Suc.IH [of "f m"] by (simp add: algebra_simps)
  qed simp
  have "foldl (\<lambda>a k. b * a + n div b ^ k mod b) 0 (rev [0..<Suc m]) = (n div b ^ m mod b) * b ^ m + n mod b ^ m"
    using shift [of "\<lambda>k. n div b ^ k mod b" "n div b ^ m mod b"] Suc.IH by simp
  also have "\<dots> = n mod b ^ Suc m"
    using mod_mult2_eq [of n "b ^ m" b] by (simp add: ac_simps)
  finally show ?case .
qed

definition hex_value :: "string \<Rightarrow> nat" where
  "hex_value s = foldl (\<lambda>a c. 16 * a + the (hex_char_value c)) 0 (drop 2 s)"

lemma hex_value_hex_text: "hex_value (hex_text v) = unat v"
proof -
  have "hex_value (hex_text v) = foldl (\<lambda>a k. 16 * a + unat v div 16 ^ k mod 16) 0 (rev [0..<16])"
    using hex_digit_cases by (simp add: hex_value_def hex_text_def foldl_map del: upt_Suc)
  also have "\<dots> = unat v" using unat_u64_less [of v] by (simp add: digits_value del: upt_Suc)
  finally show ?thesis .
qed

text \<open>
  Claim C39. The two routines that render numbers work for every value and every array that
  passes their assertion, whatever it holds: they stay inside the array and its first 11 and 19
  bytes, the text they leave ends with a zero byte, and reading the text back gives the value; the
  decimal text has no superfluous zeros. Smaller arrays make them abort.
\<close>

theorem number_texts_roundtrip:
  "(if length buf < 11 then u32_to_dec x buf = Inl Aborted
    else \<exists>buf'. u32_to_dec x buf = Inr buf' \<and> length buf' = length buf \<and> drop 11 buf' = drop 11 buf \<and>
           c_str buf' = Inr (dec_string (unat x)) \<and> dec_value 0 (dec_string (unat x)) = unat x) \<and>
   (if length buf < 19 then u64_to_hex v buf = Inl Aborted
    else \<exists>buf' s. u64_to_hex v buf = Inr buf' \<and> length buf' = length buf \<and> drop 19 buf' = drop 19 buf \<and>
           c_str buf' = Inr s \<and> length s = 18 \<and> hex_value s = unat v)"
proof (intro conjI)
  show "if length buf < 11 then u32_to_dec x buf = Inl Aborted
    else \<exists>buf'. u32_to_dec x buf = Inr buf' \<and> length buf' = length buf \<and> drop 11 buf' = drop 11 buf \<and>
           c_str buf' = Inr (dec_string (unat x)) \<and> dec_value 0 (dec_string (unat x)) = unat x"
    using u32_to_dec_spec [of buf x] by (auto simp: u32_to_dec_def tg_assert_def dec_value_dec_string)
  show "if length buf < 19 then u64_to_hex v buf = Inl Aborted
    else \<exists>buf' s. u64_to_hex v buf = Inr buf' \<and> length buf' = length buf \<and> drop 19 buf' = drop 19 buf \<and>
           c_str buf' = Inr s \<and> length s = 18 \<and> hex_value s = unat v"
    using u64_to_hex_spec [of buf v] hex_value_hex_text [of v]
    by (auto simp: u64_to_hex_def tg_assert_def hex_text_def)
qed

subsection \<open>The report\<close>

text \<open>The texts of the report, in order.\<close>

definition u32_line :: "string \<Rightarrow> u32 \<Rightarrow> string list" where
  "u32_line lbl u = [lbl, dec_string (unat u), [CHR 0x0A]]"

definition name_report :: "int \<Rightarrow> string list" where
  "name_report signo =
     (case map_of fatal_signals signo of
        Some nam \<Rightarrow> [''Signal: '' @ nam @ [CHR 0x0A]] | None \<Rightarrow> u32_line ''Signal: '' (of_int signo))"

definition cause_report :: "siginfo \<Rightarrow> string list" where
  "cause_report si =
     (case map_of signal_infos (si_signo si) of
        None \<Rightarrow> []
      | Some (txt, has_addr) \<Rightarrow>
          (''Info: '' @ txt @ [CHR 0x0A]) #
          (if has_addr then [''Fault memory address: '', hex_text (si_addr si), [CHR 0x0A]] else []) @
          (case map_of code_texts (si_signo si, si_code si) of
             None \<Rightarrow> [] | Some add \<Rightarrow> [''Additional info: '' @ add @ [CHR 0x0A]]))"

definition origin_report :: "int \<Rightarrow> string list" where
  "origin_report code =
     (if code = 0 then [''Additional info: Sent by user'' @ [CHR 0x0A]]
      else if code = 128 then [''Additional info: Sent by the kernel'' @ [CHR 0x0A]] else [])"

definition signal_report :: "siginfo \<Rightarrow> string list" where
  "signal_report si =
     (''--- SIGNAL INFO BEG ---'' @ [CHR 0x0A]) #
     name_report (si_signo si) @ u32_line ''Sending PID: '' (of_int (si_pid si)) @
     u32_line ''Sending UID: '' (si_uid si) @ cause_report si @ origin_report (si_code si) @
     [''--- SIGNAL INFO END ---'' @ [CHR 0x0A]]"

definition register_texts :: "u64 list \<Rightarrow> (string \<times> nat \<times> bool) list \<Rightarrow> string list" where
  "register_texts gregs rs =
     concat (map (\<lambda>(nam, idx, new_line).
       [nam, hex_text (gregs ! idx), if new_line then [CHR 0x0A] else '' '']) rs)"

definition put_all :: "'w crash_lib \<Rightarrow> int \<Rightarrow> string list \<Rightarrow> 'w \<Rightarrow> 'w" where
  "put_all lib fd = fold (put_str lib fd)"

fun write_all :: "'w crash_lib \<Rightarrow> int \<Rightarrow> string list \<Rightarrow> 'w \<Rightarrow> bool \<times> 'w" where
  "write_all lib fd [] w = (True, w)"
| "write_all lib fd (s # ss) w =
     (case write_str lib fd s w of (ok, w) \<Rightarrow> if ok then write_all lib fd ss w else (False, w))"

lemma put_all_simps [simp]:
  "put_all lib fd [] w = w"
  "put_all lib fd (s # ss) w = put_all lib fd ss (put_str lib fd s w)"
  "put_all lib fd (ss @ ts) w = put_all lib fd ts (put_all lib fd ss w)"
  by (simp_all add: put_all_def)

lemma dump_u32_info_eq:
  assumes "length (fresh_array lib) = 32"
  shows "dump_u32_info lib fd lbl u w = Inr (put_all lib fd (u32_line lbl u) w)"
  using u32_to_dec_spec [of "fresh_array lib" u] assms
  by (auto simp: dump_u32_info_def u32_line_def Let_def)

lemma dump_faulty_addr_eq:
  assumes "length (fresh_array lib) = 32"
  shows "dump_faulty_addr lib fd a w =
           Inr (put_all lib fd [''Fault memory address: '', hex_text a, [CHR 0x0A]] w)"
  using u64_to_hex_spec [of "fresh_array lib" a] assms by (auto simp: dump_faulty_addr_def Let_def)

lemma dump_name_eq:
  assumes "length (fresh_array lib) = 32"
  shows "dump_name lib fd signo w = Inr (put_all lib fd (name_report signo) w)"
  by (simp add: dump_name_def name_report_def dump_u32_info_eq [OF assms] split: option.split)

lemma dump_cause_eq:
  assumes "length (fresh_array lib) = 32"
  shows "dump_cause lib fd si w = Inr (put_all lib fd (cause_report si) w)"
  by (simp add: dump_cause_def cause_report_def dump_faulty_addr_eq [OF assms] Let_def split: option.split prod.split)

lemma dump_origin_eq: "dump_origin lib fd code w = put_all lib fd (origin_report code) w"
  by (simp add: dump_origin_def origin_report_def)

lemma dump_signal_info_eq:
  assumes "length (fresh_array lib) = 32"
  shows "dump_signal_info lib fd si w = Inr (put_all lib fd (signal_report si) w)"
  by (simp add: dump_signal_info_def signal_report_def dump_name_eq dump_u32_info_eq dump_cause_eq
      dump_origin_eq Let_def assms)

text \<open>The registers are written up to the first write that fails, and nothing after it.\<close>

lemma write_reg_info_eq:
  assumes "length (fresh_array lib) = 32" "idx < length gregs"
  shows "write_reg_info lib fd gregs (nam, idx, nl) w =
           Inr (write_all lib fd [nam, hex_text (gregs ! idx), if nl then [CHR 0x0A] else '' ''] w)"
  using u64_to_hex_spec [of "fresh_array lib" "gregs ! idx"] assms
  by (auto simp: write_reg_info_def Let_def split: prod.splits)

lemma write_all_append:
  "write_all lib fd (ss @ ts) w =
     (case write_all lib fd ss w of (ok, w) \<Rightarrow> if ok then write_all lib fd ts w else (False, w))"
  by (induction ss arbitrary: w) (simp_all split: prod.splits)

lemma dump_regs_eq:
  assumes "length (fresh_array lib) = 32" "\<forall>(nam, idx, nl)\<in>set rs. idx < length gregs"
  shows "dump_regs lib fd gregs rs w = Inr (write_all lib fd (register_texts gregs rs) w)"
  using assms(2)
proof (induction rs arbitrary: w)
  case Nil
  then show ?case by (simp add: register_texts_def)
next
  case (Cons r rs)
  obtain nam idx nl where r: "r = (nam, idx, nl)" by (cases r)
  let ?t = "[nam, hex_text (gregs ! idx), if nl then [CHR 0x0A] else '' '']"
  have cat: "register_texts gregs (r # rs) = ?t @ register_texts gregs rs"
    by (simp add: register_texts_def r)
  have "write_reg_info lib fd gregs r w = Inr (write_all lib fd ?t w)"
    unfolding r using assms(1) Cons.prems r by (intro write_reg_info_eq) auto
  then show ?case
    using Cons.IH Cons.prems unfolding cat write_all_append
    by (simp del: write_all.simps split: prod.splits)
qed

lemma dump_registers_eq:
  assumes "length (fresh_array lib) = 32" "23 \<le> length gregs"
  shows "dump_registers lib fd gregs w =
           Inr (case write_all lib fd ((''--- CPU REGISTERS BEG ---'' @ [CHR 0x0A]) # register_texts gregs registers) w of
                  (ok, w) \<Rightarrow> if ok then (True, put_str lib fd ([CHR 0x0A] @ ''--- CPU REGISTERS END ---'' @ [CHR 0x0A]) w)
                          else (False, w))"
proof -
  have "\<forall>(nam, idx, nl)\<in>set registers. idx < length gregs"
    using assms(2) by (auto simp: registers_def)
  then have "dump_regs lib fd gregs registers w = Inr (write_all lib fd (register_texts gregs registers) w)" for w
    using assms(1) by (intro dump_regs_eq)
  then show ?thesis by (simp add: dump_registers_def split: prod.split)
qed

text \<open>
  What is documented of the C library, for a descriptor \<open>fd\<close> whose writes are all accepted:
  \<open>out w\<close> is what has been written to it, \<open>trace\<close> are the return addresses on the stack and \<open>syms\<close>
  is the text of their symbols.
\<close>

definition crash_lib_documented ::
  "'w crash_lib \<Rightarrow> int \<Rightarrow> ('w \<Rightarrow> string) \<Rightarrow> u64 list \<Rightarrow> (u64 list \<Rightarrow> string) \<Rightarrow> bool" where
  "crash_lib_documented lib fd out trace syms \<longleftrightarrow>
     length (fresh_array lib) = 32 \<and>
     (\<forall>s w. fst (os_write lib fd s w) = int (length s) \<and> out (snd (os_write lib fd s w)) = out w @ s) \<and>
     (\<forall>n w. os_backtrace lib n w = (int (min n (length trace)), take n trace, w)) \<and>
     (\<forall>as w. out (os_symbols_fd lib as fd w) = out w @ syms as) \<and>
     (\<forall>w. out (os_fflush_stdout lib w) = out w \<and> out (os_fflush_stderr lib w) = out w) \<and>
     (\<forall>sig w. out (os_signal_default lib sig w) = out w \<and> out (os_raise lib sig w) = out w)"

lemma documented_write:
  assumes "crash_lib_documented lib fd out trace syms"
  shows "write_str lib fd s w = (True, put_str lib fd s w)" "out (put_str lib fd s w) = out w @ s"
proof -
  have "fst (os_write lib fd s w) = int (length s)" "out (snd (os_write lib fd s w)) = out w @ s"
    using assms by (simp_all add: crash_lib_documented_def)
  then show "write_str lib fd s w = (True, put_str lib fd s w)" "out (put_str lib fd s w) = out w @ s"
    by (cases "os_write lib fd s w"; simp add: put_str_def write_str_def)+
qed

lemma put_all_out:
  assumes "crash_lib_documented lib fd out trace syms"
  shows "out (put_all lib fd ss w) = out w @ concat ss"
  by (induction ss arbitrary: w) (simp_all add: documented_write [OF assms])

lemma write_all_documented:
  assumes "crash_lib_documented lib fd out trace syms"
  shows "write_all lib fd ss w = (True, put_all lib fd ss w)"
  by (induction ss arbitrary: w) (simp_all add: documented_write [OF assms])

definition stack_report :: "u64 list \<Rightarrow> (u64 list \<Rightarrow> string) \<Rightarrow> string" where
  "stack_report trace syms =
     ''--- STACK TRACE BEG ---'' @ [CHR 0x0A] @ syms (take 128 trace) @ ''--- STACK TRACE END ---'' @ [CHR 0x0A]"

definition register_report :: "u64 list \<Rightarrow> string" where
  "register_report gregs =
     ''--- CPU REGISTERS BEG ---'' @ [CHR 0x0A] @ concat (register_texts gregs registers) @
     [CHR 0x0A] @ ''--- CPU REGISTERS END ---'' @ [CHR 0x0A]"

lemma dump_stacktrace_out:
  assumes doc: "crash_lib_documented lib fd out trace syms" and "trace \<noteq> []"
  shows "fst (dump_stacktrace lib fd w) = 0 \<and>
         out (snd (dump_stacktrace lib fd w)) = out w @ stack_report trace syms"
proof -
  have bt: "os_backtrace lib 128 v = (int (min 128 (length trace)), take 128 trace, v)"
    and sy: "out (os_symbols_fd lib as fd v) = out v @ syms as" for v as
    using doc by (simp_all add: crash_lib_documented_def)
  have "0 < length trace" using assms(2) by simp
  then show ?thesis
    unfolding dump_stacktrace_def documented_write(1) [OF doc] bt prod.case
    by (simp add: documented_write(2) [OF doc] sy stack_report_def min_def)
qed

text \<open>
  Claim C35. The first fatal signal produces the whole report and nothing else, in order: what is
  known of the signal, with the identifiers of the sender in decimal and the address of the fault
  in hexadecimal, the symbols of at most 128 levels of the stack and all the registers; then the
  signal is raised again with its default action, and every later entry of the handler, of any
  thread and with any signal, waits forever and writes nothing.
\<close>

theorem crash_report_complete:
  assumes "crash_lib_documented lib (output_fd ctx) out trace syms" and "trace \<noteq> []"
    and "\<not> handler_called ctx" and "23 \<le> length gregs"
  shows "\<exists>ctx' w1. fatal_signal_handler lib sig si gregs ctx w =
             Inr (ctx', os_raise lib sig (os_signal_default lib sig w1)) \<and>
           output_fd ctx' = output_fd ctx \<and>
           out w1 = out w @ concat (signal_report si) @ stack_report trace syms @ register_report gregs \<and>
           (\<forall>sig' si' gregs' w'. fatal_signal_handler lib sig' si' gregs' ctx' w' = Inl Diverged)"
proof -
  note doc = assms(1)
  let ?fd = "output_fd ctx" and ?ctx = "ctx\<lparr>handler_called := True\<rparr>"
  have arr: "length (fresh_array lib) = 32"
    and flush: "out (os_fflush_stderr lib (os_fflush_stdout lib v)) = out v" for v
    using doc by (simp_all add: crash_lib_documented_def)
  define ws where "ws = snd (dump_stacktrace lib ?fd (put_all lib ?fd (signal_report si) w))"
  define wr where "wr = put_all lib ?fd
      (((''--- CPU REGISTERS BEG ---'' @ [CHR 0x0A]) # register_texts gregs registers) @
       [[CHR 0x0A] @ ''--- CPU REGISTERS END ---'' @ [CHR 0x0A]]) ws"
  have regs: "dump_registers lib ?fd gregs ws = Inr (True, wr)"
    unfolding dump_registers_eq [OF arr assms(4)] write_all_documented [OF doc] wr_def by simp
  have run: "fatal_signal_handler lib sig si gregs ctx w =
      Inr (?ctx, os_raise lib sig (os_signal_default lib sig (os_fflush_stderr lib (os_fflush_stdout lib wr))))"
    using assms(3) regs by (simp add: fatal_signal_handler_def dump_signal_info_eq [OF arr] ws_def Let_def)
  have "out wr = out ws @ register_report gregs"
    unfolding wr_def put_all_out [OF doc] register_report_def by simp
  moreover have "out ws = (out w @ concat (signal_report si)) @ stack_report trace syms"
    unfolding ws_def using dump_stacktrace_out [OF doc assms(2)] put_all_out [OF doc] by metis
  ultimately have "out (os_fflush_stderr lib (os_fflush_stdout lib wr)) =
      out w @ concat (signal_report si) @ stack_report trace syms @ register_report gregs"
    by (simp add: flush)
  moreover have "fatal_signal_handler lib sig' si' gregs' ?ctx w' = Inl Diverged" for sig' si' gregs' w'
    by (simp add: fatal_signal_handler_def)
  ultimately show ?thesis using run by (intro exI [of _ ?ctx]) auto
qed

definition sample_crash_lib :: "string crash_lib" where
  "sample_crash_lib =
     \<lparr>fresh_array = replicate 32 (CHR ''x''), os_write = (\<lambda>fd s w. (int (length s), w @ s)), os_errno = (\<lambda>w. 0),
      os_backtrace = (\<lambda>n w. (int (min n 1), take n [0x401000], w)), os_symbols_fd = (\<lambda>as fd w. w @ ''main''),
      os_fflush_stdout = (\<lambda>w. w), os_fflush_stderr = (\<lambda>w. w), os_signal_default = (\<lambda>sig w. w),
      os_raise = (\<lambda>sig w. w), os_sigaction = (\<lambda>sig w. (0, w))\<rparr>"

definition sample_segv :: siginfo where
  "sample_segv = \<lparr>si_signo = 11, si_code = 1, si_pid = 0, si_uid = 0, si_addr = 0x10\<rparr>"

lemma sample_crash_lib_documented:
  "crash_lib_documented sample_crash_lib 2 (\<lambda>w. w) [0x401000] (\<lambda>as. ''main'')"
  by (simp add: crash_lib_documented_def sample_crash_lib_def)

theorem crash_report_complete_witness:
  "\<exists>ctx' w1. fatal_signal_handler sample_crash_lib 11 sample_segv (replicate 23 7)
       \<lparr>output_fd = 2, handler_called = False\<rparr> [] = Inr (ctx', w1) \<and>
     (\<forall>w'. fatal_signal_handler sample_crash_lib 6 sample_segv (replicate 23 7) ctx' w' = Inl Diverged)"
proof -
  have raise: "os_raise sample_crash_lib sig w = w" for sig w by (simp add: sample_crash_lib_def)
  show ?thesis
    using crash_report_complete [of sample_crash_lib "\<lparr>output_fd = 2, handler_called = False\<rparr>" "\<lambda>w. w"
        "[0x401000]" "\<lambda>as. ''main''" "replicate 23 7" 11 sample_segv "[]"] sample_crash_lib_documented
    unfolding raise by auto
qed

text \<open>
  Installing the handlers reports success exactly by \<open>errno\<close>: when \<open>backtrace\<close> finds no level,
  which sets no error number, the result is that of a success although the descriptor is not set.
\<close>

lemma silent_setup_failure:
  assumes "fd \<noteq> -1" and "\<And>sig w. \<exists>w'. os_sigaction lib sig w = (0, w')"
    and "\<And>w. \<exists>tr w'. os_backtrace lib 64 w = (0, tr, w')" and "\<And>w. os_errno lib w = 0"
  shows "\<exists>w'. dump_stacktrace_on_fatal_signal lib fd crash_ctx_init w = Inr (0, crash_ctx_init, w')"
proof -
  have "\<exists>w'. install_handlers lib sigs w = (True, w')" for sigs w
  proof (induction sigs arbitrary: w)
    case (Cons sig sigs)
    then show ?case using assms(2) [of sig w] by auto
  qed simp
  then obtain w1 where "install_handlers lib (map fst fatal_signals) w = (True, w1)" by blast
  moreover obtain tr w2 where "os_backtrace lib 64 w1 = (0, tr, w2)" using assms(3) by blast
  ultimately show ?thesis
    using assms(1,4) by (simp add: dump_stacktrace_on_fatal_signal_def tg_assert_def crash_ctx_init_def)
qed

end
