(* ===== verification/Application.thy ===== *)
theory Application
  imports System App_Config Stacktrace
begin

section \<open>The application (app/application.cpp, main.cpp)\<close>

text \<open>
  Construction of the whole program from its settings, the loop of each of its two threads, the
  handler of the signals that stop them, destruction, and \<open>main\<close>. What \<open>main\<close> and the constructor call
  outside the repository is the record \<open>app_libs\<close>, on the state \<open>'w\<close> that the libraries of the
  generation manager use too: DPDK's environment layer, \<open>signal\<close> and the address of the server.
\<close>

record 'w app_libs =
  eal_init :: "string list \<Rightarrow> 'w \<Rightarrow> int \<times> 'w"
  eal_cleanup :: "'w \<Rightarrow> 'w"
  eal_errno :: "'w \<Rightarrow> int"
  eal_primary :: "'w \<Rightarrow> bool"
  subscribe_signal :: "int \<Rightarrow> 'w \<Rightarrow> bool \<times> 'w"
  signal_errno :: "'w \<Rightarrow> int"
  endpoint_text :: "u32 \<times> u16 \<Rightarrow> string"
  listen_error :: "string \<Rightarrow> int"
  server_version :: string

subsection \<open>The arguments of the environment layer\<close>

text \<open>
  \<open>make_arg\<close> prints at the start of the span that is left of the buffer, as much as fits, checks
  that it did fit, terminates the text and returns where it starts. A span is the whole buffer and
  the position where it begins.
\<close>

definition make_arg :: "build \<Rightarrow> string \<Rightarrow> string \<times> nat \<Rightarrow> (nat \<times> string \<times> nat) res" where
  "make_arg bld txt buf =
     (case buf of (mem, pos) \<Rightarrow>
        let room = length mem - pos; size = length txt;
            mem = take pos mem @ take room txt @ drop (pos + min room size) mem
        in bind_res (tg_enforce bld (room > size)) (\<lambda>_.
             Inr (pos, mem[pos + size := CHR 0x00], pos + size + 1)))"

fun make_args :: "build \<Rightarrow> string list \<Rightarrow> string \<times> nat \<Rightarrow> (nat list \<times> string) res" where
  "make_args bld [] buf = Inr ([], fst buf)"
| "make_args bld (t # ts) buf =
     bind_res (make_arg bld t buf) (\<lambda>(ret, buf).
     bind_res (make_args bld ts buf) (\<lambda>(rets, mem). Inr (ret # rets, mem)))"

fun read_args :: "string \<Rightarrow> nat list \<Rightarrow> string list res" where
  "read_args mem [] = Inr []"
| "read_args mem (pos # ps) =
     bind_res (c_str (drop pos mem)) (\<lambda>s. bind_res (read_args mem ps) (\<lambda>ss. Inr (s # ss)))"

definition arg_texts :: "app_config \<Rightarrow> string list" where
  "arg_texts cfg =
     [''xproxy'', ''--no-telemetry'',
      ''-l '' @ dec_string (unat (ac_cpus cfg ! 0)) @ '','' @ dec_string (unat (ac_cpus cfg ! 1)),
      ''-n '' @ dec_string (unat (ac_num_memory_channels cfg))]"

text \<open>The strings the environment layer finds behind the pointers it is given.\<close>

definition eal_args :: "build \<Rightarrow> app_config \<Rightarrow> string list res" where
  "eal_args bld cfg =
     bind_res (make_args bld (arg_texts cfg) (replicate 1024 (CHR 0x00), 0)) (\<lambda>(args, mem). read_args mem args)"

definition dpdk_eal_new :: "build \<Rightarrow> 'w app_libs \<Rightarrow> app_config \<Rightarrow> 'w \<Rightarrow> unit res \<times> 'w" where
  "dpdk_eal_new bld A cfg w =
     (case bind_res (tg_enforce bld (length (ac_cpus cfg) = 2)) (\<lambda>_. eal_args bld cfg) of
        Inl e \<Rightarrow> (Inl e, w)
      | Inr args \<Rightarrow> (case eal_init A args w of (ret, w) \<Rightarrow>
          if ret < 0 then (throw_dpdk_error (eal_errno A w) ''Failed to initialize the DPDK abstraction layer'' [], w)
          else (tg_enforce bld (eal_primary A w), w)))"

subsection \<open>Construction and destruction\<close>

record ('l, 'w) app =
  ap_sys :: "('l, 'w) sys"
  ap_cpus :: "u16 list"

text \<open>A loop that does not end is a call that never returns.\<close>

definition returned :: "'a res option \<Rightarrow> 'a res" where
  "returned r = (case r of None \<Rightarrow> Inl Diverged | Some r \<Rightarrow> r)"

text \<open>
  The members are destroyed in the reverse order: the management manager, which does nothing to the
  world, the generation manager, the two queues and the environment layer. \<open>m2g\<close> is the queue the
  management manager writes to; the other one is kept with the generation manager.
\<close>

definition members_destroy ::
  "build \<Rightarrow> ('l, 'w) gen_libs \<Rightarrow> 'w app_libs \<Rightarrow> ('l, 'w) mgr \<Rightarrow> out_msg ring \<Rightarrow> 'w res" where
  "members_destroy bld L A g m2g =
     bind_res (gen_mgr_destroy bld L g) (\<lambda>w.
     bind_res (returned (ring_destroy m2g)) (\<lambda>_.
     bind_res (returned (ring_destroy (mg_out g))) (\<lambda>_. Inr (eal_cleanup A w))))"

definition app_destroy :: "build \<Rightarrow> ('l, 'w) gen_libs \<Rightarrow> 'w app_libs \<Rightarrow> ('l, 'w) app \<Rightarrow> 'w res" where
  "app_destroy bld L A a = members_destroy bld L A (sy_gen (ap_sys a)) (mm_out (sy_mgmt (ap_sys a)))"

text \<open>An exception of a constructor leaves it after the members made so far are destroyed.\<close>

definition unwind :: "fault \<Rightarrow> 'w res \<Rightarrow> 'w \<Rightarrow> 'a res \<times> 'w" where
  "unwind e cleanup w = (case cleanup of Inl f \<Rightarrow> (Inl f, w) | Inr w' \<Rightarrow> (Inl e, w'))"

definition mgr_config_of :: "app_config \<Rightarrow> mgr_config" where
  "mgr_config_of cfg =
     \<lparr>mc_working_dir = ac_working_dir cfg, mc_max_cnt_mbufs = ac_max_cnt_mbufs cfg,
      mc_nic_queue_size = ac_nic_queue_size cfg\<rparr>"

text \<open>\<open>SIGINT\<close> is 2 and \<open>SIGTERM\<close> is 15; the second is not subscribed to when the first fails.\<close>

fun sig_sub :: "'w app_libs \<Rightarrow> int list \<Rightarrow> 'w \<Rightarrow> bool \<times> 'w" where
  "sig_sub A [] w = (True, w)"
| "sig_sub A (sig # sigs) w =
     (case subscribe_signal A sig w of (ok, w) \<Rightarrow> if ok then sig_sub A sigs w else (False, w))"

definition app_new ::
  "build \<Rightarrow> ('l, 'w) gen_libs \<Rightarrow> 'w app_libs \<Rightarrow> app_config \<Rightarrow> 'w \<Rightarrow> ('l, 'w) app res \<times> 'w" where
  "app_new bld L A cfg w =
     (case dpdk_eal_new bld A cfg w of
        (Inl e, w) \<Rightarrow> (Inl e, w)
      | (Inr _, w) \<Rightarrow> (case gen_mgr_new L (mgr_config_of cfg) inc_queue_new w of
          (Inl e, w) \<Rightarrow>
            unwind e (bind_res (returned (ring_destroy out_queue_new)) (\<lambda>_.
                      bind_res (returned (ring_destroy inc_queue_new)) (\<lambda>_. Inr (eal_cleanup A w)))) w
        | (Inr g, w) \<Rightarrow>
            (case mgmt_new (listen_error A) (server_version A) (endpoint_text A (ac_mgmt_endpoint cfg)) out_queue_new of
               Inl e \<Rightarrow> unwind e (members_destroy bld L A g out_queue_new) w
             | Inr m \<Rightarrow> (case sig_sub A [2, 15] w of (ok, w) \<Rightarrow>
                 let g = g\<lparr>mg_world := w\<rparr> in
                 if ok then (Inr \<lparr>ap_sys = \<lparr>sy_gen = g, sy_mgmt = m\<rparr>, ap_cpus = ac_cpus cfg\<rparr>, w)
                 else unwind (Thrown (System_error (signal_errno A w) ''Failed to subscribe to the OS signal'' []))
                        (members_destroy bld L A g (mm_out m)) w))))"

definition application_new ::
  "build \<Rightarrow> ('l, 'w) gen_libs \<Rightarrow> 'w app_libs \<Rightarrow> 'f conf_libs \<Rightarrow> string \<Rightarrow> 'w \<Rightarrow> ('l, 'w) app res \<times> 'w" where
  "application_new bld L A C cfg_path w =
     (case config_new bld C cfg_path of Inl e \<Rightarrow> (Inl e, w) | Inr cfg \<Rightarrow> app_new bld L A cfg w)"

subsection \<open>The two threads\<close>

fun signal_handler :: "int \<Rightarrow> bool \<Rightarrow> bool res" where
  "signal_handler sig stop_flag =
     (if sig = 2 then Inr True else if sig = 15 then Inr True else tg_unreachable)"

datatype role = Mgmt_role | Gen_role

text \<open>Which manager the thread of a core runs; the comparisons are of unsigned integers.\<close>

definition thread_role :: "u16 list \<Rightarrow> u32 \<Rightarrow> role res" where
  "thread_role cpus lcore =
     (if lcore = ucast (cpus ! 0) then Inr Mgmt_role
      else if lcore = ucast (cpus ! 1) then Inr Gen_role else tg_unreachable)"

text \<open>
  The environment layer starts one thread per core of its list \<open>-l\<close>, and \<open>run\<close> waits for all of
  them. A step is a signal, or what the thread of one core does next: it tests the stop flag and
  either leaves its loop or runs one round of its manager. The third argument of a thread's step is
  the event its io context has ready, if it is the management thread.
\<close>

record ('l, 'w) running =
  rn_sys :: "('l, 'w) sys"
  rn_stop :: bool
  rn_done :: "u32 set"

datatype action = Signal int | Thread u32 "io_event option"

definition lcores :: "u16 list \<Rightarrow> u32 set" where
  "lcores cpus = {ucast (cpus ! 0), ucast (cpus ! 1)}"

definition run_turn ::
  "build \<Rightarrow> ('l, 'w) gen_libs \<Rightarrow> mgmt_libs \<Rightarrow> u16 list \<Rightarrow> u32 \<Rightarrow> io_event option \<Rightarrow> ('l, 'w) sys \<Rightarrow> ('l, 'w) sys res" where
  "run_turn bld L ml cpus lcore ev s =
     bind_res (thread_role cpus lcore) (\<lambda>r. case r of Mgmt_role \<Rightarrow> mgmt_turn bld ml ev s | Gen_role \<Rightarrow> gen_turn bld L s)"

fun run_step ::
  "build \<Rightarrow> ('l, 'w) gen_libs \<Rightarrow> mgmt_libs \<Rightarrow> u16 list \<Rightarrow> action \<Rightarrow> ('l, 'w) running \<Rightarrow> ('l, 'w) running res" where
  "run_step bld L ml cpus (Signal sig) r =
     bind_res (signal_handler sig (rn_stop r)) (\<lambda>b. Inr (r\<lparr>rn_stop := b\<rparr>))"
| "run_step bld L ml cpus (Thread lcore ev) r =
     (if lcore \<notin> lcores cpus \<or> lcore \<in> rn_done r then Inr r
      else if rn_stop r then Inr (r\<lparr>rn_done := insert lcore (rn_done r)\<rparr>)
      else bind_res (run_turn bld L ml cpus lcore ev (rn_sys r)) (\<lambda>s. Inr (r\<lparr>rn_sys := s\<rparr>)))"

text \<open>The first \<open>n\<close> steps of a schedule.\<close>

fun run_steps ::
  "build \<Rightarrow> ('l, 'w) gen_libs \<Rightarrow> mgmt_libs \<Rightarrow> u16 list \<Rightarrow> (nat \<Rightarrow> action) \<Rightarrow> nat \<Rightarrow> ('l, 'w) running \<Rightarrow>
   ('l, 'w) running res" where
  "run_steps bld L ml cpus acts 0 r = Inr r"
| "run_steps bld L ml cpus acts (Suc n) r =
     bind_res (run_steps bld L ml cpus acts n r) (run_step bld L ml cpus (acts n))"

definition run_begin :: "('l, 'w) app \<Rightarrow> ('l, 'w) running" where
  "run_begin a = \<lparr>rn_sys = ap_sys a, rn_stop = False, rn_done = {}\<rparr>"

subsection \<open>The main function\<close>

text \<open>
  \<open>main\<close> up to where the application runs: it returns an exit code, dies of a fault, or runs the
  application it has built; after that it returns 0. The command line is parsed by program\_options;
  \<open>mn_print\<close> stands for the output to the standard streams.
\<close>

record cmd_opts =
  co_help :: bool
  co_version :: bool
  co_config :: "string option"

record 'w main_libs =
  parse_command_line :: "string list \<Rightarrow> exn + cmd_opts"
  mn_print :: "string \<Rightarrow> 'w \<Rightarrow> 'w"
  mn_what :: "exn \<Rightarrow> string"
  opts_text :: string
  version_text :: string

datatype 'a main_step = Returns int | Faults fault | Runs 'a

fun main_catch :: "'w main_libs \<Rightarrow> 'a res \<times> 'w \<Rightarrow> 'a main_step \<times> 'w" where
  "main_catch P (Inl (Thrown e), w) =
     (Returns 1, mn_print P (''ERROR: Failed to run the traffic generator! '' @ mn_what P e) w)"
| "main_catch P (Inl f, w) = (Faults f, w)"
| "main_catch P (Inr a, w) = (Runs a, w)"

definition main_config ::
  "build \<Rightarrow> ('l, 'w) gen_libs \<Rightarrow> 'w app_libs \<Rightarrow> 'f conf_libs \<Rightarrow> 'w crash_lib \<Rightarrow> string \<Rightarrow> 'w \<Rightarrow> ('l, 'w) app res \<times> 'w" where
  "main_config bld L A C K path w =
     (case dump_stacktrace_on_fatal_signal K 2 crash_ctx_init w of
        Inl f \<Rightarrow> (Inl f, w)
      | Inr (err, ctx, w) \<Rightarrow>
          if err \<noteq> 0 then (throw_system_error err ''Unable to setup the stacktrace dumper'' [], w)
          else application_new bld L A C path w)"

definition main_begin ::
  "build \<Rightarrow> ('l, 'w) gen_libs \<Rightarrow> 'w app_libs \<Rightarrow> 'f conf_libs \<Rightarrow> 'w crash_lib \<Rightarrow> 'w main_libs \<Rightarrow> string list \<Rightarrow> 'w \<Rightarrow>
   ('l, 'w) app main_step \<times> 'w" where
  "main_begin bld L A C K P argv w =
     (case parse_command_line P argv of
        Inl e \<Rightarrow> main_catch P (Inl (Thrown e), w)
      | Inr vm \<Rightarrow>
          if co_help vm then (Returns 0, mn_print P (opts_text P) w)
          else if co_version vm then (Returns 0, mn_print P (version_text P) w)
          else case co_config vm of
            Some path \<Rightarrow> main_catch P (main_config bld L A C K path w)
          | None \<Rightarrow> main_catch P (throw_runtime_error ''No options provided.{}'' [opts_text P], w))"

subsection \<open>Start\<close>

definition nul :: "string \<Rightarrow> string" where
  "nul t = t @ [CHR 0x00]"

fun starts :: "nat \<Rightarrow> string list \<Rightarrow> nat list" where
  "starts pos [] = []"
| "starts pos (t # ts) = pos # starts (pos + length (nul t)) ts"

lemma make_arg_spec:
  assumes "length t < length q"
  shows "make_arg as_meant t (p @ q, length p) =
           Inr (length p, (p @ nul t) @ drop (length (nul t)) q, length (p @ nul t))"
proof -
  have "p @ take (length q) t @ drop (min (length q) (length t)) q = p @ t @ drop (length t) q"
    using assms by (simp add: min_def)
  moreover have "(p @ t @ drop (length t) q)[length p + length t := CHR 0x00] =
      p @ t @ CHR 0x00 # drop (Suc (length t)) q"
    using assms by (simp add: list_update_append drop_Suc Cons_nth_drop_Suc [symmetric])
  ultimately show ?thesis using assms by (simp add: make_arg_def nul_def Let_def)
qed

lemma make_args_spec:
  assumes "length (concat (map nul ts)) \<le> length q"
  shows "make_args as_meant ts (p @ q, length p) =
           Inr (starts (length p) ts, p @ concat (map nul ts) @ drop (length (concat (map nul ts))) q)"
  using assms
proof (induction ts arbitrary: p q)
  case (Cons t ts)
  then have "length t < length q" by (simp add: nul_def)
  then have arg: "make_arg as_meant t (p @ q, length p) =
      Inr (length p, (p @ nul t) @ drop (length (nul t)) q, length (p @ nul t))" by (rule make_arg_spec)
  have "length (concat (map nul ts)) \<le> length (drop (length (nul t)) q)" using Cons.prems by simp
  from Cons.IH [OF this, of "p @ nul t"] show ?case by (simp add: arg add.commute)
qed simp

lemma read_args_spec:
  assumes "\<forall>t\<in>set ts. CHR 0x00 \<notin> set t"
  shows "read_args (p @ concat (map nul ts) @ r) (starts (length p) ts) = Inr ts"
  using assms
proof (induction ts arbitrary: p)
  case (Cons t ts)
  have "c_str (t @ CHR 0x00 # concat (map nul ts) @ r) = Inr t"
    using Cons.prems by (intro c_str_prefix) auto
  then have "c_str (nul t @ concat (map nul ts) @ r) = Inr t" by (simp add: nul_def)
  then show ?case using Cons.IH [of "p @ nul t"] Cons.prems by simp
qed simp

lemma dec_string_length: "n < 10 ^ k \<Longrightarrow> 0 < k \<Longrightarrow> length (dec_string n) \<le> k"
proof (induction k arbitrary: n)
  case (Suc k)
  show ?case
  proof (cases "n div 10 = 0")
    case True
    then show ?thesis by (subst dec_string_last) simp
  next
    case False
    have "n < 10 ^ k * 10" using Suc.prems(1) by (simp add: ac_simps)
    then have small: "n div 10 < 10 ^ k" by (rule less_mult_imp_div_less)
    then have "0 < k" using False by (cases k) auto
    then have "length (dec_string (n div 10)) \<le> k" by (rule Suc.IH [OF small])
    then show ?thesis using False by (subst dec_string_last) simp
  qed
qed simp

lemma dec_string_u16: "length (dec_string (unat (n :: u16))) \<le> 5 \<and> CHR 0x00 \<notin> set (dec_string (unat n))"
proof -
  have "unat n < 2 ^ LENGTH(16)" by (rule unsigned_less)
  then have "unat n < 10 ^ 5" by simp
  then have "length (dec_string (unat n)) \<le> 5" by (rule dec_string_length) simp
  moreover have "\<not> is_digit (CHR 0x00)" by (simp add: is_digit_def)
  ultimately show ?thesis using dec_string_char by blast
qed

lemma eal_args_exact: "eal_args as_meant cfg = Inr (arg_texts cfg)"
proof -
  let ?mem = "replicate 1024 (CHR 0x00)" and ?ts = "arg_texts cfg"
  have "length (concat (map nul ?ts)) \<le> 6 + 15 + 16 + 9 + 4"
    using dec_string_u16 [of "ac_cpus cfg ! 0"] dec_string_u16 [of "ac_cpus cfg ! 1"]
      dec_string_u16 [of "ac_num_memory_channels cfg"] by (simp add: arg_texts_def nul_def)
  then have fits: "length (concat (map nul ?ts)) \<le> length ?mem" by simp
  have "\<forall>t\<in>set ?ts. CHR 0x00 \<notin> set t" by (simp add: arg_texts_def dec_string_u16)
  then show ?thesis
    using make_args_spec [OF fits, of "[]"] read_args_spec [of ?ts "[]"] by (simp add: eal_args_def)
qed

text \<open>Destroying the members of a system in any state it can reach.\<close>

lemma ring_destroy_returns: "ring_inv q \<Longrightarrow> \<exists>q'. returned (ring_destroy q) = Inr q'"
  using ring_inv_holds ring_destroy_spec unfolding returned_def by (metis option.case(2))

lemma members_destroy_ok:
  assumes "mgr_ok L bs ar g" and "ring_inv m2g"
  shows "\<exists>v. members_destroy as_meant L A g m2g =
    Inr (eal_cleanup A (pool_free (pools L) (mg_pool g)
      (dev_close (nic_lib L) (mg_dev g) (dev_stop (nic_lib L) (mg_dev g) v))))"
proof -
  obtain v where v: "gen_mgr_destroy as_meant L g = Inr (pool_free (pools L) (mg_pool g)
      (dev_close (nic_lib L) (mg_dev g) (dev_stop (nic_lib L) (mg_dev g) v)))"
    using gen_mgr_destroy_ok [OF assms(1)] by blast
  obtain q1 q2 where "returned (ring_destroy m2g) = Inr q1" "returned (ring_destroy (mg_out g)) = Inr q2"
    using ring_destroy_returns assms(2) mgr_ok_out_inv(1) [OF assms(1)] by metis
  then show ?thesis by (auto simp: members_destroy_def v)
qed

lemma mgmt_new_cases:
  "(\<exists>x. mgmt_new f v e q = Inl (Thrown x)) \<or> (\<exists>m. mgmt_new f v e q = Inr m \<and> mm_out m = q)"
  by (simp add: mgmt_new_def make_acceptor_def throw_system_error_def Let_def)

lemma unwind_thrown: "cleanup = Inr v \<Longrightarrow> unwind (Thrown x) cleanup w = (Inl (Thrown x), v)"
  by (simp add: unwind_def)

lemma app_new_meant:
  fixes L :: "('l, 'w) gen_libs"
  assumes lib: "libs_documented L bs ar" and prim: "\<And>w. eal_primary A w"
    and cpus: "length (ac_cpus cfg) = 2" and init: "eal_init A (arg_texts cfg) w = (ret, w0)" "0 \<le> ret"
  shows "case app_new as_meant L A cfg w of
      (Inr a, w') \<Rightarrow> sys_init L (ap_sys a) \<and> ap_cpus a = ac_cpus cfg
    | (Inl e, w') \<Rightarrow> (\<exists>x. e = Thrown x) \<and> (\<exists>v. w' = eal_cleanup A v)"
proof -
  have eal: "dpdk_eal_new as_meant A cfg w = (Inr (), w0)"
    using init by (simp add: dpdk_eal_new_def cpus eal_args_exact prim)
  have queues: "\<exists>q. returned (ring_destroy out_queue_new) = Inr q" "\<exists>q. returned (ring_destroy inc_queue_new) = Inr q"
    by (rule ring_destroy_returns, rule queues_new)+
  obtain r w1 where g: "gen_mgr_new L (mgr_config_of cfg) inc_queue_new w0 = (r, w1)" by fastforce
  note result = gen_mgr_new_result [OF lib queues_new(4,6), of "mgr_config_of cfg" w0]
  show ?thesis
  proof (cases r)
    case (Inl e)
    then obtain x where "e = Thrown x" using result g by auto
    then have "app_new as_meant L A cfg w = (Inl e, eal_cleanup A w1)"
      using g Inl queues by (auto simp: app_new_def eal unwind_def)
    then show ?thesis using \<open>e = Thrown x\<close> by auto
  next
    case (Inr m)
    then have ok: "mgr_ok L bs ar m" using result g by simp
    let ?new = "mgmt_new (listen_error A) (server_version A) (endpoint_text A (ac_mgmt_endpoint cfg)) out_queue_new"
    consider x where "?new = Inl (Thrown x)" | k where "?new = Inr k" "mm_out k = out_queue_new"
      using mgmt_new_cases by blast
    then show ?thesis
    proof cases
      case 1
      obtain v where "members_destroy as_meant L A m out_queue_new = Inr (eal_cleanup A v)"
        using members_destroy_ok [OF ok queues_new(1), of A] by blast
      then have "app_new as_meant L A cfg w = (Inl (Thrown x), eal_cleanup A v)"
        using g Inr 1 by (simp add: app_new_def eal unwind_def)
      then show ?thesis by auto
    next
      case 2
      obtain sub w2 where sub: "sig_sub A [2, 15] w1 = (sub, w2)" by fastforce
      have ok2: "mgr_ok L bs ar (m\<lparr>mg_world := w2\<rparr>)" using ok by simp
      have "sys_init L \<lparr>sy_gen = m\<lparr>mg_world := w2\<rparr>, sy_mgmt = k\<rparr>"
        using g Inr 2(1) unfolding sys_init_def sys.simps by blast
      moreover obtain v where v: "members_destroy as_meant L A (m\<lparr>mg_world := w2\<rparr>) out_queue_new = Inr (eal_cleanup A v)"
        using members_destroy_ok [OF ok2 queues_new(1), of A] by blast
      moreover have "app_new as_meant L A cfg w =
          (if sub then (Inr \<lparr>ap_sys = \<lparr>sy_gen = m\<lparr>mg_world := w2\<rparr>, sy_mgmt = k\<rparr>, ap_cpus = ac_cpus cfg\<rparr>, w2)
           else (Inl (Thrown (System_error (signal_errno A w2) ''Failed to subscribe to the OS signal'' [])), eal_cleanup A v))"
        using g Inr 2 sub v by (simp add: app_new_def eal unwind_def Let_def del: sig_sub.simps)
      ultimately show ?thesis by auto
    qed
  qed
qed

lemma main_never_runs: "fst (main_begin as_written L A C K P argv w) \<noteq> Runs a"
proof -
  have "fst (application_new as_written L A C path v) \<noteq> Inr a" for path v
  proof (cases "config_new as_written C path")
    case (Inr cfg)
    then show ?thesis using config_never_loads [of C path cfg] by simp
  qed (simp add: application_new_def)
  then have "fst (main_config as_written L A C K path v) \<noteq> Inr a" for path v
    by (auto simp: main_config_def throw_system_error_def split: sum.split)
  moreover have "fst (main_catch P rw) = Runs a \<Longrightarrow> fst rw = Inr a" for rw
    by (induction P rw rule: main_catch.induct) simp_all
  ultimately have "fst (main_catch P (main_config as_written L A C K path v)) \<noteq> Runs a" for path v
    by blast
  then show ?thesis
    by (simp add: main_begin_def throw_runtime_error_def split: sum.split option.split)
qed


subsection \<open>Running and stopping\<close>

text \<open>Only the two signals subscribed to arrive, and every event is one the io context can have.\<close>

definition schedule_ok ::
  "('l, 'w) gen_libs \<Rightarrow> mgmt_libs \<Rightarrow> u16 list \<Rightarrow> (nat \<Rightarrow> action) \<Rightarrow> ('l, 'w) running \<Rightarrow> bool" where
  "schedule_ok L ml cpus acts r0 \<longleftrightarrow>
     (\<forall>n. case acts n of
        Signal sig \<Rightarrow> sig = 2 \<or> sig = 15
      | Thread lcore ev \<Rightarrow>
          \<forall>r. run_steps as_meant L ml cpus acts n r0 = Inr r \<longrightarrow> events_ok ml (sy_mgmt (rn_sys r)) ev)"

lemma thread_role_total: "lcore \<in> lcores cpus \<Longrightarrow> \<exists>r. thread_role cpus lcore = Inr r"
  by (auto simp: lcores_def thread_role_def)

lemma run_turn_ok:
  assumes "sys_ok L bs ar s" and "arrays_bounded (cfg_libs ml)" "counter_hz ml \<noteq> 0"
    and "events_ok ml (sy_mgmt s) ev" and "lcore \<in> lcores cpus"
  shows "\<exists>s'. run_turn as_meant L ml cpus lcore ev s = Inr s' \<and> sys_ok L bs ar s'"
proof -
  obtain r where "thread_role cpus lcore = Inr r" using thread_role_total [OF assms(5)] by blast
  then show ?thesis
    using gen_turn_sys_ok [OF assms(1)] mgmt_turn_ok [OF assms(1-4)]
    by (cases r) (auto simp: run_turn_def)
qed

lemma run_step_ok:
  assumes "sys_ok L bs ar (rn_sys r)" and "arrays_bounded (cfg_libs ml)" "counter_hz ml \<noteq> 0"
    and "case act of Signal sig \<Rightarrow> sig = 2 \<or> sig = 15 | Thread lcore ev \<Rightarrow> events_ok ml (sy_mgmt (rn_sys r)) ev"
    and "rn_done r \<subseteq> lcores cpus"
  shows "\<exists>r'. run_step as_meant L ml cpus act r = Inr r' \<and> sys_ok L bs ar (rn_sys r') \<and>
    rn_done r \<subseteq> rn_done r' \<and> rn_done r' \<subseteq> lcores cpus \<and>
    (rn_stop r \<longrightarrow> rn_stop r' \<and> rn_sys r' = rn_sys r) \<and>
    (case act of Signal sig \<Rightarrow> rn_stop r'
     | Thread lcore ev \<Rightarrow> rn_stop r \<and> lcore \<in> lcores cpus \<longrightarrow> lcore \<in> rn_done r')"
proof (cases act)
  case (Signal sig)
  then show ?thesis using assms by auto
next
  case (Thread lcore ev)
  show ?thesis
  proof (cases "lcore \<notin> lcores cpus \<or> lcore \<in> rn_done r \<or> rn_stop r")
    case True
    then show ?thesis using assms Thread by auto
  next
    case False
    then obtain s' where "run_turn as_meant L ml cpus lcore ev (rn_sys r) = Inr s'" "sys_ok L bs ar s'"
      using run_turn_ok [OF assms(1-3), of ev lcore cpus] assms(4) Thread by auto
    then show ?thesis using assms(5) Thread False by auto
  qed
qed

text \<open>The states of a schedule: every step returns, and what it keeps.\<close>

lemma run_sequence:
  fixes L :: "('l, 'w) gen_libs"
  assumes lib: "libs_documented L bs ar" and ml: "arrays_bounded (cfg_libs ml)" "counter_hz ml \<noteq> 0"
    and init: "sys_init L (ap_sys a)" and sched: "schedule_ok L ml (ap_cpus a) acts (run_begin a)"
  obtains st where "\<And>n. run_steps as_meant L ml (ap_cpus a) acts n (run_begin a) = Inr (st n)"
    "\<And>n. sys_ok L bs ar (rn_sys (st n))" "\<And>n. rn_done (st n) \<subseteq> lcores (ap_cpus a)"
    "\<And>n. rn_done (st n) \<subseteq> rn_done (st (Suc n))"
    "\<And>n. rn_stop (st n) \<Longrightarrow> rn_stop (st (Suc n)) \<and> rn_sys (st (Suc n)) = rn_sys (st n)"
    "\<And>n sig. acts n = Signal sig \<Longrightarrow> rn_stop (st (Suc n))"
    "\<And>n lcore ev. acts n = Thread lcore ev \<Longrightarrow> rn_stop (st n) \<Longrightarrow> lcore \<in> lcores (ap_cpus a) \<Longrightarrow>
       lcore \<in> rn_done (st (Suc n))"
proof -
  let ?run = "\<lambda>n. run_steps as_meant L ml (ap_cpus a) acts n (run_begin a)" and ?cs = "lcores (ap_cpus a)"
  define good where "good r \<longleftrightarrow> sys_ok L bs ar (rn_sys r) \<and> rn_done r \<subseteq> ?cs" for r :: "('l, 'w) running"
  have act: "case acts n of Signal sig \<Rightarrow> sig = 2 \<or> sig = 15 | Thread lcore ev \<Rightarrow> events_ok ml (sy_mgmt (rn_sys r)) ev"
    if "?run n = Inr r" for n r
    using sched that by (auto simp: schedule_ok_def split: action.splits dest: spec [where x = n])
  have total: "\<exists>r. ?run n = Inr r \<and> good r" for n
  proof (induction n)
    case 0
    then show ?case using sys_ok_init [OF lib init] by (simp add: run_begin_def good_def)
  next
    case (Suc n)
    then obtain r where r: "?run n = Inr r" "good r" by blast
    then show ?case
      using run_step_ok [where L = L and bs = bs and ar = ar and cpus = "ap_cpus a", OF _ ml act [OF r(1)]]
      by (auto simp: good_def)
  qed
  define st where "st n = (THE r. ?run n = Inr r)" for n
  have st: "?run n = Inr (st n)" "good (st n)" for n
    using total [of n] by (auto simp: st_def)
  show ?thesis
  proof (rule that [of st])
    fix n sig lcore ev
    note step = run_step_ok [where L = L and bs = bs and ar = ar and cpus = "ap_cpus a", OF _ ml act [OF st(1) [of n]]]
    show "rn_done (st n) \<subseteq> rn_done (st (Suc n))"
      "rn_stop (st n) \<Longrightarrow> rn_stop (st (Suc n)) \<and> rn_sys (st (Suc n)) = rn_sys (st n)"
      "acts n = Signal sig \<Longrightarrow> rn_stop (st (Suc n))"
      "acts n = Thread lcore ev \<Longrightarrow> rn_stop (st n) \<Longrightarrow> lcore \<in> ?cs \<Longrightarrow> lcore \<in> rn_done (st (Suc n))"
      using step st [of n] st(1) [of "Suc n"] by (auto simp: good_def)
  qed (use st in \<open>auto simp: good_def\<close>)
qed

text \<open>After a signal the state of the managers stays, and each thread that is scheduled again leaves.\<close>

lemma threads_leave:
  fixes st :: "nat \<Rightarrow> ('l, 'w) running"
  assumes within: "\<And>n. rn_done (st n) \<subseteq> lcores cpus" and grows: "\<And>n. rn_done (st n) \<subseteq> rn_done (st (Suc n))"
    and stays: "\<And>n. rn_stop (st n) \<Longrightarrow> rn_stop (st (Suc n)) \<and> rn_sys (st (Suc n)) = rn_sys (st n)"
    and leaves: "\<And>n lcore ev. acts n = Thread lcore ev \<Longrightarrow> rn_stop (st n) \<Longrightarrow> lcore \<in> lcores cpus \<Longrightarrow>
       lcore \<in> rn_done (st (Suc n))"
    and stopped: "rn_stop (st k)" and fair: "\<And>lcore n. lcore \<in> lcores cpus \<Longrightarrow> \<exists>m\<ge>n. \<exists>ev. acts m = Thread lcore ev"
  shows "\<exists>N. \<forall>n\<ge>N. rn_done (st n) = lcores cpus \<and> rn_sys (st n) = rn_sys (st k)"
proof -
  have stop: "rn_stop (st n) \<and> rn_sys (st n) = rn_sys (st k)" if "k \<le> n" for n
    using that by (induction n rule: nat_induct_at_least) (use stays stopped in auto)
  have mono: "m \<le> n \<Longrightarrow> rn_done (st m) \<subseteq> rn_done (st n)" for m n
    by (rule lift_Suc_mono_le [where f = "\<lambda>n. rn_done (st n)"]) (rule grows)
  have gone: "\<exists>N. \<forall>n\<ge>N. lcore \<in> rn_done (st n)" if lcore: "lcore \<in> lcores cpus" for lcore
  proof -
    obtain m ev where m: "k \<le> m" "acts m = Thread lcore ev" using fair [OF lcore] by meson
    have "lcore \<in> rn_done (st (Suc m))"
      by (rule leaves [OF m(2) conjunct1 [OF stop [OF m(1)]] lcore])
    then show ?thesis using mono [of "Suc m"] by (intro exI [of _ "Suc m"]) auto
  qed
  obtain N0 N1 where N: "\<forall>n\<ge>N0. ucast (cpus ! 0) \<in> rn_done (st n)" "\<forall>n\<ge>N1. ucast (cpus ! 1) \<in> rn_done (st n)"
    using gone [of "ucast (cpus ! 0)"] gone [of "ucast (cpus ! 1)"] by (auto simp: lcores_def)
  have "rn_done (st n) = lcores cpus \<and> rn_sys (st n) = rn_sys (st k)" if "max k (max N0 N1) \<le> n" for n
    using N that within [of n] stop [of n] by (auto simp: lcores_def)
  then show ?thesis by blast
qed


subsection \<open>Concrete cases\<close>

definition sample_app_libs :: "unit app_libs" where
  "sample_app_libs =
     \<lparr>eal_init = (\<lambda>args w. (int (length args), w)), eal_cleanup = (\<lambda>w. w), eal_errno = (\<lambda>w. 0), eal_primary = (\<lambda>w. True),
      subscribe_signal = (\<lambda>sig w. (True, w)), signal_errno = (\<lambda>w. 0), endpoint_text = (\<lambda>e. dec_string (unat (snd e))),
      listen_error = (\<lambda>e. 0), server_version = ''beast''\<rparr>"


definition sample_app :: "((timer \<times> ctx) list \<times> timer list, unit) app" where
  "sample_app = \<lparr>ap_sys = \<lparr>sy_gen = sample_mgr, sy_mgmt = sample_mgmt_new\<rparr>, ap_cpus = [1, 2]\<rparr>"

text \<open>The two threads take turns; the fourth step is an interrupt.\<close>

definition sample_acts :: "nat \<Rightarrow> action" where
  "sample_acts n = (if n = 3 then Signal 2 else Thread (if even n then 1 else 2) None)"


end
