(* ===== verification/Spec2Isabelle.thy ===== *)
theory Spec2Isabelle
  imports Spsc_Concurrent Put_Time Put_Text Put_Packet Put_Functional Tg_Assert Tg_Log Service System_Liveness
    Application
begin

text \<open>
  A verification library for the traffic generator: a program on DPDK that replays captures as many
  flows of packets at a given rate, and that is controlled over HTTP.

  \<^bold>\<open>The program.\<close> Two threads run one manager each. The management manager
  (\<open>src/mgmt/manager.cpp\<close>) has an embedded HTTP server and turns requests into messages; the
  generation manager (\<open>src/gen/manager.cpp\<close>) owns the network card, the packet pool, the timers and
  the generators of flows, and answers with messages. Two single producer, single consumer rings
  carry the messages (\<open>src/mgmt/messages.h\<close>, \<open>src/put/spsc_ring.h\<close>), and nothing else is shared.
  \<open>src/app/application.cpp\<close> builds both from a configuration file and runs them until a signal.

  \<^bold>\<open>The theories\<close>, from the bottom to the top.
  \<^item> \<open>TG_Prelude\<close>: the faults (an exception, an abort, undefined behaviour, a call that never
    returns), results as sums, loops over results, lemmas on machine words; \<open>src/put/throw.h\<close>.
  \<^item> \<open>Tg_Assert\<close>: the macros of \<open>src/put/tg_assert.h\<close>, and the type \<open>build\<close>, explained below.
    \<open>Tg_Log\<close>: the macros of \<open>src/log/tg_log.h\<close>.
  \<^item> \<open>Put_Num\<close>, \<open>Put_Time\<close>, \<open>Put_Text\<close>, \<open>Put_Packet\<close>: the utilities of \<open>num_utils.h\<close>,
    \<open>time_utils.h\<close>, \<open>string_utils.h\<close>, \<open>ether_addr.cpp\<close> and \<open>pkt_utils.h\<close>. Words have the width of
    the source; conversions of cycles and durations wrap where the source wraps.
  \<^item> \<open>Fifo_Spec\<close>: the abstract queue, as a locale over an abstraction function. \<open>Spsc_Ring\<close>: every
    operation of the ring on its buffer, cached and published indices, as the code computes them,
    with the interpretation of the locale; \<open>Spsc_Concurrent\<close>: the producer and the consumer as
    program counters, one step per access to shared memory, with an inductive step relation over
    release stores and acquire loads and stamps that tell what happens before what.
  \<^item> \<open>Put_Functional\<close>: the reference to a callable and the callback of \<open>functional.h\<close>, the visiting of
    a variant of \<open>visit.h\<close>.
  \<^item> \<open>Event_Scheduler\<close>: \<open>event_scheduler.h\<close> and \<open>event_handle.cpp\<close> on DPDK's timers, which are a
    parameter with its documented laws.
  \<^item> \<open>Gen_Config\<close>: the JSON configuration of a generation, with boost's kinds of numbers and the
    conversion of a double written out. \<open>Messages\<close>: the variants and the two queues.
  \<^item> \<open>Tcap_Loader\<close>, \<open>Load_Pkts\<close>, \<open>Flows_Generator\<close>: reading the records of a capture into chains
    of packet buffers, preparing the packets, and the events of the flows. \<open>Generation_Ops\<close> is the
    virtual interface between the generators and their manager: a record of functions, and two
    locales for what the clients rely on.
  \<^item> \<open>Eth_Dev\<close>, \<open>Mbuf_Pool\<close>: the card and the pool; \<open>Gen_Manager\<close>: the generation manager, which
    interprets the locales of \<open>Generation_Ops\<close>.
  \<^item> \<open>Http_Server\<close>, \<open>Mgmt_Manager\<close>: the coroutines of the server cut at their suspensions, and the
    management manager with its three callbacks and the bodies of the responses.
  \<^item> \<open>System\<close>: the two managers and the queues between them, a round of a manager being one step;
    \<open>Interleaving\<close>: the rounds cut at their operations on the queues, with the lemmas that the
    pieces make up the round; \<open>Service\<close>: the specification of the whole as a service that serves one
    request at a time, with the map from the states of the threads to its states;
    \<open>System_Liveness\<close>: infinite fair runs. \<open>App_Config\<close>: the settings;
    \<open>Stacktrace\<close>: the report of a fatal signal; \<open>Application\<close>: construction, the two loops, the
    signals, destruction and \<open>main\<close>.

  \<^bold>\<open>State and effects.\<close> A class is a record and a member function takes and returns it. What the
  program calls outside the repository (DPDK, boost, the C library, the system) is an argument: a
  record of functions on a state \<open>'w\<close> that they share, with what is documented of them as named
  predicates (\<open>timers_documented\<close>, \<open>libs_documented\<close>, \<open>alloc_fresh\<close>, \<open>pool_counts\<close>,
  \<open>conf_libs_documented\<close>, \<open>crash_lib_documented\<close>), each of which a concrete instance satisfies. A
  \<open>noexcept\<close> function that an exception leaves is an abort.

  \<^bold>\<open>As written and as meant.\<close> Three defects of the source make every run of the program end before
  it does anything: the macro \<open>TG_ENFORCE\<close> tests the opposite of what its uses state, the move
  assignment of an event handle calls itself for ever, and the parser of the endpoint reads its port
  behind the end of a vector. Operations that contain one of these take a \<open>build\<close>: \<open>as_written\<close> is the
  source, \<open>as_meant\<close> has the three repaired and nothing else. The defects are theorems about
  \<open>as_written\<close>; what the rest of the program does is stated for \<open>as_meant\<close>, because as written there
  is nothing left to state.

  \<^bold>\<open>What is shown.\<close>
  \<^item> The whole: in every interleaving of the steps of the two threads no assertion fires, nothing
    undefined is done and no exception escapes; every step is a step of the service, and the history
    of a run is sequential: a reply to a client is the answer of its own request, served after it was
    accepted, in the order of acceptance, and no start succeeds while a generation runs; in every fair run a client that waits is answered,
    unless its answer found the queue full; a stop signal ends the program and all it holds is given
    back; and, where the code ignores the result of a push, a lost answer blocks its client in every
    continuation.
  \<^item> The ring: it refines a bounded queue for every size and history, also where the indices wrap
    around; under concurrency, with the acquire and release orders of the code, every access to a
    slot happens after the other thread's last one and every step is a step of a bounded queue with
    atomic operations. Its destructor ends and destroys everything.
  \<^item> Generation: a capture is loaded record by record, with which bytes and times; what is rewritten
    and what is not; addresses go round their ranges in bursts; packets of a flow are sent in a
    cycle; failing loads and full cards lose no buffer; rounds are total, requests are answered
    once, the generation ends, and the timers are all returned.
  \<^item> Management: the outcome of a request on every branch, the way of an answer to its client, and
    the bodies as JSON.
  \<^item> Around: which configurations of both kinds are accepted and as what, the arguments for the
    environment layer, the lifetime of the card, the pool and the timers, the rendering of numbers
    and the completeness of the crash report.

  \<^bold>\<open>Termination and bounds.\<close> There is no fuel. Loops over data are structural; the loop over a file
  ends because every record consumes bytes (a measure); the wait for the link is bounded by 100
  tries, as in the code. The destructor of the ring and the assignment of a handle are partial
  functions in the option monad: the first is proved to return, the second is proved never to
  return as written. The loops of the threads are runs of arbitrary length with a fairness
  assumption where one is needed. Queue sizes (32 and 256), the burst of 64 packets and all ranges
  are the constants of the source.

  \<^bold>\<open>Not modelled.\<close> The log lines a function prints are left out of its model: they are output
  only. \<open>src/put/mem_utils.h\<close> starts lifetimes,
  which have no meaning in the model. Aliases, the precompiled header and the version strings have
  no behaviour, \<open>src/3rdparty\<close> and \<open>src/tools\<close> are not the program. The orders of the ring's atomic
  operations are modelled as release and acquire; that a value read from a slot is the one last
  written rests on the absence of races that is proved. The reports of the flows are put into the
  queue by one step that ends the round of the generation thread. The text of a formatted exception
  is kept as its format and arguments.
\<close>

end
